(* ===== verification/Prelude.thy ===== *)
theory Prelude
  imports "HOL-Library.Word"
begin

text \<open>
  Shared ground of the okeOS development: the integer types of \<^verbatim>\<open>lib/num.h\<close>, the
  result type of code that can halt the kernel, the loop combinator, the byte memory with its
  little-endian loads and stores, the console trace, and the lemmas on words and memory regions
  that every component uses.
\<close>

unbundle bit_operations_syntax

section \<open>Rule collections\<close>

named_theorems region_simps \<open>addresses inside and outside of written regions\<close>
named_theorems mem_simps \<open>loads after stores\<close>

section \<open>Integer types (lib/num.h)\<close>

type_synonym u8 = "8 word"
type_synonym u16 = "16 word"
type_synonym u32 = "32 word"
type_synonym u64 = "64 word"
type_synonym i32 = "32 word" \<comment> \<open>read with \<open>sint\<close>\<close>
type_synonym i64 = "64 word" \<comment> \<open>read with \<open>sint\<close>\<close>

definition kb :: "u64 \<Rightarrow> u64" where
  "kb x = x * 1024"

definition mb :: "u64 \<Rightarrow> u64" where
  "mb x = x * 1024 * 1024"

text \<open>The largest value of the 32-bit \<open>int\<close> that several loop counters use.\<close>

definition INT_MAX :: nat where
  "INT_MAX = 2 ^ 31 - 1"

section \<open>Halting outcomes\<close>

text \<open>
  \<open>panic\<close> prints its message and spins forever, so code after a call of it is never
  reached: a panicking call is the outcome \<open>Inl (Panic msg)\<close>. \<open>Undefined\<close> is an execution
  that has no meaning in C++ (signed overflow, a store outside of an array), \<open>CpuFault\<close> an
  exception that the processor raises (a division by zero).
\<close>

datatype kerror = Panic string | Undefined string | CpuFault string

type_synonym 'a res = "kerror + 'a"

definition bind_r :: "'a res \<Rightarrow> ('a \<Rightarrow> 'b res) \<Rightarrow> 'b res" where
  "bind_r r f = (case r of Inl e \<Rightarrow> Inl e | Inr x \<Rightarrow> f x)"

lemma bind_r_Inl [simp]: "bind_r (Inl e) f = Inl e"
  by (simp add: bind_r_def)

lemma bind_r_Inr [simp]: "bind_r (Inr x) f = f x"
  by (simp add: bind_r_def)

lemma bind_r_assoc: "bind_r (bind_r r f) g = bind_r r (\<lambda>x. bind_r (f x) g)"
  by (cases r) simp_all

text \<open>Sequences of calls that can halt or not return.\<close>

definition bind_ro :: "'a res option \<Rightarrow> ('a \<Rightarrow> 'b res option) \<Rightarrow> 'b res option" where
  "bind_ro r f = Option.bind r (\<lambda>x. case x of Inl e \<Rightarrow> Some (Inl e) | Inr y \<Rightarrow> f y)"

lemma bind_ro_simps [simp]:
  "bind_ro None f = None" "bind_ro (Some (Inl e)) f = Some (Inl e)" "bind_ro (Some (Inr y)) f = f y"
  by (simp_all add: bind_ro_def)

lemma bind_ro_assoc: "bind_ro (bind_ro r f) g = bind_ro r (\<lambda>x. bind_ro (f x) g)"
  by (auto simp: bind_ro_def split: Option.bind_splits sum.split)

lemma bind_r_eq_Inr: "bind_r r f = Inr y \<longleftrightarrow> (\<exists>x. r = Inr x \<and> f x = Inr y)"
  by (cases r) auto

lemma bind_r_eq_Inl: "bind_r r f = Inl e \<longleftrightarrow> r = Inl e \<or> (\<exists>x. r = Inr x \<and> f x = Inl e)"
  by (cases r) auto

lemma bind_r_cong [fundef_cong]:
  "r = r' \<Longrightarrow> (\<And>x. r' = Inr x \<Longrightarrow> f x = g x) \<Longrightarrow> bind_r r f = bind_r r' g"
  by (cases r') auto

section \<open>Counted loops\<close>

text \<open>
  \<open>for_each f xs s\<close> runs the body \<open>f\<close> for the counter values \<open>xs\<close> in order and stops
  at the first outcome that is not a state.
\<close>

primrec for_each :: "('i \<Rightarrow> 's \<Rightarrow> 's res) \<Rightarrow> 'i list \<Rightarrow> 's \<Rightarrow> 's res" where
  "for_each f [] s = Inr s"
| "for_each f (x # xs) s = bind_r (f x s) (for_each f xs)"

text \<open>The values that the counter of \<open>for (u64 i = 0; i < n; i++)\<close> takes, in order.\<close>

definition count_upto :: "u64 \<Rightarrow> u64 list" where
  "count_upto n = map of_nat [0..<unat n]"

lemma in_count_upto [simp]: "i \<in> set (count_upto n) \<longleftrightarrow> i < n"
proof
  assume "i < n"
  then show "i \<in> set (count_upto n)"
    by (auto simp: count_upto_def word_less_nat_alt intro!: image_eqI [of _ _ "unat i"])
next
  assume "i \<in> set (count_upto n)"
  then obtain k where "k < unat n" and i: "i = of_nat k" by (auto simp: count_upto_def)
  moreover have "unat n < 2 ^ LENGTH(64)" by (rule unsigned_less)
  ultimately show "i < n"
    by (simp add: word_less_nat_alt unat_of_nat take_bit_nat_eq_self)
qed

lemma length_count_upto [simp]: "length (count_upto n) = unat n"
  by (simp add: count_upto_def)

lemma count_upto_0 [simp]: "count_upto 0 = []"
  by (simp add: count_upto_def)

lemma for_each_append:
  "for_each f (xs @ ys) s = bind_r (for_each f xs s) (for_each f ys)"
  by (induction xs arbitrary: s) (simp_all add: bind_r_def split: sum.split)

lemma for_each_Inr_fold:
  "(\<And>x s. x \<in> set xs \<Longrightarrow> f x s = Inr (g x s)) \<Longrightarrow> for_each f xs s = Inr (fold g xs s)"
  by (induction xs arbitrary: s) simp_all

lemma for_each_inv:
  assumes "for_each f xs s = Inr t" and "P s"
    and "\<And>x s t. x \<in> set xs \<Longrightarrow> P s \<Longrightarrow> f x s = Inr t \<Longrightarrow> P t"
  shows "P t"
  using assms
proof (induction xs arbitrary: s)
  case (Cons x xs)
  then obtain u where u: "f x s = Inr u" "for_each f xs u = Inr t"
    by (auto simp: bind_r_eq_Inr)
  with Cons.prems have "P u" by auto
  with u Cons show ?case by (metis list.set_intros(2))
qed simp

lemma fold_inv:
  "P s \<Longrightarrow> (\<And>x s. x \<in> set xs \<Longrightarrow> P s \<Longrightarrow> P (g x s)) \<Longrightarrow> P (fold g xs s)"
  by (induction xs arbitrary: s) simp_all

section \<open>Console trace\<close>

text \<open>
  The memory code reports through \<open>kprintf\<close>, \<open>kprintf_serial\<close> and \<open>kprintf_both\<close>. Each
  call is recorded, in order, with its channel, format string and arguments.
\<close>

datatype channel = Terminal_only | Serial_only | Both_channels

datatype karg = Num u64 | Str string

record kcall =
  chan :: channel
  format :: string
  args :: "karg list"

definition log_terminal :: "string \<Rightarrow> karg list \<Rightarrow> kcall list \<Rightarrow> kcall list" where
  "log_terminal f as l = l @ [\<lparr>chan = Terminal_only, format = f, args = as\<rparr>]"

definition log_serial :: "string \<Rightarrow> karg list \<Rightarrow> kcall list \<Rightarrow> kcall list" where
  "log_serial f as l = l @ [\<lparr>chan = Serial_only, format = f, args = as\<rparr>]"

definition log_both :: "string \<Rightarrow> karg list \<Rightarrow> kcall list \<Rightarrow> kcall list" where
  "log_both f as l = l @ [\<lparr>chan = Both_channels, format = f, args = as\<rparr>]"

section \<open>Words\<close>

lemma unat_add_no_wrap:
  fixes a b :: "'a::len word"
  shows "unat a + unat b < 2 ^ LENGTH('a) \<Longrightarrow> unat (a + b) = unat a + unat b"
  by (simp add: unat_word_ariths)

lemma unat_plus_le: "unat (a + b) \<le> unat a + unat b" for a b :: "'a::len word"
  by (simp add: unat_word_ariths)

lemma unat_mult_no_wrap:
  fixes a b :: "'a::len word"
  shows "unat a * unat b < 2 ^ LENGTH('a) \<Longrightarrow> unat (a * b) = unat a * unat b"
  by (simp add: unat_word_ariths)

lemma unat_sub_le:
  fixes a b :: "'a::len word"
  shows "unat b \<le> unat a \<Longrightarrow> unat (a - b) = unat a - unat b"
  by (simp add: unat_sub word_le_nat_alt)

lemma len64: "LENGTH(64) = 64"
  by simp

lemma unat_of_nat_small:
  "n < 2 ^ LENGTH('a) \<Longrightarrow> unat (of_nat n :: 'a::len word) = n"
  by (simp add: unat_of_nat take_bit_nat_eq_self)

lemma unat_lt_64: "unat (a::u64) < 18446744073709551616"
proof -
  have "unat a < 2 ^ LENGTH(64)" by (rule unsigned_less)
  then show ?thesis by simp
qed

lemma of_nat_inj_u64:
  assumes "x < 2 ^ 64" and "y < 2 ^ 64"
  shows "(of_nat x :: u64) = of_nat y \<longleftrightarrow> x = y"
proof
  assume "(of_nat x :: u64) = of_nat y"
  then have "unat (of_nat x :: u64) = unat (of_nat y :: u64)" by (rule arg_cong)
  with assms show "x = y" by (simp only: unat_of_nat_small len64)
qed simp

lemma unat_add_of_nat:
  fixes a :: u64
  shows "unat a + n < 2 ^ 64 \<Longrightarrow> unat (a + of_nat n) = unat a + n"
  by (simp add: unat_add_no_wrap unat_of_nat_small)

lemma unat_inc: "a < b \<Longrightarrow> unat (a + 1) = Suc (unat a)" for a b :: u64
  using unat_lt_64 [of b] unat_add_no_wrap [of a 1] by (simp add: word_less_nat_alt)

lemma word_eq_unat: "(a::'a::len word) = b \<longleftrightarrow> unat a = unat b"
  by (simp add: word_unat_eq_iff)

lemma word_eqI_unat: "unat a = unat b \<Longrightarrow> (a::'a::len word) = b"
  by (simp add: word_unat_eq_iff)

section \<open>Byte memory\<close>

text \<open>
  The memory that the code dereferences: one byte per 64-bit address. \<open>in_region a n x\<close> says
  that \<open>x\<close> is one of the \<open>n\<close> bytes from \<open>a\<close> on, with addresses wrapping at \<open>2^64\<close>.
\<close>

type_synonym mem = "u64 \<Rightarrow> u8"

definition in_region :: "u64 \<Rightarrow> nat \<Rightarrow> u64 \<Rightarrow> bool" where
  "in_region a n x \<longleftrightarrow> unat (x - a) < n"

lemma in_region_0 [simp]: "\<not> in_region a 0 x"
  by (simp add: in_region_def)

lemma unat_diff_pos: "x \<noteq> a \<Longrightarrow> 1 \<le> unat (x - a)" for x a :: u64
  by (metis One_nat_def Suc_leI eq_iff_diff_eq_0 unat_gt_0 word_neq_0_conv)

lemma unat_step_down: "x \<noteq> a \<Longrightarrow> unat (x - a) = Suc (unat (x - (a + 1)))" for x a :: u64
proof -
  assume "x \<noteq> a"
  then have pos: "1 \<le> unat (x - a)" by (rule unat_diff_pos)
  then have "unat ((x - a) - 1) = unat (x - a) - unat (1::u64)"
    by (intro unat_sub_le) simp
  with pos show ?thesis by (simp add: diff_diff_eq)
qed

lemma in_region_Suc:
  "in_region a (Suc n) x \<longleftrightarrow> x = a \<or> x \<noteq> a \<and> in_region (a + 1) n x"
proof (cases "x = a")
  case False
  then show ?thesis by (simp add: in_region_def unat_step_down)
qed (simp add: in_region_def)

lemma in_region_no_wrap:
  assumes "unat a + n \<le> 2 ^ 64"
  shows "in_region a n x \<longleftrightarrow> unat a \<le> unat x \<and> unat x < unat a + n"
proof (cases "unat a \<le> unat x")
  case True
  then show ?thesis by (auto simp: in_region_def unat_sub_le)
next
  case False
  then have "unat (x - a) = 2 ^ 64 + unat x - unat a"
    by (simp add: unat_sub_if')
  with False assms show ?thesis by (auto simp: in_region_def)
qed

lemma in_region_iff_offset:
  assumes "n \<le> 2 ^ 64"
  shows "in_region a n x \<longleftrightarrow> (\<exists>i<n. x = a + of_nat i)"
proof
  assume "in_region a n x"
  then show "\<exists>i<n. x = a + of_nat i"
    by (intro exI [of _ "unat (x - a)"]) (simp add: in_region_def)
next
  assume "\<exists>i<n. x = a + of_nat i"
  with assms show "in_region a n x"
    by (auto simp: in_region_def unat_of_nat_small)
qed

lemma in_region_mono: "in_region a n x \<Longrightarrow> n \<le> k \<Longrightarrow> in_region a k x"
  by (simp add: in_region_def)

definition region_disjoint :: "u64 \<Rightarrow> nat \<Rightarrow> u64 \<Rightarrow> nat \<Rightarrow> bool" where
  "region_disjoint a n b k \<longleftrightarrow> (\<forall>x. \<not> (in_region a n x \<and> in_region b k x))"

lemma region_disjoint_sym: "region_disjoint a n b k \<Longrightarrow> region_disjoint b k a n"
  by (auto simp: region_disjoint_def)

lemma region_disjointD: "region_disjoint a n b k \<Longrightarrow> in_region a n x \<Longrightarrow> \<not> in_region b k x"
  by (auto simp: region_disjoint_def)

lemma region_disjoint_no_wrap:
  assumes "unat a + n \<le> 2 ^ 64" and "unat b + k \<le> 2 ^ 64"
    and "unat a + n \<le> unat b \<or> unat b + k \<le> unat a"
  shows "region_disjoint a n b k"
  using assms by (auto simp: region_disjoint_def in_region_no_wrap)

text \<open>Little-endian accesses of \<open>n\<close> bytes.\<close>

primrec store_le :: "nat \<Rightarrow> mem \<Rightarrow> u64 \<Rightarrow> u64 \<Rightarrow> mem" where
  "store_le 0 m a v = m"
| "store_le (Suc n) m a v = store_le n (m(a := ucast v)) (a + 1) (drop_bit 8 v)"

primrec load_le :: "nat \<Rightarrow> mem \<Rightarrow> u64 \<Rightarrow> u64" where
  "load_le 0 m a = 0"
| "load_le (Suc n) m a = ucast (m a) OR push_bit 8 (load_le n m (a + 1))"

lemma store_le_apply:
  "n \<le> 2 ^ 64 \<Longrightarrow>
   store_le n m a v x =
     (if in_region a n x then ucast (drop_bit (8 * unat (x - a)) v) else m x)"
proof (induction n arbitrary: m a v)
  case (Suc n)
  show ?case
  proof (cases "x = a")
    case True
    have "\<not> in_region (a + 1) n a"
    proof -
      have "a - (a + 1) = (-1 :: u64)" by simp
      then have "unat (a - (a + 1)) = 2 ^ 64 - 1"
        by (simp only:) (simp add: unsigned_minus_1_eq_mask mask_eq_exp_minus_1)
      with Suc.prems show ?thesis by (simp add: in_region_def)
    qed
    with True Suc show ?thesis by (simp add: in_region_def)
  next
    case False
    with Suc show ?thesis
      by (simp add: in_region_Suc unat_step_down [OF False] mult.commute add.commute)
  qed
qed simp

lemma load_le_cong:
  "(\<And>x. in_region a n x \<Longrightarrow> m x = m' x) \<Longrightarrow> load_le n m a = load_le n m' a"
proof (induction n arbitrary: a)
  case (Suc n)
  then have "\<And>x. in_region (a + 1) n x \<Longrightarrow> m x = m' x"
    by (metis in_region_Suc)
  with Suc show ?case by (simp add: in_region_Suc)
qed simp

lemma load_le_store_le_same:
  "n \<le> 8 \<Longrightarrow> load_le n (store_le n m a v) a = take_bit (8 * n) v"
proof (induction n arbitrary: m a v)
  case (Suc n)
  let ?m = "store_le n (m(a := ucast v)) (a + 1) (drop_bit 8 v)"
  have "?m a = ucast v"
    using store_le_apply [of "Suc n" m a v a] Suc.prems by (simp add: in_region_def)
  moreover have "load_le n ?m (a + 1) = take_bit (8 * n) (drop_bit 8 v)"
    using Suc by simp
  ultimately show ?case
    by (intro bit_word_eqI) (auto simp: bit_simps)
qed simp

lemma load_le_store_le_other:
  assumes "region_disjoint a n b k" and "n \<le> 2 ^ 64"
  shows "load_le k (store_le n m a v) b = load_le k m b"
  using assms by (intro load_le_cong) (auto simp: store_le_apply dest: region_disjointD)

text \<open>
  The interface of a fixed-width memory cell: what a load returns after a store, and which bytes
  either of them touches. The component proofs only use these laws and their consequences.
\<close>

locale memory_cell =
  fixes load :: "mem \<Rightarrow> u64 \<Rightarrow> 'v"
    and store :: "mem \<Rightarrow> u64 \<Rightarrow> 'v \<Rightarrow> mem"
    and width :: nat
  assumes load_store: "load (store m a v) a = v"
    and store_frame: "\<not> in_region a width x \<Longrightarrow> store m a v x = m x"
    and load_cong: "(\<And>x. in_region a width x \<Longrightarrow> m x = m' x) \<Longrightarrow> load m a = load m' a"
begin

lemma load_store_other:
  "region_disjoint a width b width \<Longrightarrow> load (store m a v) b = load m b"
  by (rule load_cong) (metis region_disjointD region_disjoint_sym store_frame)

lemma load_frame:
  "(\<And>x. \<not> in_region a n x \<Longrightarrow> m' x = m x) \<Longrightarrow> region_disjoint a n b width \<Longrightarrow>
   load m' b = load m b"
  by (rule load_cong) (metis region_disjointD region_disjoint_sym)

end

definition load32 :: "mem \<Rightarrow> u64 \<Rightarrow> u32" where
  "load32 m a = ucast (load_le 4 m a)"

definition store32 :: "mem \<Rightarrow> u64 \<Rightarrow> u32 \<Rightarrow> mem" where
  "store32 m a v = store_le 4 m a (ucast v)"

definition load64 :: "mem \<Rightarrow> u64 \<Rightarrow> u64" where
  "load64 m a = load_le 8 m a"

definition store64 :: "mem \<Rightarrow> u64 \<Rightarrow> u64 \<Rightarrow> mem" where
  "store64 m a v = store_le 8 m a v"

interpretation c8: memory_cell "\<lambda>m a. m a" "\<lambda>m a v. m(a := v)" 1
  by unfold_locales (auto simp: in_region_def)

interpretation c32: memory_cell load32 store32 4
proof unfold_locales
  fix m a and v :: u32
  have "load_le 4 (store_le 4 m a (ucast v)) a = take_bit 32 (ucast v)"
    using load_le_store_le_same [of 4 m a "ucast v"] by simp
  moreover have "ucast (take_bit 32 (ucast v :: u64)) = v"
    by (intro bit_word_eqI) (auto simp: bit_simps)
  ultimately show "load32 (store32 m a v) a = v"
    by (simp add: load32_def store32_def)
qed (auto simp: load32_def store32_def store_le_apply intro!: arg_cong [where f = ucast] load_le_cong)

interpretation c64: memory_cell load64 store64 8
proof unfold_locales
  fix m a v
  show "load64 (store64 m a v) a = v"
    using load_le_store_le_same [of 8 m a v]
    by (simp add: load64_def store64_def take_bit_word_eq_self)
qed (auto simp: load64_def store64_def store_le_apply intro!: load_le_cong)

lemmas [mem_simps] = c32.load_store c64.load_store

lemma load64_zero: "(\<And>x. in_region a 8 x \<Longrightarrow> m x = 0) \<Longrightarrow> load64 m a = 0"
proof -
  assume z: "\<And>x. in_region a 8 x \<Longrightarrow> m x = 0"
  have "load64 m a = load64 (\<lambda>_. 0) a" by (rule c64.load_cong) (simp add: z)
  also have "load64 (\<lambda>_. 0) a = 0"
    by (simp add: load64_def eval_nat_numeral)
  finally show ?thesis .
qed

end
