(* ===== verification/Kmem.thy ===== *)
theory Kmem
  imports Prelude
begin

text \<open>
  \<^verbatim>\<open>kernel/lib/mem.cpp\<close> and \<^verbatim>\<open>kernel/lib/math.cpp\<close>: the C memory functions over the byte
  memory. Every loop runs over the byte offsets in the order of the source; the lemmas give each
  function as one simultaneous update of the memory, which is how its callers see it.
\<close>

section \<open>Definitions\<close>

text \<open>The body that all copy loops share: \<open>pdest[i] = psrc[i]\<close>.\<close>

definition copy_byte :: "u64 \<Rightarrow> u64 \<Rightarrow> u64 \<Rightarrow> mem \<Rightarrow> mem" where
  "copy_byte dest src i m = m(dest + i := m (src + i))"

definition memcpy :: "mem \<Rightarrow> u64 \<Rightarrow> u64 \<Rightarrow> u64 \<Rightarrow> mem" where
  "memcpy m dest src n = fold (copy_byte dest src) (count_upto n) m"

definition memset :: "mem \<Rightarrow> u64 \<Rightarrow> i32 \<Rightarrow> u64 \<Rightarrow> mem" where
  "memset m s c n = fold (\<lambda>i m. m(s + i := ucast c)) (count_upto n) m"

text \<open>The descending loop counts \<open>i\<close> from \<open>n\<close> down to 1 and moves the byte at \<open>i - 1\<close>.\<close>

definition memmove :: "mem \<Rightarrow> u64 \<Rightarrow> u64 \<Rightarrow> u64 \<Rightarrow> mem" where
  "memmove m dest src n =
     (if src > dest then fold (copy_byte dest src) (count_upto n) m
      else if src < dest then fold (copy_byte dest src) (rev (count_upto n)) m
      else m)"

primrec memcmp_loop :: "mem \<Rightarrow> u64 \<Rightarrow> u64 \<Rightarrow> u64 list \<Rightarrow> int" where
  "memcmp_loop m s1 s2 [] = 0"
| "memcmp_loop m s1 s2 (i # is) =
     (if m (s1 + i) \<noteq> m (s2 + i) then (if m (s1 + i) < m (s2 + i) then -1 else 1)
      else memcmp_loop m s1 s2 is)"

definition memcmp :: "mem \<Rightarrow> u64 \<Rightarrow> u64 \<Rightarrow> u64 \<Rightarrow> int" where
  "memcmp m s1 s2 n = memcmp_loop m s1 s2 (count_upto n)"

text \<open>Without a zero byte ahead the loop never ends: \<open>None\<close>. The counter is a \<open>u32\<close>.\<close>

partial_function (option) strlen_loop :: "mem \<Rightarrow> u64 \<Rightarrow> u32 \<Rightarrow> u32 option" where
  "strlen_loop m str i = (if m str \<noteq> 0 then strlen_loop m (str + 1) (i + 1) else Some i)"

definition strlen :: "mem \<Rightarrow> u64 \<Rightarrow> u32 option" where
  "strlen m str = strlen_loop m str 0"

text \<open>\<open>val * -1\<close> overflows for the least \<open>i64\<close>.\<close>

definition abs_i64 :: "i64 \<Rightarrow> i64 res" where
  "abs_i64 val =
     (if sint val < 0 then (if val = 2 ^ 63 then Inl (Undefined ''signed overflow'') else Inr (- val))
      else Inr val)"

section \<open>Closed forms\<close>

lemma copy_byte_apply: "copy_byte dest src i m x = (if x = dest + i then m (src + i) else m x)"
  by (simp add: copy_byte_def)

text \<open>
  A loop that copies in an order in which no byte is overwritten before it is read moves the whole
  region at once.
\<close>

lemma copy_fold_apply:
  assumes "distinct is"
    and "\<And>i j. i \<in> set is \<Longrightarrow> j \<in> set is \<Longrightarrow> dest + i = src + j \<Longrightarrow>
           \<exists>xs ys. is = xs @ i # ys \<and> j \<notin> set ys"
  shows "fold (copy_byte dest src) is m x =
         (if x - dest \<in> set is then m (src + (x - dest)) else (m x :: u8))"
  using assms
proof (induction "is" arbitrary: m)
  case (Cons i "is")
  have tail: "\<exists>xs ys. is = xs @ k # ys \<and> j \<notin> set ys"
    if k: "k \<in> set is" "j \<in> set is" "dest + k = src + j" for k j
  proof -
    from k Cons.prems(2) [of k j] obtain xs ys
      where eq: "i # is = xs @ k # ys" and "j \<notin> set ys" by auto
    from k(1) Cons.prems(1) have "k \<noteq> i" by auto
    with eq obtain xs' where "is = xs' @ k # ys" by (cases xs) auto
    with \<open>j \<notin> set ys\<close> show ?thesis by blast
  qed
  let ?m = "copy_byte dest src i m"
  have IH: "fold (copy_byte dest src) is ?m x =
         (if x - dest \<in> set is then ?m (src + (x - dest)) else ?m x)"
    using Cons.prems(1) tail by (intro Cons.IH) auto
  show ?case
  proof (cases "x - dest \<in> set is")
    case True
    have "src + (x - dest) \<noteq> dest + i"
    proof
      assume "src + (x - dest) = dest + i"
      with Cons.prems(2) [of i "x - dest"] True obtain xs ys
        where eq: "i # is = xs @ i # ys" and nin: "x - dest \<notin> set ys" by auto
      with Cons.prems(1) have "xs = []" by (cases xs) auto
      with eq nin True show False by simp
    qed
    with True IH show ?thesis by (simp add: copy_byte_apply [of dest src i m])
  next
    case False
    then show ?thesis using IH by (auto simp: copy_byte_apply [of dest src i m] diff_eq_eq add.commute)
  qed
qed simp

lemma distinct_count_upto [simp]: "distinct (count_upto n)"
proof -
  have "inj_on (of_nat :: nat \<Rightarrow> u64) {0..<unat n}"
    using unat_lt_64 [of n] by (intro inj_onI) (simp add: of_nat_inj_u64)
  then show ?thesis by (simp add: count_upto_def distinct_map)
qed

lemma count_upto_split:
  assumes "i < n"
  shows "count_upto n = count_upto i @ i # map of_nat [Suc (unat i)..<unat n]"
proof -
  have "[0..<unat n] = [0..<unat i] @ unat i # [Suc (unat i)..<unat n]"
    using assms upt_conv_Cons upt_add_eq_append [of 0 "unat i" "unat n - unat i"]
    by (simp add: word_less_nat_alt)
  then show ?thesis by (simp add: count_upto_def)
qed

lemma in_region_less: "in_region a (unat n) x \<longleftrightarrow> x - a < n"
  by (simp add: in_region_def word_less_nat_alt)

lemma memset_apply:
  "memset m s c n x = (if in_region s (unat n) x then ucast c else m x)"
proof -
  have "fold (\<lambda>i m. m(s + i := ucast c)) is m x = (if x - s \<in> set is then ucast c else (m x :: u8))"
    for "is" by (induction "is" arbitrary: m) (auto simp: diff_eq_eq add.commute)
  then show ?thesis by (simp add: memset_def in_region_less)
qed

text \<open>
  \<open>moved m dest src n\<close> is the memory in which the \<open>n\<close> bytes from \<open>src\<close> have been moved to
  \<open>dest\<close> all at once: what C promises for \<open>memmove\<close>, and for \<open>memcpy\<close> without overlap.
\<close>

definition moved :: "mem \<Rightarrow> u64 \<Rightarrow> u64 \<Rightarrow> u64 \<Rightarrow> mem" where
  "moved m dest src n = (\<lambda>x. if in_region dest (unat n) x then m (src + (x - dest)) else m x)"

lemma forward_copy:
  assumes "dest = src \<or> n \<le> dest - src"
  shows "fold (copy_byte dest src) (count_upto n) m = moved m dest src n"
proof
  fix x
  have "\<exists>xs ys. count_upto n = xs @ i # ys \<and> j \<notin> set ys"
    if ij: "i < n" "j < n" "dest + i = src + j" for i j
  proof -
    have "j \<le> i"
    proof (rule ccontr)
      assume "\<not> j \<le> i"
      then have "dest - src = j - i" and "j - i \<le> j" and "i \<noteq> j"
        using ij(3) by (auto simp: algebra_simps word_le_nat_alt unat_sub_if')
      with assms ij(2,3) show False by (auto simp: not_less)
    qed
    moreover have "\<not> j \<le> i" if "j \<in> set (map of_nat [Suc (unat i)..<unat n] :: u64 list)"
    proof -
      from that obtain k where "Suc (unat i) \<le> k" "k < unat n" "j = of_nat k" by auto
      moreover have "k < 2 ^ 64" using \<open>k < unat n\<close> unat_lt_64 [of n] by simp
      ultimately show ?thesis by (simp add: word_le_nat_alt unat_of_nat_small)
    qed
    ultimately show ?thesis using count_upto_split [OF ij(1)] by metis
  qed
  then show "fold (copy_byte dest src) (count_upto n) m x = moved m dest src n x"
    by (subst copy_fold_apply) (auto simp: moved_def in_region_less)
qed

lemma backward_copy:
  assumes "dest = src \<or> n \<le> src - dest"
  shows "fold (copy_byte dest src) (rev (count_upto n)) m = moved m dest src n"
proof
  fix x
  have "\<exists>xs ys. rev (count_upto n) = xs @ i # ys \<and> j \<notin> set ys"
    if ij: "i < n" "j < n" "dest + i = src + j" for i j
  proof -
    have "i \<le> j"
    proof (rule ccontr)
      assume "\<not> i \<le> j"
      then have "src - dest = i - j" and "i - j \<le> i" and "i \<noteq> j"
        using ij(3) by (auto simp: algebra_simps word_le_nat_alt unat_sub_if')
      with assms ij(1,3) show False by (auto simp: not_less)
    qed
    moreover have "rev (count_upto n) =
        rev (map of_nat [Suc (unat i)..<unat n]) @ i # rev (count_upto i)"
      using count_upto_split [OF ij(1)] by simp
    ultimately show ?thesis
      by (metis in_count_upto set_rev leD)
  qed
  then show "fold (copy_byte dest src) (rev (count_upto n)) m x = moved m dest src n x"
    by (subst copy_fold_apply) (auto simp: moved_def in_region_less)
qed

lemma memcpy_moved:
  assumes "region_disjoint dest (unat n) src (unat n)"
  shows "memcpy m dest src n = moved m dest src n"
proof -
  have "n \<le> dest - src" if "n \<noteq> 0"
  proof (rule ccontr)
    assume "\<not> n \<le> dest - src"
    then have "in_region src (unat n) dest" by (simp add: in_region_less)
    moreover have "in_region dest (unat n) dest"
      using that by (simp add: in_region_def unat_gt_0)
    ultimately show False using assms by (auto simp: region_disjoint_def)
  qed
  then show ?thesis
    by (cases "n = 0") (simp_all add: memcpy_def forward_copy moved_def)
qed

lemma moved_outside: "\<not> in_region dest (unat n) x \<Longrightarrow> moved m dest src n x = m x"
  by (simp add: moved_def)

lemma moved_inside: "i < n \<Longrightarrow> moved m dest src n (dest + i) = m (src + i)"
  by (simp add: moved_def in_region_less)

section \<open>Contracts of the C library\<close>

text \<open>C21: \<open>memmove\<close> moves the \<open>n\<close> bytes at \<open>src\<close> to \<open>dest\<close> as if through a copy, and
  changes nothing else, for every overlap of the two regions (neither of which wraps around the
  end of the address space).\<close>

theorem memmove_moves:
  assumes "unat src + unat n \<le> 2 ^ 64" and "unat dest + unat n \<le> 2 ^ 64"
  shows "memmove m dest src n = moved m dest src n"
proof -
  consider (fwd) "dest < src" | (bwd) "src < dest" | (eq) "src = dest" by force
  then show ?thesis
  proof cases
    case fwd
    then have "n \<le> dest - src"
      using assms(1) by (simp add: word_le_nat_alt word_less_nat_alt unat_sub_if')
    with fwd show ?thesis by (simp add: memmove_def forward_copy)
  next
    case bwd
    then have "n \<le> src - dest"
      using assms(2) by (simp add: word_le_nat_alt word_less_nat_alt unat_sub_if')
    with bwd show ?thesis by (auto simp add: memmove_def backward_copy)
  next
    case eq
    then show ?thesis by (simp add: memmove_def moved_def fun_eq_iff)
  qed
qed

theorem memmove_moves_witness:
  "memmove (\<lambda>x. ucast x) 0x1002 0x1000 8 = moved (\<lambda>x. ucast x) 0x1002 0x1000 8 \<and>
   memmove (\<lambda>x. ucast x) 0x1002 0x1000 8 0x1009 = 7"
  using memmove_moves [where src = "0x1000" and n = 8 and dest = "0x1002" and m = "\<lambda>x. ucast x"] by (simp add: moved_def in_region_def)

definition bytes_at :: "mem \<Rightarrow> u64 \<Rightarrow> nat \<Rightarrow> u8 list" where
  "bytes_at m a n = map (\<lambda>i. m (a + of_nat i)) [0..<n]"

lemma length_bytes_at [simp]: "length (bytes_at m a n) = n"
  by (simp add: bytes_at_def)

lemma memcmp_loop_lexord:
  "memcmp_loop m s1 s2 is =
     (if map (\<lambda>i. m (s1 + i)) is = map (\<lambda>i. m (s2 + i)) is then 0
      else if ord_class.lexordp (map (\<lambda>i. m (s1 + i)) is) (map (\<lambda>i. m (s2 + i)) is) then -1 else 1)"
  by (induction "is") auto

text \<open>\<open>memcmp\<close> compares the two byte strings: it returns 0 exactly when they are equal,
  -1 when the first is lexicographically smaller as unsigned bytes, and 1 otherwise.\<close>

theorem memcmp_lexicographic:
  "memcmp m s1 s2 n =
     (let xs = bytes_at m s1 (unat n); ys = bytes_at m s2 (unat n)
      in if xs = ys then 0 else if ord_class.lexordp xs ys then -1 else 1)"
  by (simp add: memcmp_def memcmp_loop_lexord count_upto_def bytes_at_def comp_def)

text \<open>\<open>cstring m a n\<close>: a zero-terminated string of \<open>n\<close> bytes starts at \<open>a\<close>.\<close>

definition cstring :: "mem \<Rightarrow> u64 \<Rightarrow> nat \<Rightarrow> bool" where
  "cstring m a n \<longleftrightarrow> (\<forall>i\<in>{0..<n}. m (a + of_nat i) \<noteq> 0) \<and> m (a + of_nat n) = 0"

lemma cstring_Suc: "cstring m a (Suc n) \<longleftrightarrow> m a \<noteq> 0 \<and> cstring m (a + 1) n"
proof -
  have "(\<forall>i\<in>{0..<Suc n}. m (a + of_nat i) \<noteq> 0) \<longleftrightarrow>
        m a \<noteq> 0 \<and> (\<forall>i\<in>{0..<n}. m (a + 1 + of_nat i) \<noteq> 0)"
    by (simp only: image_Suc_atLeastLessThan [symmetric] atLeast0_lessThan_Suc_eq_insert_0
          ball_simps image_iff) (simp add: add.assoc)
  then show ?thesis by (auto simp: cstring_def add.assoc)
qed

lemma strlen_loop_cstring: "cstring m a n \<Longrightarrow> strlen_loop m a i = Some (i + of_nat n)"
proof (induction n arbitrary: a i)
  case 0
  then show ?case by (subst strlen_loop.simps) (simp add: cstring_def)
next
  case (Suc n)
  then show ?case by (subst strlen_loop.simps) (simp add: cstring_Suc add.assoc)
qed

text \<open>\<open>strlen\<close> returns on every zero-terminated string, with its length modulo \<open>2^32\<close>.\<close>

theorem strlen_returns_length: "cstring m a n \<Longrightarrow> strlen m a = Some (of_nat n)"
  by (simp add: strlen_def strlen_loop_cstring)

theorem strlen_returns_length_witness:
  "strlen ((\<lambda>_. 7)(0x2003 := 0)) 0x2000 = Some 3"
proof -
  have "{0..<3::nat} = {0, 1, 2}" by auto
  then show ?thesis
    using strlen_returns_length [where m = "(\<lambda>_. 7)(0x2003 := 0)" and a = "0x2000" and n = 3]
    by (simp add: cstring_def)
qed

end
