(* ===== verification/Kbitmap.thy ===== *)
theory Kbitmap
  imports Kmem
begin

text \<open>
  \<^verbatim>\<open>kernel/lib/bitmap.cpp\<close>: the bitmap that the page frame allocator keeps one bit per page
  in. The buffer lies in the byte memory; bit 0 of the map is the most significant bit of its
  first byte.
\<close>

section \<open>Definitions\<close>

record Bitmap =
  Size :: u64
  Buffer :: u64

definition Bitmap_get :: "Bitmap \<Rightarrow> mem \<Rightarrow> u64 \<Rightarrow> bool" where
  "Bitmap_get b m offset =
     (if offset > Size b * 8 then False
      else let temp = m (Buffer b + offset div 8);
               temp = push_bit (unat (offset mod 8)) temp;
               temp = drop_bit 7 temp
           in temp \<noteq> 0)"

definition Bitmap_set :: "Bitmap \<Rightarrow> mem \<Rightarrow> u64 \<Rightarrow> bool \<Rightarrow> mem \<times> bool" where
  "Bitmap_set b m offset v =
     (if offset > Size b * 8 then (m, False)
      else let off2 = Buffer b + offset div 8;
               bitIndexer = drop_bit (unat (offset mod 8)) 0b10000000;
               m = m(off2 := m off2 AND NOT bitIndexer);
               m = (if v then m(off2 := m off2 OR bitIndexer) else m)
           in (m, True))"

section \<open>The bits that get and set address\<close>

abbreviation bit_pos :: "u64 \<Rightarrow> nat" where
  "bit_pos offset \<equiv> 7 - unat (offset mod 8)"

lemma unat_mod_8 [simp]: "unat (offset mod 8) < 8" for offset :: u64
  by (simp add: unat_mod)

lemma top_bit_shift: "k < 8 \<Longrightarrow> drop_bit 7 (push_bit k (t::u8)) \<noteq> 0 \<longleftrightarrow> bit t (7 - k)"
proof -
  assume "k < 8"
  have "drop_bit 7 x = of_bool (bit x 7)" for x :: u8
  proof (rule bit_word_eqI)
    fix n assume "n < LENGTH(8)"
    show "bit (drop_bit 7 x) n = bit (of_bool (bit x 7) :: u8) n"
      using bit_imp_le_length [of x "7 + n"] by (cases "n = 0") (auto simp: bit_drop_bit_eq bit_simps)
  qed
  with \<open>k < 8\<close> show ?thesis by (simp add: bit_push_bit_iff)
qed

lemma Bitmap_get_bit:
  "offset \<le> Size b * 8 \<Longrightarrow>
   Bitmap_get b m offset \<longleftrightarrow> bit (m (Buffer b + offset div 8)) (bit_pos offset)"
  by (simp add: Bitmap_get_def Let_def top_bit_shift not_less [symmetric])

lemma bit_indexer:
  "k < 8 \<Longrightarrow> bit (drop_bit k (0b10000000 :: u8)) n \<longleftrightarrow> n = 7 - k"
proof -
  assume "k < 8"
  have "(0b10000000 :: u8) = 2 ^ 7" by simp
  then have "bit (0b10000000 :: u8) j \<longleftrightarrow> possible_bit TYPE(u8) j \<and> j = 7" for j
    by (simp only: bit_exp_iff)
  then have "bit (drop_bit k (0b10000000 :: u8)) n \<longleftrightarrow> possible_bit TYPE(u8) (k + n) \<and> k + n = 7"
    by (simp only: bit_drop_bit_eq comp_def)
  also have "\<dots> \<longleftrightarrow> n = 7 - k" using \<open>k < 8\<close> by auto
  finally show ?thesis .
qed

lemma Bitmap_set_outside: "offset > Size b * 8 \<Longrightarrow> Bitmap_set b m offset v = (m, False)"
  by (simp add: Bitmap_set_def)

lemma Bitmap_set_accepts: "offset \<le> Size b * 8 \<Longrightarrow> snd (Bitmap_set b m offset v)"
  by (simp add: Bitmap_set_def Let_def)

lemma Bitmap_set_frame:
  "x \<noteq> Buffer b + offset div 8 \<Longrightarrow> fst (Bitmap_set b m offset v) x = m x"
  by (simp add: Bitmap_set_def Let_def)

lemma Bitmap_set_byte:
  assumes "offset \<le> Size b * 8"
  shows "bit (fst (Bitmap_set b m offset v) (Buffer b + offset div 8)) n \<longleftrightarrow>
         (if n = bit_pos offset then v else bit (m (Buffer b + offset div 8)) n)"
proof -
  have "bit (drop_bit (unat (offset mod 8)) (0b10000000 :: u8)) n \<longleftrightarrow> n = bit_pos offset"
    by (rule bit_indexer) simp
  with assms show ?thesis
    by (auto simp: Bitmap_set_def Let_def bit_simps dest: bit_imp_le_length)
qed

lemma bit_pos_inj:
  fixes offset offset' :: u64
  assumes "offset div 8 = offset' div 8" and "bit_pos offset = bit_pos offset'"
  shows "offset = offset'"
proof -
  have "unat (offset mod 8) = unat (offset' mod 8)"
    using assms(2) unat_mod_8 [of offset] unat_mod_8 [of offset'] by linarith
  then have "offset mod 8 = offset' mod 8" by (simp add: word_eq_unat)
  with assms(1) show ?thesis by (metis div_mult_mod_eq)
qed

lemma Bitmap_get_set:
  assumes "i \<le> Size b * 8" and "j \<le> Size b * 8"
  shows "Bitmap_get b (fst (Bitmap_set b m i v)) j = (if j = i then v else Bitmap_get b m j)"
proof (cases "i div 8 = j div 8")
  case True
  with assms show ?thesis
    using bit_pos_inj [of i j] Bitmap_set_byte [OF assms(1)]
    by (auto simp: Bitmap_get_bit)
next
  case False
  with assms show ?thesis
    by (auto simp: Bitmap_get_bit Bitmap_set_frame)
qed

lemma Bitmap_get_set_any:
  "i \<le> Size b * 8 \<Longrightarrow>
   Bitmap_get b (fst (Bitmap_set b m i v)) j = (if j = i then v else Bitmap_get b m j)"
  by (cases "j \<le> Size b * 8") (simp_all add: Bitmap_get_set, auto simp: Bitmap_get_def)

section \<open>Interface\<close>

text \<open>What a client of a bit map relies on, and what follows for runs of updates.\<close>

locale bit_map =
  fixes get :: "'s \<Rightarrow> 'k \<Rightarrow> bool"
    and put :: "'s \<Rightarrow> 'k \<Rightarrow> bool \<Rightarrow> 's"
    and valid :: "'k \<Rightarrow> bool"
  assumes get_put: "valid i \<Longrightarrow> valid j \<Longrightarrow> get (put s i v) j = (if j = i then v else get s j)"
begin

lemma get_fold_put:
  "\<forall>i\<in>set is. valid i \<Longrightarrow> valid j \<Longrightarrow>
   get (fold (\<lambda>i s. put s i v) is s) j = (if j \<in> set is then v else get s j)"
  by (induction "is" arbitrary: s) (auto simp: get_put)

lemma clear_put_True:
  "valid i \<Longrightarrow> {j. valid j \<and> \<not> get (put s i True) j} = {j. valid j \<and> \<not> get s j} - {i}"
  by (auto simp: get_put split: if_splits)

lemma clear_put_False:
  "valid i \<Longrightarrow> {j. valid j \<and> \<not> get (put s i False) j} = insert i {j. valid j \<and> \<not> get s j}"
  by (auto simp: get_put split: if_splits)

end

interpretation bm: bit_map "Bitmap_get b" "\<lambda>m i v. fst (Bitmap_set b m i v)" "\<lambda>i. i \<le> Size b * 8"
  for b
  by unfold_locales (rule Bitmap_get_set)

section \<open>Properties\<close>

text \<open>Within the map, \<open>set\<close> reports success, makes \<open>get\<close> return the value at that bit,
  leaves every other bit as it was and writes no byte but the one that holds the bit; beyond the
  bound it is refused and changes nothing.\<close>

theorem Bitmap_get_after_set:
  "if i \<le> Size b * 8
   then snd (Bitmap_set b m i v) \<and>
        (\<forall>j. Bitmap_get b (fst (Bitmap_set b m i v)) j = (if j = i then v else Bitmap_get b m j)) \<and>
        (\<forall>x. x = Buffer b + i div 8 \<or> fst (Bitmap_set b m i v) x = m x)
   else Bitmap_set b m i v = (m, False) \<and> \<not> Bitmap_get b m i"
proof (cases "i \<le> Size b * 8")
  case True
  have "x = Buffer b + i div 8 \<or> fst (Bitmap_set b m i v) x = m x" for x
    using Bitmap_set_frame by blast
  with True show ?thesis by (simp add: Bitmap_set_accepts Bitmap_get_set_any)
next
  case False
  then show ?thesis by (simp add: Bitmap_set_outside Bitmap_get_def)
qed

text \<open>The bound is off by one. Offset \<open>Size * 8\<close> addresses no bit of the map, yet \<open>set\<close>
  accepts it and writes the top bit of the byte that follows the buffer.\<close>

theorem Bitmap_set_past_end:
  assumes "unat (Size b) * 8 < 2 ^ 64"
  shows "snd (Bitmap_set b m (Size b * 8) v) \<and>
         bit (fst (Bitmap_set b m (Size b * 8) v) (Buffer b + Size b)) 7 = v"
proof -
  have u: "unat (Size b * 8) = unat (Size b) * 8"
    using assms by (simp add: unat_word_ariths)
  then have "Size b * 8 div 8 = Size b" and "bit_pos (Size b * 8) = 7"
    by (simp_all add: word_eq_unat unat_div unat_mod)
  then show ?thesis
    using Bitmap_set_byte [of "Size b * 8" b m v 7] by (simp add: Bitmap_set_accepts)
qed

theorem Bitmap_set_past_end_witness:
  "bit (fst (Bitmap_set \<lparr>Size = 2, Buffer = 0x1000\<rparr> (\<lambda>_. 0) 16 True) 0x1002) 7"
  using Bitmap_set_past_end [of "\<lparr>Size = 2, Buffer = 0x1000\<rparr>" "\<lambda>_. 0" True] by simp

end
