(* ===== verification/Memutils.thy ===== *)
theory Memutils
  imports Prelude
begin

text \<open>
  \<^verbatim>\<open>kernel/mem/memutils.cpp\<close>: the memory map that the boot loader hands over, its size, and
  the direct map between physical and virtual addresses.
\<close>

section \<open>Definitions\<close>

record limine_memmap_entry =
  entry_base :: u64
  entry_length :: u64
  entry_type :: u64

text \<open>
  The code indexes the block of entries that \<open>*memmap.entries\<close> points to. The list is that block;
  its length is \<open>entry_count\<close>.
\<close>

type_synonym memmap = "limine_memmap_entry list"

abbreviation (input) LIMINE_MEMMAP_USABLE :: u64 where "LIMINE_MEMMAP_USABLE \<equiv> 0"

abbreviation (input) LIMINE_MEMMAP_KERNEL_AND_MODULES :: u64 where "LIMINE_MEMMAP_KERNEL_AND_MODULES \<equiv> 6"

definition getMemoryMappingName :: "u64 \<Rightarrow> string" where
  "getMemoryMappingName t =
     (if t = 0 then ''Usable Memory''
      else if t = 1 then ''Reserved Memory''
      else if t = 2 then ''ACPI Reclaimable''
      else if t = 3 then ''ACPI NVS''
      else if t = 4 then ''[!] Bad Memory''
      else if t = 5 then ''Bootloader Reclaimable''
      else if t = 6 then ''Kernel''
      else if t = 7 then ''Framebuffer''
      else ''Unknown'')"

definition getMemorySize :: "memmap \<Rightarrow> u64" where
  "getMemorySize mm = fold (\<lambda>entry size. size + entry_length entry) mm 0"

definition entry_end :: "limine_memmap_entry \<Rightarrow> u64" where
  "entry_end entry = entry_base entry + entry_length entry"

definition getMemoryArealSize :: "memmap \<Rightarrow> u64" where
  "getMemoryArealSize mm =
     fold (\<lambda>entry size. if entry_end entry > size then entry_end entry else size) mm 0"

definition toPhys :: "u64 \<Rightarrow> u64 \<Rightarrow> u64" where
  "toPhys hhdmOffset virt = virt - hhdmOffset"

definition toVirt :: "u64 \<Rightarrow> u64 \<Rightarrow> u64" where
  "toVirt hhdmOffset phys = phys + hhdmOffset"

section \<open>Lemmas\<close>

lemma toPhys_toVirt [simp]: "toPhys h (toVirt h p) = p"
  by (simp add: toPhys_def toVirt_def)

lemma toVirt_toPhys [simp]: "toVirt h (toPhys h v) = v"
  by (simp add: toPhys_def toVirt_def)

lemma areal_fold:
  "fold (\<lambda>e size. if entry_end e > size then entry_end e else size) mm a = Max (insert a (entry_end ` set mm))"
proof (induction mm arbitrary: a)
  case (Cons e mm)
  have "(if entry_end e > a then entry_end e else a) = max a (entry_end e)"
    by (auto simp: max_def)
  then have "fold (\<lambda>e size. if entry_end e > size then entry_end e else size) (e # mm) a =
        Max (insert (max a (entry_end e)) (entry_end ` set mm))"
    by (simp add: Cons.IH)
  also have "\<dots> = Max (insert a (insert (entry_end e) (entry_end ` set mm)))"
    by (cases "mm = []") (simp_all add: max.assoc)
  finally show ?case by simp
qed simp

lemma getMemoryArealSize_Max: "getMemoryArealSize mm = Max (insert 0 (entry_end ` set mm))"
  by (simp add: getMemoryArealSize_def areal_fold)

lemma getMemoryArealSize_ge: "e \<in> set mm \<Longrightarrow> entry_end e \<le> getMemoryArealSize mm"
  by (simp add: getMemoryArealSize_Max)

lemma getMemoryArealSize_le: "getMemoryArealSize mm \<le> b \<longleftrightarrow> (\<forall>e\<in>set mm. entry_end e \<le> b)"
  by (auto simp: getMemoryArealSize_Max)

end
