(* ===== verification/Pageframes.thy ===== *)
theory Pageframes
  imports Kbitmap Memutils
begin

text \<open>
  \<^verbatim>\<open>kernel/mem/pageframeallocator.cpp\<close>: the page frame allocator, one bit per 4 KiB page in a
  bitmap that lies in the memory it manages, a search hint, and byte counters. The lemmas describe
  every operation by its effect on the set of free pages.
\<close>

section \<open>State\<close>

text \<open>
  The globals of the file, with the memory, the console trace and the two offsets of
  \<^verbatim>\<open>memutils.cpp\<close>. \<open>end\<close> and \<open>__memmap\<close> are called \<open>memEnd\<close> and \<open>memmap_info\<close>. Later
  components extend the record.
\<close>

record pfa =
  ram :: mem
  klog :: "kcall list"
  mem_hhdmOffset :: u64
  mem_kVirtOffset :: u64
  mem_freeMemory :: u64
  mem_usedMemory :: u64
  bitmapIdx :: u64
  memEnd :: u64
  mem_pfaBitmap :: Bitmap
  memmap_info :: memmap
  oomPanics :: bool

section \<open>Operations\<close>

definition mem_pageframeallocator_initBitmap ::
    "u64 \<Rightarrow> u64 \<Rightarrow> 'z pfa_scheme \<Rightarrow> 'z pfa_scheme res" where
  "mem_pageframeallocator_initBitmap bitmapSize addr s =
     (let s = s\<lparr>mem_pfaBitmap := \<lparr>Size = bitmapSize, Buffer = addr\<rparr>\<rparr> in
      bind_r (for_each
               (\<lambda>i s. if i = INT_MAX then Inl (Undefined ''signed overflow of i'')
                      else Inr (s\<lparr>ram := (ram s)(Buffer (mem_pfaBitmap s) + of_nat i := 0)\<rparr>))
               [0..<unat bitmapSize] s)
        (\<lambda>s. Inr (s\<lparr>bitmapIdx := 0\<rparr>)))"

definition mem_pageframeallocator_lockPage :: "u64 \<Rightarrow> 'z pfa_scheme \<Rightarrow> 'z pfa_scheme" where
  "mem_pageframeallocator_lockPage addr s =
     (let index = addr div 4096 in
      if Bitmap_get (mem_pfaBitmap s) (ram s) index then s
      else case Bitmap_set (mem_pfaBitmap s) (ram s) index True of
        (m, True) \<Rightarrow> s\<lparr>ram := m, mem_freeMemory := mem_freeMemory s - 4096,
                       mem_usedMemory := mem_usedMemory s + 4096\<rparr>
      | (m, False) \<Rightarrow> s\<lparr>ram := m, klog := log_serial
          ''WARN Failed to lock page at address %x (idx: %x, bitmap size: %x)\<newline>''
          [Num addr, Num index, Num (Size (mem_pfaBitmap s))] (klog s)\<rparr>)"

definition mem_pageframeallocator_lockPageNonAvailable ::
    "u64 \<Rightarrow> 'z pfa_scheme \<Rightarrow> 'z pfa_scheme" where
  "mem_pageframeallocator_lockPageNonAvailable addr s =
     (let index = addr div 4096 in
      if Bitmap_get (mem_pfaBitmap s) (ram s) index then s
      else case Bitmap_set (mem_pfaBitmap s) (ram s) index True of
        (m, True) \<Rightarrow> s\<lparr>ram := m\<rparr>
      | (m, False) \<Rightarrow> s\<lparr>ram := m, klog := log_serial
          ''WARN Failed to lock page at address %x (idx: %x, bitmap size: %x)\<newline>''
          [Num addr, Num index, Num (Size (mem_pfaBitmap s))] (klog s)\<rparr>)"

definition mem_pageframeallocator_freePage :: "u64 \<Rightarrow> 'z pfa_scheme \<Rightarrow> 'z pfa_scheme" where
  "mem_pageframeallocator_freePage addr s =
     (let index = addr div 4096 in
      if \<not> Bitmap_get (mem_pfaBitmap s) (ram s) index then s
      else case Bitmap_set (mem_pfaBitmap s) (ram s) index False of
        (m, True) \<Rightarrow> s\<lparr>ram := m, mem_freeMemory := mem_freeMemory s + 4096,
                       mem_usedMemory := mem_usedMemory s - 4096,
                       bitmapIdx := (if bitmapIdx s > index then index else bitmapIdx s)\<rparr>
      | (m, False) \<Rightarrow> s\<lparr>ram := m, klog := log_serial
          ''WARN Failed to free page at address %x (idx: %x, bitmap size: %x)\<newline>''
          [Num addr, Num index, Num (Size (mem_pfaBitmap s))] (klog s)\<rparr>)"

text \<open>The loop of \<open>requestPage\<close>; the counter is the global search hint \<open>bitmapIdx\<close>.\<close>

function requestPage_loop :: "'z pfa_scheme \<Rightarrow> (u64 \<times> 'z pfa_scheme) res" where
  "requestPage_loop s =
     (if bitmapIdx s < Size (mem_pfaBitmap s) * 8 then
        if Bitmap_get (mem_pfaBitmap s) (ram s) (bitmapIdx s)
        then requestPage_loop (s\<lparr>bitmapIdx := bitmapIdx s + 1\<rparr>)
        else let s = mem_pageframeallocator_lockPage (bitmapIdx s * 4096) s
             in Inr (bitmapIdx s * 4096, s)
      else Inl (Panic ''Out of memory''))"
  by pat_completeness auto
termination
proof (relation "measure (\<lambda>s. unat (Size (mem_pfaBitmap s) * 8) - unat (bitmapIdx s))")
  fix s :: "'z pfa_scheme"
  assume less: "bitmapIdx s < Size (mem_pfaBitmap s) * 8"
  then have "unat (bitmapIdx s + 1) = unat (bitmapIdx s) + 1"
    by (simp add: unat_inc)
  with less show "(s\<lparr>bitmapIdx := bitmapIdx s + 1\<rparr>, s)
      \<in> measure (\<lambda>s. unat (Size (mem_pfaBitmap s) * 8) - unat (bitmapIdx s))"
    by (simp add: word_less_nat_alt)
qed simp

declare requestPage_loop.simps [simp del]

definition mem_pageframeallocator_requestPage ::
    "'z pfa_scheme \<Rightarrow> (u64 \<times> 'z pfa_scheme) res" where
  "mem_pageframeallocator_requestPage s =
     (if oomPanics s \<and> mem_freeMemory s < 16384 then Inl (Panic ''Out of memory'')
      else requestPage_loop s)"

text \<open>\<open>freePages\<close> counts with a \<open>u64\<close>, the two lock loops with an \<open>int\<close> whose product
  \<open>i * 4096\<close> is computed in \<open>int\<close>.\<close>

definition mem_pageframeallocator_freePages ::
    "u64 \<Rightarrow> u64 \<Rightarrow> 'z pfa_scheme \<Rightarrow> 'z pfa_scheme" where
  "mem_pageframeallocator_freePages addr pageCount s =
     fold (\<lambda>i. mem_pageframeallocator_freePage (addr + i * 4096)) (count_upto pageCount) s"

definition mem_pageframeallocator_lockPages ::
    "u64 \<Rightarrow> u64 \<Rightarrow> 'z pfa_scheme \<Rightarrow> 'z pfa_scheme res" where
  "mem_pageframeallocator_lockPages addr pageCount s =
     for_each (\<lambda>i s. if i * 4096 > INT_MAX then Inl (Undefined ''signed overflow of i * 4096'')
                     else Inr (mem_pageframeallocator_lockPage (addr + of_nat (i * 4096)) s))
       [0..<unat pageCount] s"

definition mem_pageframeallocator_lockPagesNonAvailable ::
    "u64 \<Rightarrow> u64 \<Rightarrow> 'z pfa_scheme \<Rightarrow> 'z pfa_scheme res" where
  "mem_pageframeallocator_lockPagesNonAvailable addr pageCount s =
     for_each (\<lambda>i s. if i * 4096 > INT_MAX then Inl (Undefined ''signed overflow of i * 4096'')
                     else Inr (mem_pageframeallocator_lockPageNonAvailable (addr + of_nat (i * 4096)) s))
       [0..<unat pageCount] s"

definition mem_getFreeRAM :: "'z pfa_scheme \<Rightarrow> u64" where
  "mem_getFreeRAM s = mem_freeMemory s"

definition mem_getUsedRAM :: "'z pfa_scheme \<Rightarrow> u64" where
  "mem_getUsedRAM s = mem_usedMemory s"

definition mem_getTotalRAM :: "'z pfa_scheme \<Rightarrow> u64" where
  "mem_getTotalRAM s = mem_freeMemory s + mem_usedMemory s"

definition mem_getMemoryMapSize :: "'z pfa_scheme \<Rightarrow> u64" where
  "mem_getMemoryMapSize s = memEnd s"

primrec memmap_name_loop :: "u64 \<Rightarrow> memmap \<Rightarrow> string" where
  "memmap_name_loop addr [] = ''No mapping found''"
| "memmap_name_loop addr (entry # mm) =
     (if addr > entry_base entry \<and> addr < entry_end entry
      then getMemoryMappingName (entry_type entry)
      else memmap_name_loop addr mm)"

definition mem_getMemoryMapForAddress :: "u64 \<Rightarrow> 'z pfa_scheme \<Rightarrow> string" where
  "mem_getMemoryMapForAddress addr s = memmap_name_loop addr (memmap_info s)"

text \<open>The first loop of \<open>init\<close>: largest free segment, its size, and the end of the map.\<close>

definition scan_entry :: "limine_memmap_entry \<Rightarrow> u64 \<times> u64 \<times> u64 \<Rightarrow> u64 \<times> u64 \<times> u64" where
  "scan_entry entry = (\<lambda>(seg, sz, e).
     (let (seg, sz) = (if entry_type entry = 0 \<and> entry_length entry > sz
                       then (entry_base entry, entry_length entry) else (seg, sz));
          e = (if entry_end entry > e then entry_end entry else e)
      in (seg, sz, e)))"

definition free_usable :: "limine_memmap_entry \<Rightarrow> 'z pfa_scheme \<Rightarrow> 'z pfa_scheme" where
  "free_usable entry s =
     (if entry_type entry = 0 then
        let entrySizeInPages = entry_length entry div 4096;
            s = s\<lparr>klog := log_serial ''%d '' [Num (entry_base entry)] (klog s)\<rparr>
        in mem_pageframeallocator_freePages (entry_base entry) entrySizeInPages s
      else s)"

definition mem_pageframeallocator_init :: "memmap \<Rightarrow> 'z pfa_scheme \<Rightarrow> 'z pfa_scheme res" where
  "mem_pageframeallocator_init mm s =
     (let s = s\<lparr>memmap_info := mm\<rparr>;
          (largestFreeSegment, largestFreeSegmentSize, e) = fold scan_entry mm (0, 0, memEnd s);
          s = s\<lparr>memEnd := e\<rparr>
      in if largestFreeSegment = 0 then Inl (Panic ''No free memory found!'')
      else let
        s = s\<lparr>klog := log_both ''Largest Free Segment: 0x%x (virt: 0x%x) (with size 0x%x)\<newline>''
              [Num largestFreeSegment, Num (toVirt (mem_hhdmOffset s) largestFreeSegment),
               Num largestFreeSegmentSize] (klog s)\<rparr>;
        totalMemorySize = getMemoryArealSize mm;
        totalMemorySizeInPages = totalMemorySize div 4096;
        bitmapSize = totalMemorySize div 4096 div 8 + 1;
        bitmapSizeInPages = bitmapSize div 4096 + 1;
        s = s\<lparr>klog := log_both ''PageFrameAllocator Bitmap will need %d bytes of RAM or %d pages\<newline>''
              [Num bitmapSize, Num bitmapSizeInPages] (klog s)\<rparr>;
        s = s\<lparr>klog := log_both ''Total memory space is %d bytes in size, or %d pages\<newline>''
              [Num totalMemorySize, Num totalMemorySizeInPages] (klog s)\<rparr>
      in bind_r (mem_pageframeallocator_initBitmap bitmapSize
                   (mem_hhdmOffset s + largestFreeSegment) s) (\<lambda>s.
         bind_r (mem_pageframeallocator_lockPages 0 totalMemorySizeInPages s) (\<lambda>s.
         let s = fold free_usable mm s;
             s = s\<lparr>mem_usedMemory := 0, mem_freeMemory := largestFreeSegmentSize,
                   oomPanics := True\<rparr>
         in bind_r (mem_pageframeallocator_lockPages largestFreeSegment bitmapSizeInPages s) (\<lambda>s.
            Inr (s\<lparr>klog := log_both ''Initiliazed page frame allocator!\<newline>'' [] (klog s)\<rparr>)))))"

section \<open>Free pages and the invariant\<close>

abbreviation page_bit :: "'z pfa_scheme \<Rightarrow> u64 \<Rightarrow> bool" where
  "page_bit s \<equiv> Bitmap_get (mem_pfaBitmap s) (ram s)"

abbreviation page_count :: "'z pfa_scheme \<Rightarrow> u64" where
  "page_count s \<equiv> Size (mem_pfaBitmap s) * 8"

definition free_pages :: "'z pfa_scheme \<Rightarrow> u64 set" where
  "free_pages s = {i. i < page_count s \<and> \<not> page_bit s i}"

text \<open>
  The map is small enough for page addresses to be 64-bit numbers, and no page below the search
  hint is free.
\<close>

definition pfa_inv :: "'z pfa_scheme \<Rightarrow> bool" where
  "pfa_inv s \<longleftrightarrow> unat (Size (mem_pfaBitmap s)) * 8 \<le> 2 ^ 52 \<and> bitmapIdx s \<le> page_count s \<and>
     (\<forall>i<bitmapIdx s. page_bit s i)"

lemma finite_free_pages [simp]: "finite (free_pages s)"
  by simp

lemma free_pages_lt: "i \<in> free_pages s \<Longrightarrow> i < page_count s"
  by (simp add: free_pages_def)

lemma pfa_inv_page_count:
  assumes "pfa_inv s"
  shows "unat (page_count s) = unat (Size (mem_pfaBitmap s)) * 8"
  using assms unat_mult_no_wrap [of "Size (mem_pfaBitmap s)" 8] by (simp add: pfa_inv_def)

lemma page_index_small:
  assumes "pfa_inv s" and "i < page_count s"
  shows "unat i < 2 ^ 52"
  using assms pfa_inv_page_count [OF assms(1)] by (simp add: pfa_inv_def word_less_nat_alt)

lemma page_addr_index: "unat i < 2 ^ 52 \<Longrightarrow> i * 4096 div 4096 = i" for i :: u64
proof -
  assume "unat i < 2 ^ 52"
  then have "unat (i * 4096) = unat i * 4096"
    using unat_mult_no_wrap [of i 4096] by simp
  then show ?thesis by (intro word_eqI_unat) (simp add: unat_div)
qed

lemma managed_index: "pfa_inv s \<Longrightarrow> i < page_count s \<Longrightarrow> i * 4096 div 4096 = i"
  by (rule page_addr_index [OF page_index_small])

lemma pfa_inv_free_page:
  "pfa_inv s \<Longrightarrow> i \<in> free_pages s \<Longrightarrow> i * 4096 div 4096 = i"
  using managed_index [of s i] by (simp add: free_pages_def)

lemma byte_index_lt:
  fixes n i :: u64
  assumes "unat (n * 8) = unat n * 8" and "i < n * 8"
  shows "unat (i div 8) < unat n"
  using assms by (simp add: word_less_nat_alt unat_div)

lemma bitmap_write_frame:
  assumes "pfa_inv s" and "\<not> in_region (Buffer (mem_pfaBitmap s)) (Suc (unat (Size (mem_pfaBitmap s)))) x"
  shows "fst (Bitmap_set (mem_pfaBitmap s) m i v) x = m x"
proof (cases "i \<le> page_count s")
  case True
  then have "unat (i div 8) < Suc (unat (Size (mem_pfaBitmap s)))"
    using pfa_inv_page_count [OF assms(1)] by (simp add: word_le_nat_alt unat_div)
  with assms(2) have "x \<noteq> Buffer (mem_pfaBitmap s) + i div 8"
    by (auto simp: in_region_def)
  then show ?thesis by (rule Bitmap_set_frame)
qed (simp add: Bitmap_set_outside)

subsection \<open>Locking a page\<close>

lemma lockPage_fields [simp]:
  "mem_pfaBitmap (mem_pageframeallocator_lockPage a s) = mem_pfaBitmap s"
  "bitmapIdx (mem_pageframeallocator_lockPage a s) = bitmapIdx s"
  "oomPanics (mem_pageframeallocator_lockPage a s) = oomPanics s"
  "mem_hhdmOffset (mem_pageframeallocator_lockPage a s) = mem_hhdmOffset s"
  "pfa.more (mem_pageframeallocator_lockPage a s) = pfa.more s"
  by (simp_all add: mem_pageframeallocator_lockPage_def Let_def split: prod.split bool.split)

lemma lockPage_ram:
  "ram (mem_pageframeallocator_lockPage a s) =
     (if page_bit s (a div 4096) then ram s
      else fst (Bitmap_set (mem_pfaBitmap s) (ram s) (a div 4096) True))"
  by (simp add: mem_pageframeallocator_lockPage_def Let_def split: prod.split bool.split)

lemma lockPage_bit:
  "Bitmap_get (mem_pfaBitmap s) (ram (mem_pageframeallocator_lockPage a s)) j \<longleftrightarrow>
     page_bit s j \<or> (j = a div 4096 \<and> j \<le> page_count s)"
proof (cases "a div 4096 \<le> page_count s")
  case True
  then show ?thesis by (auto simp: lockPage_ram Bitmap_get_set_any)
next
  case False
  then show ?thesis by (auto simp: lockPage_ram Bitmap_set_outside)
qed

lemma lockPage_free_pages:
  "free_pages (mem_pageframeallocator_lockPage a s) = free_pages s - {a div 4096}"
  by (auto simp: free_pages_def lockPage_bit)

lemma lockPage_inv: "pfa_inv s \<Longrightarrow> pfa_inv (mem_pageframeallocator_lockPage a s)"
  by (simp add: pfa_inv_def lockPage_bit)

lemma lockPage_counters:
  "mem_freeMemory (mem_pageframeallocator_lockPage a s) =
     mem_freeMemory s - (if \<not> page_bit s (a div 4096) \<and> a div 4096 \<le> page_count s then 4096 else 0)"
  "mem_usedMemory (mem_pageframeallocator_lockPage a s) =
     mem_usedMemory s + (if \<not> page_bit s (a div 4096) \<and> a div 4096 \<le> page_count s then 4096 else 0)"
  by (auto simp: mem_pageframeallocator_lockPage_def Let_def Bitmap_set_def)

lemma lockPage_free_counter:
  "a div 4096 < page_count s \<Longrightarrow>
   mem_freeMemory (mem_pageframeallocator_lockPage a s) =
     mem_freeMemory s - (if a div 4096 \<in> free_pages s then 4096 else 0)"
  by (auto simp: lockPage_counters free_pages_def)

text \<open>The bytes that an operation may write: the bitmap, and the byte after it.\<close>

lemma lockPage_frame:
  assumes "pfa_inv s" and "\<not> in_region (Buffer (mem_pfaBitmap s)) (Suc (unat (Size (mem_pfaBitmap s)))) x"
  shows "ram (mem_pageframeallocator_lockPage a s) x = ram s x"
  using bitmap_write_frame [OF assms] by (simp add: lockPage_ram)

subsection \<open>Freeing a page\<close>

lemma freePage_fields [simp]:
  "mem_pfaBitmap (mem_pageframeallocator_freePage a s) = mem_pfaBitmap s"
  "oomPanics (mem_pageframeallocator_freePage a s) = oomPanics s"
  "mem_hhdmOffset (mem_pageframeallocator_freePage a s) = mem_hhdmOffset s"
  "pfa.more (mem_pageframeallocator_freePage a s) = pfa.more s"
  by (simp_all add: mem_pageframeallocator_freePage_def Let_def split: prod.split bool.split)

lemma freePage_ram:
  "ram (mem_pageframeallocator_freePage a s) =
     (if page_bit s (a div 4096) then fst (Bitmap_set (mem_pfaBitmap s) (ram s) (a div 4096) False)
      else ram s)"
  by (simp add: mem_pageframeallocator_freePage_def Let_def split: prod.split bool.split)

lemma page_bit_le: "page_bit s i \<Longrightarrow> i \<le> page_count s"
  by (auto simp: Bitmap_get_def split: if_splits)

lemma freePage_bit:
  "Bitmap_get (mem_pfaBitmap s) (ram (mem_pageframeallocator_freePage a s)) j \<longleftrightarrow>
     page_bit s j \<and> j \<noteq> a div 4096"
proof (cases "page_bit s (a div 4096)")
  case True
  then show ?thesis
    using page_bit_le [OF True] by (auto simp: freePage_ram Bitmap_get_set_any)
qed (auto simp: freePage_ram)

lemma freePage_free_pages:
  "free_pages (mem_pageframeallocator_freePage a s) =
     (if a div 4096 < page_count s then insert (a div 4096) (free_pages s) else free_pages s)"
  by (auto simp: free_pages_def freePage_bit)

lemma freePage_bitmapIdx:
  "bitmapIdx (mem_pageframeallocator_freePage a s) =
     (if page_bit s (a div 4096) then min (bitmapIdx s) (a div 4096) else bitmapIdx s)"
  using Bitmap_set_accepts [OF page_bit_le, of s "a div 4096" "ram s" False]
  by (auto simp: mem_pageframeallocator_freePage_def Let_def min_def not_le
        split: prod.split bool.split)

lemma freePage_inv: "pfa_inv s \<Longrightarrow> pfa_inv (mem_pageframeallocator_freePage a s)"
  by (auto simp: pfa_inv_def freePage_bit freePage_bitmapIdx min_def split: if_splits)

lemma freePage_counters:
  "mem_freeMemory (mem_pageframeallocator_freePage a s) =
     mem_freeMemory s + (if page_bit s (a div 4096) then 4096 else 0)"
  "mem_usedMemory (mem_pageframeallocator_freePage a s) =
     mem_usedMemory s - (if page_bit s (a div 4096) then 4096 else 0)"
  using page_bit_le [of s "a div 4096"]
  by (auto simp: mem_pageframeallocator_freePage_def Let_def Bitmap_set_def)

lemma freePage_frame:
  assumes "pfa_inv s" and "\<not> in_region (Buffer (mem_pfaBitmap s)) (Suc (unat (Size (mem_pfaBitmap s)))) x"
  shows "ram (mem_pageframeallocator_freePage a s) x = ram s x"
  using bitmap_write_frame [OF assms] by (simp add: freePage_ram)

subsection \<open>Requesting a page\<close>

text \<open>
  The search returns the lowest free page, whatever the hint, and panics exactly when no page is
  free.
\<close>

lemma requestPage_loop_spec:
  "pfa_inv s \<Longrightarrow>
   requestPage_loop s =
     (if free_pages s = {} then Inl (Panic ''Out of memory'')
      else let i = Min (free_pages s)
           in Inr (i * 4096, mem_pageframeallocator_lockPage (i * 4096) (s\<lparr>bitmapIdx := i\<rparr>)))"
proof (induction s rule: requestPage_loop.induct)
  case (1 s)
  let ?s' = "s\<lparr>bitmapIdx := bitmapIdx s + 1\<rparr>"
  have low: "\<And>i. i \<in> free_pages s \<Longrightarrow> bitmapIdx s \<le> i"
    using "1.prems" by (auto simp: pfa_inv_def free_pages_def not_less [symmetric])
  consider (none) "\<not> bitmapIdx s < page_count s" | (skip) "bitmapIdx s < page_count s" "page_bit s (bitmapIdx s)"
    | (found) "bitmapIdx s < page_count s" "\<not> page_bit s (bitmapIdx s)" by blast
  then show ?case
  proof cases
    case none
    then have "free_pages s = {}" using low by (force simp: free_pages_def)
    with none show ?thesis by (simp add: requestPage_loop.simps [of s])
  next
    case skip
    have "pfa_inv ?s'"
      using "1.prems" skip unat_inc [OF skip(1)]
      by (auto simp: pfa_inv_def word_less_nat_alt word_le_nat_alt less_Suc_eq dest: word_eqI_unat)
    moreover have "free_pages ?s' = free_pages s" by (simp add: free_pages_def)
    ultimately show ?thesis
      using "1.IH" skip by (simp add: requestPage_loop.simps [of s] Let_def)
  next
    case found
    then have mem: "bitmapIdx s \<in> free_pages s" by (simp add: free_pages_def)
    with low have "Min (free_pages s) = bitmapIdx s" by (intro Min_eqI) auto
    with mem found show ?thesis
      by (auto simp: requestPage_loop.simps [of s] Let_def)
  qed
qed

section \<open>Interface of a frame allocator\<close>

text \<open>
  What paging and the heap rely on. \<open>avail\<close> are the addresses of the frames that may still be
  handed out, \<open>managed\<close> those that can be returned.
\<close>

primrec request_many :: "('s \<Rightarrow> (u64 \<times> 's) res) \<Rightarrow> nat \<Rightarrow> 's \<Rightarrow> (u64 list \<times> 's) res" where
  "request_many request 0 s = Inr ([], s)"
| "request_many request (Suc n) s =
     bind_r (request s) (\<lambda>(p, s). bind_r (request_many request n s) (\<lambda>(ps, s). Inr (p # ps, s)))"

locale frame_allocator =
  fixes request :: "'s \<Rightarrow> (u64 \<times> 's) res"
    and release :: "u64 \<Rightarrow> 's \<Rightarrow> 's"
    and avail :: "'s \<Rightarrow> u64 set"
    and managed :: "'s \<Rightarrow> u64 set"
    and invar :: "'s \<Rightarrow> bool"
  assumes request_avail: "invar s \<Longrightarrow> request s = Inr (p, t) \<Longrightarrow> p \<in> avail s \<and> avail t = avail s - {p}"
    and request_invar: "invar s \<Longrightarrow> request s = Inr (p, t) \<Longrightarrow> invar t \<and> managed t = managed s"
    and release_avail: "invar s \<Longrightarrow> p \<in> managed s \<Longrightarrow> avail (release p s) = insert p (avail s)"
    and release_invar: "invar s \<Longrightarrow> invar (release p s) \<and> managed (release p s) = managed s"
    and avail_managed: "invar s \<Longrightarrow> avail s \<subseteq> managed s"
begin

lemma request_many_fresh:
  "invar s \<Longrightarrow> request_many request n s = Inr (ps, t) \<Longrightarrow>
   length ps = n \<and> distinct ps \<and> set ps \<subseteq> avail s \<and> avail t = avail s - set ps \<and> invar t"
proof (induction n arbitrary: s ps t)
  case (Suc n)
  then obtain p u qs where r: "request s = Inr (p, u)" "request_many request n u = Inr (qs, t)"
    and ps: "ps = p # qs" by (auto simp: bind_r_eq_Inr)
  with Suc.prems have u: "p \<in> avail s" "avail u = avail s - {p}" "invar u"
    using request_avail request_invar by blast+
  with Suc.IH [OF _ r(2)] have "length qs = n \<and> distinct qs \<and> set qs \<subseteq> avail u
      \<and> avail t = avail u - set qs \<and> invar t" by blast
  with u show ?case by (auto simp: ps)
qed simp

lemma request_release:
  assumes "invar s" and "request s = Inr (p, t)"
  shows "avail (release p t) = avail s"
proof -
  from assms have p: "p \<in> avail s" "avail t = avail s - {p}" "invar t" "managed t = managed s"
    using request_avail request_invar by blast+
  with assms(1) have "p \<in> managed t" using avail_managed by blast
  with p(3) have "avail (release p t) = insert p (avail t)" by (rule release_avail)
  with p(1,2) show ?thesis by (simp add: insert_absorb)
qed

end

definition free_frames :: "'z pfa_scheme \<Rightarrow> u64 set" where
  "free_frames s = (\<lambda>i. i * 4096) ` free_pages s"

definition managed_frames :: "'z pfa_scheme \<Rightarrow> u64 set" where
  "managed_frames s = (\<lambda>i. i * 4096) ` {i. i < page_count s}"

lemma requestPage_spec:
  assumes "pfa_inv s"
  shows "mem_pageframeallocator_requestPage s =
     (if oomPanics s \<and> mem_freeMemory s < 16384 \<or> free_pages s = {} then Inl (Panic ''Out of memory'')
      else let i = Min (free_pages s)
           in Inr (i * 4096, mem_pageframeallocator_lockPage (i * 4096) (s\<lparr>bitmapIdx := i\<rparr>)))"
  using requestPage_loop_spec [OF assms] by (simp add: mem_pageframeallocator_requestPage_def)

lemma hint_update_inv:
  assumes "pfa_inv s" and "free_pages s \<noteq> {}"
  shows "pfa_inv (s\<lparr>bitmapIdx := Min (free_pages s)\<rparr>)"
proof -
  let ?k = "Min (free_pages s)"
  have k: "?k < page_count s" using assms(2) by (intro free_pages_lt) simp
  have "page_bit s i" if "i < ?k" for i
  proof (rule ccontr)
    assume "\<not> page_bit s i"
    with that k have "i \<in> free_pages s" unfolding free_pages_def by force
    then have "?k \<le> i" by (rule Min_le [OF finite_free_pages])
    with that show False by (meson leD)
  qed
  with assms(1) k show ?thesis unfolding pfa_inv_def by (simp add: less_imp_le)
qed

lemma requestPage_Inr:
  assumes "pfa_inv s" and "mem_pageframeallocator_requestPage s = Inr (p, t)"
  defines "i \<equiv> Min (free_pages s)"
  shows "p = i * 4096" and "i \<in> free_pages s" and "p div 4096 = i"
    and "t = mem_pageframeallocator_lockPage p (s\<lparr>bitmapIdx := i\<rparr>)"
    and "free_pages t = free_pages s - {i}" and "pfa_inv t"
proof -
  have ne: "free_pages s \<noteq> {}"
    and eq: "p = i * 4096" "t = mem_pageframeallocator_lockPage p (s\<lparr>bitmapIdx := i\<rparr>)"
    using assms(2) requestPage_spec [OF assms(1)] by (auto simp: i_def Let_def split: if_splits)
  then show "p = i * 4096" "t = mem_pageframeallocator_lockPage p (s\<lparr>bitmapIdx := i\<rparr>)"
    by simp_all
  from ne show i: "i \<in> free_pages s" by (simp add: i_def)
  with assms(1) eq(1) show idx: "p div 4096 = i" by (simp add: pfa_inv_free_page)
  show "pfa_inv t"
    using hint_update_inv [OF assms(1) ne] by (simp add: eq(2) lockPage_inv i_def)
  show "free_pages t = free_pages s - {i}"
    by (simp add: eq(2) lockPage_free_pages idx) (simp add: free_pages_def)
qed

interpretation pf: frame_allocator
  mem_pageframeallocator_requestPage mem_pageframeallocator_freePage
  free_frames managed_frames pfa_inv
proof unfold_locales
  fix s t :: "'z pfa_scheme" and p
  assume inv: "pfa_inv s"
  show "free_frames s \<subseteq> managed_frames s"
    by (auto simp: free_frames_def managed_frames_def free_pages_def)
  show "pfa_inv (mem_pageframeallocator_freePage p s) \<and>
        managed_frames (mem_pageframeallocator_freePage p s) = managed_frames s"
    using inv by (simp add: freePage_inv managed_frames_def)
  show "free_frames (mem_pageframeallocator_freePage p s) = insert p (free_frames s)"
    if "p \<in> managed_frames s"
  proof -
    from that obtain i where i: "i < page_count s" "p = i * 4096"
      by (auto simp: managed_frames_def)
    with inv have "p div 4096 = i" by (simp add: managed_index [of s])
    with i show ?thesis by (simp add: free_frames_def freePage_free_pages)
  qed
  assume req: "mem_pageframeallocator_requestPage s = Inr (p, t)"
  note r = requestPage_Inr [OF inv req]
  have inj: "inj_on (\<lambda>i. i * 4096) (free_pages s)"
    by (rule inj_on_inverseI [where g = "\<lambda>p. p div 4096"]) (rule pfa_inv_free_page [OF inv])
  show "p \<in> free_frames s \<and> free_frames t = free_frames s - {p}"
    using r(1,2,5) inj by (auto simp: free_frames_def inj_on_def)
  show "pfa_inv t \<and> managed_frames t = managed_frames s"
    using r(6) by (simp add: r(4) managed_frames_def)
qed

section \<open>Loops over pages\<close>

lemma lockPages_ok:
  assumes "unat n \<le> 2 ^ 19"
  shows "mem_pageframeallocator_lockPages a n s =
     Inr (fold (\<lambda>i. mem_pageframeallocator_lockPage (a + of_nat (i * 4096))) [0..<unat n] s)"
  unfolding mem_pageframeallocator_lockPages_def
  using assms by (intro for_each_Inr_fold) (auto simp: INT_MAX_def)

lemma fold_lockPage:
  "pfa_inv s \<Longrightarrow> pfa_inv (fold (\<lambda>i. mem_pageframeallocator_lockPage (f i)) is s)"
  "mem_pfaBitmap (fold (\<lambda>i. mem_pageframeallocator_lockPage (f i)) is s) = mem_pfaBitmap s"
  "oomPanics (fold (\<lambda>i. mem_pageframeallocator_lockPage (f i)) is s) = oomPanics s"
  "free_pages (fold (\<lambda>i. mem_pageframeallocator_lockPage (f i)) is s) =
     free_pages s - (\<lambda>i. f i div 4096) ` set is"
  by (induction "is" arbitrary: s) (auto simp: lockPage_inv lockPage_free_pages)

lemma fold_freePage:
  "pfa_inv s \<Longrightarrow> pfa_inv (fold (\<lambda>i. mem_pageframeallocator_freePage (f i)) is s)"
  "mem_pfaBitmap (fold (\<lambda>i. mem_pageframeallocator_freePage (f i)) is s) = mem_pfaBitmap s"
  "free_pages (fold (\<lambda>i. mem_pageframeallocator_freePage (f i)) is s) =
     free_pages s \<union> {j. j < page_count s \<and> j \<in> (\<lambda>i. f i div 4096) ` set is}"
  by (induction "is" arbitrary: s) (auto simp: freePage_inv freePage_free_pages)

lemma total_lockPage: "mem_getTotalRAM (mem_pageframeallocator_lockPage a s) = mem_getTotalRAM s"
  by (simp add: mem_getTotalRAM_def lockPage_counters)

lemma total_freePage: "mem_getTotalRAM (mem_pageframeallocator_freePage a s) = mem_getTotalRAM s"
  by (simp add: mem_getTotalRAM_def freePage_counters)

lemma lockPageNonAvailable_eq:
  "mem_pageframeallocator_lockPageNonAvailable a s =
     (mem_pageframeallocator_lockPage a s)\<lparr>mem_freeMemory := mem_freeMemory s,
                                            mem_usedMemory := mem_usedMemory s\<rparr>"
  by (simp add: mem_pageframeallocator_lockPageNonAvailable_def mem_pageframeallocator_lockPage_def
        Let_def split: prod.split bool.split)

lemma pfa_inv_counters [simp]:
  "pfa_inv (s\<lparr>mem_freeMemory := f, mem_usedMemory := u\<rparr>) = pfa_inv s"
  by (simp add: pfa_inv_def)

lemma lockPageNonAvailable_inv:
  "pfa_inv s \<Longrightarrow> pfa_inv (mem_pageframeallocator_lockPageNonAvailable a s)"
  by (simp add: lockPageNonAvailable_eq lockPage_inv)

lemma total_lockPageNonAvailable:
  "mem_getTotalRAM (mem_pageframeallocator_lockPageNonAvailable a s) = mem_getTotalRAM s"
  by (simp add: mem_getTotalRAM_def lockPageNonAvailable_eq)

lemma total_requestPage:
  assumes "pfa_inv s" and "mem_pageframeallocator_requestPage s = Inr (p, t)"
  shows "mem_getTotalRAM t = mem_getTotalRAM s"
  using requestPage_Inr(4) [OF assms] total_lockPage [of p "s\<lparr>bitmapIdx := Min (free_pages s)\<rparr>"]
  by (simp add: mem_getTotalRAM_def)

section \<open>Sequences of allocator calls\<close>

text \<open>One call of the interface of \<^verbatim>\<open>pageframeallocator.h\<close> that returns.\<close>

inductive pfa_step :: "'z pfa_scheme \<Rightarrow> 'z pfa_scheme \<Rightarrow> bool" where
  request: "mem_pageframeallocator_requestPage s = Inr (p, t) \<Longrightarrow> pfa_step s t"
| lock: "pfa_step s (mem_pageframeallocator_lockPage a s)"
| lock_na: "pfa_step s (mem_pageframeallocator_lockPageNonAvailable a s)"
| free: "pfa_step s (mem_pageframeallocator_freePage a s)"
| lock_pages: "mem_pageframeallocator_lockPages a n s = Inr t \<Longrightarrow> pfa_step s t"
| lock_pages_na: "mem_pageframeallocator_lockPagesNonAvailable a n s = Inr t \<Longrightarrow> pfa_step s t"
| free_pages: "pfa_step s (mem_pageframeallocator_freePages a n s)"

lemma pfa_step_inv:
  assumes "pfa_step s t" and inv: "pfa_inv s"
  shows "pfa_inv t \<and> mem_getTotalRAM t = mem_getTotalRAM s"
  using assms
proof cases
  case (request p)
  then show ?thesis using inv requestPage_Inr(6) total_requestPage by blast
next
  case (lock_pages a n)
  then show ?thesis
    unfolding mem_pageframeallocator_lockPages_def
    by (rule for_each_inv [where P = "\<lambda>u. pfa_inv u \<and> mem_getTotalRAM u = mem_getTotalRAM s"])
       (auto simp: inv lockPage_inv total_lockPage split: if_splits)
next
  case (lock_pages_na a n)
  then show ?thesis
    unfolding mem_pageframeallocator_lockPagesNonAvailable_def
    by (rule for_each_inv [where P = "\<lambda>u. pfa_inv u \<and> mem_getTotalRAM u = mem_getTotalRAM s"])
       (auto simp: inv lockPageNonAvailable_inv total_lockPageNonAvailable split: if_splits)
next
  case (free_pages a n)
  then show ?thesis
    unfolding mem_pageframeallocator_freePages_def
    by (simp only:)
       (rule fold_inv [where P = "\<lambda>u. pfa_inv u \<and> mem_getTotalRAM u = mem_getTotalRAM s"],
        auto simp: inv freePage_inv total_freePage)
qed (auto simp: inv lockPage_inv freePage_inv lockPageNonAvailable_inv
       total_lockPage total_freePage total_lockPageNonAvailable)

section \<open>Properties\<close>

text \<open>A small allocator state: eight pages, of which 0 to 2 are locked.\<close>

definition pfa_example :: pfa where
  "pfa_example =
     \<lparr>ram = (\<lambda>x. if x = 0xffff800000100000 then 0b11100000 else 0), klog = [],
      mem_hhdmOffset = 0xffff800000000000, mem_kVirtOffset = 0xffffffff80000000,
      mem_freeMemory = 20480, mem_usedMemory = 12288, bitmapIdx = 0, memEnd = 32768,
      mem_pfaBitmap = \<lparr>Size = 1, Buffer = 0xffff800000100000\<rparr>, memmap_info = [], oomPanics = True\<rparr>"

lemma pfa_example_inv: "pfa_inv pfa_example"
  by (simp add: pfa_inv_def pfa_example_def)

definition pfa_example2 :: pfa where
  "pfa_example2 = pfa_example\<lparr>ram := (ram pfa_example)(0xffff800000100000 := 0b11110000),
     mem_freeMemory := 16384, mem_usedMemory := 16384, bitmapIdx := 3\<rparr>"

lemma pfa_example_request:
  "mem_pageframeallocator_requestPage pfa_example = Inr (0x3000, pfa_example2)"
  by (simp add: mem_pageframeallocator_requestPage_def requestPage_loop.simps pfa_example_def
        pfa_example2_def Bitmap_get_def Bitmap_set_def mem_pageframeallocator_lockPage_def Let_def)

lemma pfa_example2_request:
  "\<exists>t. mem_pageframeallocator_requestPage pfa_example2 = Inr (0x4000, t)"
  by (simp add: mem_pageframeallocator_requestPage_def requestPage_loop.simps pfa_example_def
        pfa_example2_def Bitmap_get_def Let_def)

text \<open>C4: \<open>requestPage\<close> either halts with "Out of memory", when the free counter has fallen below
  16384 (once the allocator is initialised) or no page is free, or returns the address of the lowest
  free page, which is then no longer free; every other page keeps its status and the
  invariant (no free page below the search hint) is kept.\<close>

theorem requestPage_takes_lowest:
  assumes "pfa_inv s"
  shows "case mem_pageframeallocator_requestPage s of
      Inl e \<Rightarrow> e = Panic ''Out of memory'' \<and>
        (oomPanics s \<and> mem_freeMemory s < 16384 \<or> free_pages s = {})
    | Inr (p, t) \<Rightarrow> \<not> (oomPanics s \<and> mem_freeMemory s < 16384) \<and>
        free_pages s \<noteq> {} \<and> p = Min (free_pages s) * 4096 \<and> p div 4096 = Min (free_pages s) \<and>
        free_pages t = free_pages s - {Min (free_pages s)} \<and> pfa_inv t"
proof (cases "mem_pageframeallocator_requestPage s")
  case (Inl e)
  then show ?thesis using requestPage_spec [OF assms] by (auto simp: Let_def split: if_splits)
next
  case (Inr r)
  obtain p t where r: "r = (p, t)" by (cases r)
  with Inr have "mem_pageframeallocator_requestPage s = Inr (p, t)" by simp
  note q = requestPage_Inr [OF assms this]
  have "\<not> (oomPanics s \<and> mem_freeMemory s < 16384)"
    using Inr requestPage_spec [OF assms] by (auto split: if_splits)
  with q Inr r show ?thesis by auto
qed

theorem requestPage_takes_lowest_witness:
  "mem_pageframeallocator_requestPage pfa_example = Inr (0x3000, pfa_example2) \<and>
   0x3000 = Min (free_pages pfa_example) * 4096 \<and>
   free_pages pfa_example2 = free_pages pfa_example - {Min (free_pages pfa_example)}"
  using requestPage_takes_lowest [OF pfa_example_inv] by (simp add: pfa_example_request)

text \<open>Frames handed out by successive requests, with nothing freed in between, are pairwise
  distinct, were all free before, and are exactly the frames that have become unavailable.\<close>

theorem requests_distinct:
  assumes "pfa_inv s" and "request_many mem_pageframeallocator_requestPage n s = Inr (ps, t)"
  shows "length ps = n \<and> distinct ps \<and> set ps \<subseteq> free_frames s \<and>
         free_frames t = free_frames s - set ps \<and> pfa_inv t"
  using assms by (rule pf.request_many_fresh)

theorem requests_distinct_witness:
  "\<exists>t. request_many mem_pageframeallocator_requestPage 2 pfa_example = Inr ([0x3000, 0x4000], t) \<and>
     distinct [0x3000, 0x4000 :: u64] \<and> set [0x3000, 0x4000] \<subseteq> free_frames pfa_example"
proof -
  obtain t where "mem_pageframeallocator_requestPage pfa_example2 = Inr (0x4000, t)"
    using pfa_example2_request by blast
  then have r: "request_many mem_pageframeallocator_requestPage 2 pfa_example = Inr ([0x3000, 0x4000], t)"
    by (simp add: numeral_2_eq_2 pfa_example_request)
  with requests_distinct [OF pfa_example_inv r] show ?thesis by blast
qed

text \<open>C7: returning the frame just obtained undoes the request: the free pages and both byte
  counters are what they were.\<close>

theorem request_then_free:
  assumes "pfa_inv s" and "mem_pageframeallocator_requestPage s = Inr (p, t)"
  shows "free_pages (mem_pageframeallocator_freePage p t) = free_pages s \<and>
         mem_getFreeRAM (mem_pageframeallocator_freePage p t) = mem_getFreeRAM s \<and>
         mem_getUsedRAM (mem_pageframeallocator_freePage p t) = mem_getUsedRAM s \<and>
         pfa_inv (mem_pageframeallocator_freePage p t)"
proof -
  note r = requestPage_Inr [OF assms]
  have i: "Min (free_pages s) < page_count s" "\<not> page_bit s (Min (free_pages s))"
    using r(2) by (auto simp: free_pages_def)
  have "free_pages (mem_pageframeallocator_freePage p t) = insert (p div 4096) (free_pages t)"
    using i(1) by (simp add: freePage_free_pages r(3)) (simp add: r(4))
  with r(2,5) have "free_pages (mem_pageframeallocator_freePage p t) = free_pages s"
    by (simp add: r(3) insert_absorb)
  moreover have "page_bit t (p div 4096)"
    using i(1) lockPage_bit [of "s\<lparr>bitmapIdx := Min (free_pages s)\<rparr>" p "p div 4096"]
    by (simp add: r(3) less_imp_le) (simp add: r(4))
  ultimately show ?thesis
    using i freePage_inv [OF r(6)]
    by (simp add: mem_getFreeRAM_def mem_getUsedRAM_def freePage_counters)
       (simp add: r(4) lockPage_counters r(3))
qed

theorem request_then_free_witness:
  "free_pages (mem_pageframeallocator_freePage 0x3000 pfa_example2) = free_pages pfa_example \<and>
   mem_getFreeRAM (mem_pageframeallocator_freePage 0x3000 pfa_example2) = 20480"
proof -
  have "mem_getFreeRAM pfa_example = 20480" by (simp add: mem_getFreeRAM_def pfa_example_def)
  with request_then_free [OF pfa_example_inv pfa_example_request] show ?thesis by simp
qed

text \<open>C6: every sequence of allocator calls that return keeps the invariant and the reported total
  memory, free plus used, whatever addresses the calls are given.\<close>

theorem pfa_steps_total_constant:
  assumes "pfa_step\<^sup>*\<^sup>* s t" and "pfa_inv s"
  shows "pfa_inv t \<and> mem_getTotalRAM t = mem_getTotalRAM s"
  using assms
proof (induction rule: rtranclp_induct)
  case (step u v)
  then show ?case using pfa_step_inv [of u v] by simp
qed simp

theorem pfa_steps_total_constant_witness:
  "mem_getTotalRAM (mem_pageframeallocator_freePage 0x1000
     (mem_pageframeallocator_lockPage 0x5000 pfa_example)) = 32768"
proof -
  have "pfa_step\<^sup>*\<^sup>* pfa_example (mem_pageframeallocator_freePage 0x1000
     (mem_pageframeallocator_lockPage 0x5000 pfa_example))"
    by (meson pfa_step.free pfa_step.lock r_into_rtranclp rtranclp.rtrancl_into_rtrancl)
  from pfa_steps_total_constant [OF this pfa_example_inv] show ?thesis
    by (simp add: mem_getTotalRAM_def pfa_example_def)
qed

end
