(* ===== verification/Pageframes_Boot.thy ===== *)
theory Pageframes_Boot
  imports Pageframes
begin

text \<open>
  The start of the page frame allocator, \<open>mem_pageframeallocator_init\<close>: which pages are free
  after it, on which memory maps it is defined at all, and that afterwards only usable memory is
  handed out.
\<close>

section \<open>Clearing the bitmap\<close>

lemma in_region_snoc:
  "k < 2 ^ 64 \<Longrightarrow> in_region a (Suc k) x \<longleftrightarrow> in_region a k x \<or> x = a + of_nat k"
  by (auto simp: in_region_iff_offset less_Suc_eq)

lemma clear_fold:
  "k \<le> 2 ^ 64 \<Longrightarrow>
   fold (\<lambda>i s. s\<lparr>ram := (ram s)(Buffer (mem_pfaBitmap s) + of_nat i := 0)\<rparr>) [0..<k] s =
     s\<lparr>ram := (\<lambda>x. if in_region (Buffer (mem_pfaBitmap s)) k x then 0 else ram s x)\<rparr>"
proof (induction k)
  case (Suc k)
  then show ?case by (simp add: in_region_snoc fun_eq_iff cong: if_cong)
qed simp

lemma initBitmap_ok:
  assumes "unat n \<le> INT_MAX"
  shows "mem_pageframeallocator_initBitmap n a s =
     Inr (s\<lparr>mem_pfaBitmap := \<lparr>Size = n, Buffer = a\<rparr>,
           ram := (\<lambda>x. if in_region a (unat n) x then 0 else ram s x), bitmapIdx := 0\<rparr>)"
proof -
  have "unat n \<le> 2 ^ 64" using unat_lt_64 [of n] by simp
  then show ?thesis
    unfolding mem_pageframeallocator_initBitmap_def Let_def
    using assms
    by (subst for_each_Inr_fold
          [where g = "\<lambda>i s. s\<lparr>ram := (ram s)(Buffer (mem_pfaBitmap s) + of_nat i := 0)\<rparr>"])
       (auto simp: clear_fold cong: if_cong)
qed

lemma clear_bitmap_free:
  fixes s :: "'z pfa_scheme" and a n :: u64
  assumes "unat n * 8 \<le> 2 ^ 52"
  defines "t \<equiv> s\<lparr>mem_pfaBitmap := \<lparr>Size = n, Buffer = a\<rparr>,
           ram := (\<lambda>x. if in_region a (unat n) x then 0 else ram s x), bitmapIdx := 0\<rparr>"
  shows "pfa_inv t" and "free_pages t = {j. j < n * 8}"
proof -
  show "pfa_inv t" using assms(1) by (simp add: pfa_inv_def t_def)
  have u: "unat (n * 8) = unat n * 8"
    using assms(1) unat_mult_no_wrap [of n 8] by simp
  have "\<not> page_bit t j" if "j < n * 8" for j
  proof -
    have "unat (j div 8) < unat n" using u that by (rule byte_index_lt)
    then have "in_region a (unat n) (a + j div 8)" by (simp add: in_region_def)
    with that show ?thesis by (simp add: t_def Bitmap_get_bit less_imp_le)
  qed
  then show "free_pages t = {j. j < n * 8}" by (auto simp: free_pages_def t_def)
qed

section \<open>The limit of the locking loop\<close>

lemma lockPages_overflow:
  assumes "unat n > 2 ^ 19"
  shows "mem_pageframeallocator_lockPages a n s = Inl (Undefined ''signed overflow of i * 4096'')"
proof -
  let ?f = "\<lambda>i s. if i * 4096 > INT_MAX then Inl (Undefined ''signed overflow of i * 4096'')
                     else Inr (mem_pageframeallocator_lockPage (a + of_nat (i * 4096)) s)"
  let ?g = "\<lambda>i. mem_pageframeallocator_lockPage (a + of_nat (i * 4096))"
  have split: "[0..<unat n] = [0..<2 ^ 19] @ 2 ^ 19 # [Suc (2 ^ 19)..<unat n]"
    using assms upt_add_eq_append [of 0 "2 ^ 19" "unat n - 2 ^ 19"] upt_conv_Cons [of "2 ^ 19" "unat n"]
    by simp
  have "for_each ?f [0..<2 ^ 19] s = Inr (fold ?g [0..<2 ^ 19] s)"
    by (rule for_each_Inr_fold) (auto simp: INT_MAX_def)
  then show ?thesis
    unfolding mem_pageframeallocator_lockPages_def split for_each_append
    by (simp only: bind_r_Inr for_each.simps) (simp add: INT_MAX_def)
qed

section \<open>Scanning the memory map\<close>

definition is_usable :: "limine_memmap_entry \<Rightarrow> bool" where
  "is_usable e \<longleftrightarrow> entry_type e = LIMINE_MEMMAP_USABLE"

lemma scan_largest:
  assumes "fold scan_entry mm (seg0, sz0, e0) = (seg, sz, e)"
  shows "sz0 \<le> sz \<and> (\<forall>x\<in>set mm. is_usable x \<longrightarrow> entry_length x \<le> sz) \<and>
    ((seg, sz) = (seg0, sz0) \<or> (\<exists>x\<in>set mm. is_usable x \<and> entry_base x = seg \<and> entry_length x = sz))"
  using assms
proof (induction mm arbitrary: seg0 sz0 e0)
  case (Cons x mm)
  obtain seg1 sz1 e1 where st: "scan_entry x (seg0, sz0, e0) = (seg1, sz1, e1)"
    by (cases "scan_entry x (seg0, sz0, e0)")
  then have s1: "if is_usable x \<and> sz0 < entry_length x then seg1 = entry_base x \<and> sz1 = entry_length x
      else seg1 = seg0 \<and> sz1 = sz0"
    by (auto simp: scan_entry_def is_usable_def Let_def split: if_splits)
  from Cons.prems st have "fold scan_entry mm (seg1, sz1, e1) = (seg, sz, e)" by simp
  from Cons.IH [OF this] s1 show ?case
    by (auto simp: not_less split: if_splits intro: order_trans less_imp_le)
qed simp

text \<open>
  What the scan looks for: the first of the largest usable entries. Entries of length 0 do not count, since the scan starts from the
  size 0 and the address 0.
\<close>

definition largest_segment :: "memmap \<Rightarrow> limine_memmap_entry option" where
  "largest_segment mm = find (\<lambda>x. is_usable x \<and> entry_length x \<noteq> 0 \<and>
     list_all (\<lambda>y. is_usable y \<longrightarrow> entry_length y \<le> entry_length x) mm) mm"

lemma scan_keeps:
  assumes "\<forall>y\<in>set mm. is_usable y \<longrightarrow> entry_length y \<le> sz"
  shows "\<exists>e'. fold scan_entry mm (seg, sz, e) = (seg, sz, e')"
  using assms
proof (induction mm arbitrary: e)
  case (Cons x mm)
  then have "\<exists>e1. scan_entry x (seg, sz, e) = (seg, sz, e1)"
    by (auto simp: scan_entry_def is_usable_def Let_def not_less)
  with Cons show ?case by auto
qed simp

lemma scan_largest_segment:
  assumes "largest_segment mm = Some x"
  shows "\<exists>e'. fold scan_entry mm (0, 0, e) = (entry_base x, entry_length x, e')"
proof -
  obtain i where i: "i < length mm" "mm ! i = x" "is_usable x" "entry_length x \<noteq> 0"
    and max: "\<forall>y\<in>set mm. is_usable y \<longrightarrow> entry_length y \<le> entry_length x"
    and first: "\<And>j. j < i \<Longrightarrow> \<not> (is_usable (mm ! j) \<and> entry_length (mm ! j) \<noteq> 0 \<and>
       list_all (\<lambda>y. is_usable y \<longrightarrow> entry_length y \<le> entry_length (mm ! j)) mm)"
    using assms by (auto simp: largest_segment_def find_Some_iff list_all_iff)
  have mm: "mm = take i mm @ x # drop (Suc i) mm" using i(1,2) id_take_nth_drop by blast
  obtain seg sz e1 where pre: "fold scan_entry (take i mm) (0, 0, e) = (seg, sz, e1)" by (cases "fold scan_entry (take i mm) (0, 0, e)")
  have "sz < entry_length x"
  proof -
    from scan_largest [OF pre] consider "sz = 0" | y where "y \<in> set (take i mm)" "is_usable y" "entry_length y = sz" by auto
    then show ?thesis
    proof cases
      case 1
      then show ?thesis using i(4) by (simp add: word_neq_0_conv)
    next
      case (2 y)
      then obtain j where j: "j < i" "mm ! j = y" using i(1) by (auto simp: in_set_conv_nth)
      have "y \<in> set mm" using 2(1) by (rule in_set_takeD)
      then have le: "sz \<le> entry_length x" using max 2 by auto
      have "sz \<noteq> entry_length x" using first [OF j(1)] j(2) 2 i(4) max by (auto simp: list_all_iff)
      with le show ?thesis by simp
    qed
  qed
  then have "\<exists>e2. scan_entry x (seg, sz, e1) = (entry_base x, entry_length x, e2)"
    using i(3) by (auto simp: scan_entry_def is_usable_def Let_def)
  then obtain e2 where "scan_entry x (seg, sz, e1) = (entry_base x, entry_length x, e2)" by blast
  moreover obtain e3 where "fold scan_entry (drop (Suc i) mm) (entry_base x, entry_length x, e2) = (entry_base x, entry_length x, e3)"
    using scan_keeps [of "drop (Suc i) mm" "entry_length x"] max by (meson in_set_dropD)
  ultimately have "fold scan_entry (take i mm @ x # drop (Suc i) mm) (0, 0, e) = (entry_base x, entry_length x, e3)" by (simp add: pre)
  then show ?thesis using mm by metis
qed

section \<open>Freeing the usable memory\<close>

definition entry_pages :: "limine_memmap_entry \<Rightarrow> u64 set" where
  "entry_pages e = (\<lambda>i. (entry_base e + i * 4096) div 4096) ` {i. i < entry_length e div 4096}"

definition usable_pages :: "memmap \<Rightarrow> u64 set" where
  "usable_pages mm = (\<Union>e\<in>{e \<in> set mm. is_usable e}. entry_pages e)"

lemma pfa_log [simp]:
  "free_pages (s\<lparr>klog := l\<rparr>) = free_pages s" "pfa_inv (s\<lparr>klog := l\<rparr>) = pfa_inv s"
  by (simp_all add: free_pages_def pfa_inv_def)

lemma free_usable_effect:
  "pfa_inv s \<Longrightarrow> pfa_inv (free_usable e s)"
  "mem_pfaBitmap (free_usable e s) = mem_pfaBitmap s"
  "free_pages (free_usable e s) =
     free_pages s \<union> {j. j < page_count s \<and> is_usable e \<and> j \<in> entry_pages e}"
  by (simp_all add: free_usable_def Let_def mem_pageframeallocator_freePages_def fold_freePage
        is_usable_def entry_pages_def)
     (auto simp: fold_freePage)

lemma fold_free_usable:
  "pfa_inv s \<Longrightarrow> pfa_inv (fold free_usable mm s)"
  "mem_pfaBitmap (fold free_usable mm s) = mem_pfaBitmap s"
  "free_pages (fold free_usable mm s) = free_pages s \<union> {j. j < page_count s \<and> j \<in> usable_pages mm}"
  by (induction mm arbitrary: s) (auto simp: free_usable_effect usable_pages_def)

section \<open>The state after init\<close>

abbreviation map_pages :: "memmap \<Rightarrow> u64" where
  "map_pages mm \<equiv> getMemoryArealSize mm div 4096"

abbreviation bitmap_bytes :: "memmap \<Rightarrow> u64" where
  "bitmap_bytes mm \<equiv> getMemoryArealSize mm div 4096 div 8 + 1"

abbreviation bitmap_pages :: "memmap \<Rightarrow> u64" where
  "bitmap_pages mm \<equiv> bitmap_bytes mm div 4096 + 1"

text \<open>The pages that the last step of \<open>init\<close> locks, from the start of the largest segment.\<close>

definition reserved_pages :: "memmap \<Rightarrow> u64 \<Rightarrow> u64 set" where
  "reserved_pages mm seg = (\<lambda>i. (seg + of_nat (i * 4096)) div 4096) ` {0..<unat (bitmap_pages mm)}"

lemma map_size_bounds:
  assumes "getMemoryArealSize mm \<le> 2 ^ 31"
  shows "unat (map_pages mm) \<le> 2 ^ 19"
    and "unat (bitmap_bytes mm) = unat (map_pages mm) div 8 + 1"
    and "unat (bitmap_bytes mm) \<le> 2 ^ 16 + 1"
    and "unat (bitmap_pages mm) = unat (bitmap_bytes mm) div 4096 + 1"
    and "unat (bitmap_pages mm) \<le> 17"
proof -
  have "unat (getMemoryArealSize mm) \<le> 2 ^ 31" using assms by (simp add: word_le_nat_alt)
  then show p: "unat (map_pages mm) \<le> 2 ^ 19" by (simp add: unat_div)
  then have q: "unat (getMemoryArealSize mm div 4096 div 8) \<le> 2 ^ 16" by (simp add: unat_div)
  then show b: "unat (bitmap_bytes mm) = unat (map_pages mm) div 8 + 1"
    using unat_add_no_wrap [of "getMemoryArealSize mm div 4096 div 8" 1] by (simp add: unat_div)
  with p show c: "unat (bitmap_bytes mm) \<le> 2 ^ 16 + 1" by simp
  then show d: "unat (bitmap_pages mm) = unat (bitmap_bytes mm) div 4096 + 1"
    using unat_add_no_wrap [of "bitmap_bytes mm div 4096" 1] by (simp add: unat_div)
  with c show "unat (bitmap_pages mm) \<le> 17" by simp
qed

lemma init_lockPages_indices:
  assumes "unat n \<le> 2 ^ 19"
  shows "(\<lambda>i. of_nat (i * 4096) div 4096) ` {0..<unat n} = {j :: u64. j < n}"
proof -
  have "of_nat (i * 4096) div 4096 = (of_nat i :: u64)" if "i < unat n" for i
    using that assms page_addr_index [of "of_nat i"] by (simp add: unat_of_nat_small)
  then have "(\<lambda>i. of_nat (i * 4096) div 4096) ` {0..<unat n} = (of_nat :: nat \<Rightarrow> u64) ` {0..<unat n}"
    by (intro image_cong) auto
  also have "\<dots> = set (count_upto n)" by (simp add: count_upto_def)
  finally show ?thesis by auto
qed

text \<open>
  The steps of \<open>init\<close> up to the freeing of the usable memory, on a map that fits: the bitmap
  cleared, all pages of the map locked, the usable ones freed.
\<close>

definition cleared :: "u64 \<Rightarrow> u64 \<Rightarrow> 'z pfa_scheme \<Rightarrow> 'z pfa_scheme" where
  "cleared n a s = s\<lparr>mem_pfaBitmap := \<lparr>Size = n, Buffer = a\<rparr>,
     ram := (\<lambda>x. if in_region a (unat n) x then 0 else ram s x), bitmapIdx := 0\<rparr>"

definition prepared :: "memmap \<Rightarrow> u64 \<Rightarrow> 'z pfa_scheme \<Rightarrow> 'z pfa_scheme" where
  "prepared mm a s = fold free_usable mm
     (fold (\<lambda>i. mem_pageframeallocator_lockPage (0 + of_nat (i * 4096)))
        [0..<unat (map_pages mm)] (cleared (bitmap_bytes mm) a s))"

lemma prepared_facts:
  assumes "getMemoryArealSize mm \<le> 2 ^ 31"
  shows "pfa_inv (prepared mm a s)"
    and "mem_pfaBitmap (prepared mm a s) = \<lparr>Size = bitmap_bytes mm, Buffer = a\<rparr>"
    and "free_pages (prepared mm a s) =
           ({j. j < bitmap_bytes mm * 8} - {j. j < map_pages mm})
           \<union> {j. j < bitmap_bytes mm * 8 \<and> j \<in> usable_pages mm}"
proof -
  note b = map_size_bounds [OF assms]
  have c: "pfa_inv (cleared (bitmap_bytes mm) a s)"
      "free_pages (cleared (bitmap_bytes mm) a s) = {j. j < bitmap_bytes mm * 8}"
    unfolding cleared_def using b(3) by (intro clear_bitmap_free; simp)+
  have m: "mem_pfaBitmap (cleared (bitmap_bytes mm) a s) = \<lparr>Size = bitmap_bytes mm, Buffer = a\<rparr>"
    by (simp add: cleared_def)
  show "pfa_inv (prepared mm a s)"
    unfolding prepared_def by (intro fold_free_usable(1) fold_lockPage(1) c(1))
  show "mem_pfaBitmap (prepared mm a s) = \<lparr>Size = bitmap_bytes mm, Buffer = a\<rparr>"
    unfolding prepared_def by (simp only: fold_free_usable(2) fold_lockPage(2) m)
  show "free_pages (prepared mm a s) =
           ({j. j < bitmap_bytes mm * 8} - {j. j < map_pages mm})
           \<union> {j. j < bitmap_bytes mm * 8 \<and> j \<in> usable_pages mm}"
    unfolding prepared_def fold_free_usable(3) fold_lockPage(2,4) c(2) m set_upt add_0
      init_lockPages_indices [OF b(1)]
    by simp
qed

text \<open>The state in front of the last locking step, for a map that \<open>init\<close> handles.\<close>

lemma init_Inr:
  assumes scan: "fold scan_entry mm (0, 0, memEnd s) = (seg, sz, e)"
    and seg: "seg \<noteq> 0" and small: "getMemoryArealSize mm \<le> 2 ^ 31"
  obtains u v l l' where
    "mem_pageframeallocator_init mm s = Inr (v\<lparr>klog := l\<rparr>)"
    and "v = fold (\<lambda>i. mem_pageframeallocator_lockPage (seg + of_nat (i * 4096)))
               [0..<unat (bitmap_pages mm)] u"
    and "u = (prepared mm (mem_hhdmOffset s + seg) (s\<lparr>memmap_info := mm, memEnd := e, klog := l'\<rparr>))
               \<lparr>mem_usedMemory := 0, mem_freeMemory := sz, oomPanics := True\<rparr>"
proof -
  note b = map_size_bounds [OF small]
  obtain l' where s1: "mem_pageframeallocator_init mm s =
      bind_r (mem_pageframeallocator_initBitmap (bitmap_bytes mm) (mem_hhdmOffset s + seg)
               (s\<lparr>memmap_info := mm, memEnd := e, klog := l'\<rparr>)) (\<lambda>s.
      bind_r (mem_pageframeallocator_lockPages 0 (map_pages mm) s) (\<lambda>s.
      bind_r (mem_pageframeallocator_lockPages seg (bitmap_pages mm)
        ((fold free_usable mm s)\<lparr>mem_usedMemory := 0, mem_freeMemory := sz, oomPanics := True\<rparr>)) (\<lambda>s.
        Inr (s\<lparr>klog := log_both ''Initiliazed page frame allocator!\<newline>'' [] (klog s)\<rparr>))))"
    using seg scan by (simp add: mem_pageframeallocator_init_def Let_def)
  have "unat (bitmap_bytes mm) \<le> INT_MAX" and p: "unat (bitmap_pages mm) \<le> 2 ^ 19"
    using b(3,5) by (simp_all add: INT_MAX_def)
  then have i: "mem_pageframeallocator_initBitmap (bitmap_bytes mm) a x =
      Inr (cleared (bitmap_bytes mm) a x)" for a and x :: "'a pfa_scheme"
    by (simp only: initBitmap_ok cleared_def)
  show ?thesis
    by (rule that [OF _ refl refl])
       (simp only: s1 i bind_r_Inr lockPages_ok [OF b(1)] lockPages_ok [OF p] prepared_def [symmetric])
qed

lemma init_facts:
  assumes scan: "fold scan_entry mm (0, 0, memEnd s) = (seg, sz, e)"
    and seg: "seg \<noteq> 0" and small: "getMemoryArealSize mm \<le> 2 ^ 31"
  obtains t where "mem_pageframeallocator_init mm s = Inr t" and "pfa_inv t" and "oomPanics t"
    and "mem_pfaBitmap t = \<lparr>Size = bitmap_bytes mm, Buffer = mem_hhdmOffset s + seg\<rparr>"
    and "mem_getTotalRAM t = sz"
    and "free_pages t = ({j. j < bitmap_bytes mm * 8} - {j. j < map_pages mm}
           \<union> {j. j < bitmap_bytes mm * 8 \<and> j \<in> usable_pages mm}) - reserved_pages mm seg"
proof -
  note b = map_size_bounds [OF small]
  obtain u v l l' where i: "mem_pageframeallocator_init mm s = Inr (v\<lparr>klog := l\<rparr>)"
    and v: "v = fold (\<lambda>i. mem_pageframeallocator_lockPage (seg + of_nat (i * 4096)))
               [0..<unat (bitmap_pages mm)] u"
    and u: "u = (prepared mm (mem_hhdmOffset s + seg) (s\<lparr>memmap_info := mm, memEnd := e, klog := l'\<rparr>))
               \<lparr>mem_usedMemory := 0, mem_freeMemory := sz, oomPanics := True\<rparr>"
    using init_Inr [OF assms] by metis
  note pr = prepared_facts [OF small, of "mem_hhdmOffset s + seg"
      "s\<lparr>memmap_info := mm, memEnd := e, klog := l'\<rparr>"]
  have "pfa_inv u" using pr(1) by (simp add: u pfa_inv_def)
  then have "pfa_inv v" unfolding v by (rule fold_lockPage(1))
  moreover have "free_pages v = free_pages u - reserved_pages mm seg"
    unfolding v fold_lockPage(4) reserved_pages_def set_upt ..
  moreover have "free_pages u = free_pages (prepared mm (mem_hhdmOffset s + seg)
      (s\<lparr>memmap_info := mm, memEnd := e, klog := l'\<rparr>))"
    by (simp add: u free_pages_def)
  moreover have "mem_getTotalRAM v = mem_getTotalRAM u"
    unfolding v by (rule fold_inv) (simp_all add: total_lockPage)
  moreover have "oomPanics v" and "mem_pfaBitmap v = mem_pfaBitmap u"
    unfolding v fold_lockPage by (simp_all add: u)
  ultimately show ?thesis
    by (intro that [OF i]) (simp_all add: pr u mem_getTotalRAM_def)
qed

text \<open>\<open>init\<close> writes only the bitmap and the byte behind it.\<close>

lemma lockPages_frame:
  assumes "pfa_inv s" and "\<not> in_region (Buffer (mem_pfaBitmap s)) (Suc (unat (Size (mem_pfaBitmap s)))) x"
  shows "ram (fold (\<lambda>i. mem_pageframeallocator_lockPage (f i)) is s) x = ram s x"
  by (rule fold_inv [where P = "\<lambda>t. pfa_inv t \<and> mem_pfaBitmap t = mem_pfaBitmap s \<and> ram t x = ram s x", THEN conjunct2, THEN conjunct2])
    (use assms in \<open>auto simp: lockPage_frame lockPage_inv\<close>)

lemma free_usable_frame:
  assumes "pfa_inv s" and "\<not> in_region (Buffer (mem_pfaBitmap s)) (Suc (unat (Size (mem_pfaBitmap s)))) x"
  shows "ram (fold free_usable mm s) x = ram s x"
proof -
  let ?P = "\<lambda>t :: 'a pfa_scheme. pfa_inv t \<and> mem_pfaBitmap t = mem_pfaBitmap s \<and> ram t x = ram s x"
  have "?P (mem_pageframeallocator_freePages a n t)" if "?P t" for a n t
    unfolding mem_pageframeallocator_freePages_def
    by (rule fold_inv [where P = ?P]) (use that assms(2) in \<open>auto simp: freePage_frame freePage_inv\<close>)
  moreover have "?P (t\<lparr>klog := l\<rparr>)" if "?P t" for t l using that by (auto simp: pfa_inv_def)
  ultimately have "?P (free_usable y t)" if "?P t" for y t using that by (simp add: free_usable_def Let_def)
  then show ?thesis using assms(1) fold_inv [where P = ?P and xs = mm and g = free_usable and s = s] by blast
qed

lemma init_frame:
  assumes scan: "fold scan_entry mm (0, 0, memEnd s) = (seg, sz, e)"
    and seg: "seg \<noteq> 0" and small: "getMemoryArealSize mm \<le> 2 ^ 31"
    and t: "mem_pageframeallocator_init mm s = Inr t"
    and x: "\<not> in_region (mem_hhdmOffset s + seg) (Suc (unat (bitmap_bytes mm))) x"
  shows "ram t x = ram s x"
proof -
  obtain u v l l' where i: "mem_pageframeallocator_init mm s = Inr (v\<lparr>klog := l\<rparr>)"
    and v: "v = fold (\<lambda>i. mem_pageframeallocator_lockPage (seg + of_nat (i * 4096)))
               [0..<unat (bitmap_pages mm)] u"
    and u: "u = (prepared mm (mem_hhdmOffset s + seg) (s\<lparr>memmap_info := mm, memEnd := e, klog := l'\<rparr>))
               \<lparr>mem_usedMemory := 0, mem_freeMemory := sz, oomPanics := True\<rparr>"
    using init_Inr [OF scan seg small] by metis
  let ?s = "s\<lparr>memmap_info := mm, memEnd := e, klog := l'\<rparr>" and ?a = "mem_hhdmOffset s + seg"
  let ?c = "cleared (bitmap_bytes mm) ?a ?s"
  note pr = prepared_facts [OF small, of ?a ?s]
  have c: "pfa_inv ?c" "mem_pfaBitmap ?c = \<lparr>Size = bitmap_bytes mm, Buffer = ?a\<rparr>"
    unfolding cleared_def using map_size_bounds(3) [OF small] by (intro clear_bitmap_free; simp)+ simp
  have "ram (prepared mm ?a ?s) x = ram ?c x"
    unfolding prepared_def using c x
    by (subst free_usable_frame) (simp_all add: fold_lockPage lockPages_frame)
  also have "ram ?c x = ram s x" using x in_region_mono [of ?a "unat (bitmap_bytes mm)" x "Suc (unat (bitmap_bytes mm))"]
    by (auto simp: cleared_def)
  finally have ux: "ram u x = ram s x" by (simp add: u)
  have "pfa_inv u" "mem_pfaBitmap u = \<lparr>Size = bitmap_bytes mm, Buffer = ?a\<rparr>" using pr(1,2) by (simp_all add: u pfa_inv_def)
  then have "ram v x = ram u x" unfolding v using x by (intro lockPages_frame) simp_all
  with ux i t show ?thesis by auto
qed

section \<open>Aligned entries\<close>

text \<open>What the boot protocol promises of usable entries: page alignment, and no wrap-around.\<close>

definition limine_map_ok :: "memmap \<Rightarrow> bool" where
  "limine_map_ok mm \<longleftrightarrow> (\<forall>e\<in>set mm. is_usable e \<longrightarrow>
     entry_base e mod 4096 = 0 \<and> entry_length e mod 4096 = 0 \<and>
     unat (entry_base e) + unat (entry_length e) < 2 ^ 64)"

lemma page_step:
  fixes base i :: u64
  assumes "base mod 4096 = 0" and "unat base + unat i * 4096 < 2 ^ 64"
  shows "unat (base + i * 4096) = unat base + unat i * 4096"
    and "unat ((base + i * 4096) div 4096) = unat base div 4096 + unat i"
proof -
  have m: "unat (i * 4096) = unat i * 4096"
    using assms(2) unat_mult_no_wrap [of i 4096] by simp
  with assms(2) show u: "unat (base + i * 4096) = unat base + unat i * 4096"
    using unat_add_no_wrap [of base "i * 4096"] by simp
  show "unat ((base + i * 4096) div 4096) = unat base div 4096 + unat i"
    by (simp add: unat_div u)
qed

lemma div_4096_mult: "n mod 4096 = 0 \<Longrightarrow> unat (n div 4096) * 4096 = unat n" for n :: u64
proof -
  assume "n mod 4096 = 0"
  then have "unat (n mod 4096) = 0" by simp
  then have m: "unat n mod 4096 = 0" by (simp add: unat_mod)
  have "unat (n div 4096) = unat n div 4096" by (simp add: unat_div)
  then show ?thesis using div_mult_mod_eq [of "unat n" 4096] m by linarith
qed

lemma entry_page_bounds:
  assumes ok: "limine_map_ok mm" and e: "e \<in> set mm" "is_usable e" and j: "j \<in> entry_pages e"
  shows "unat (entry_base e) \<le> unat j * 4096"
    and "unat j * 4096 + 4096 \<le> unat (entry_base e) + unat (entry_length e)"
proof -
  from j obtain i where i: "i < entry_length e div 4096" "j = (entry_base e + i * 4096) div 4096"
    by (auto simp: entry_pages_def)
  have a: "entry_base e mod 4096 = 0" "entry_length e mod 4096 = 0"
      "unat (entry_base e) + unat (entry_length e) < 2 ^ 64"
    using ok e by (auto simp: limine_map_ok_def)
  have l: "unat i * 4096 + 4096 \<le> unat (entry_length e)"
    using i(1) div_4096_mult [OF a(2)] by (simp add: word_less_nat_alt)
  with a(3) have "unat j = unat (entry_base e) div 4096 + unat i"
    unfolding i(2) by (intro page_step a(1)) simp
  then have "unat j * 4096 = unat (entry_base e) + unat i * 4096"
    using div_4096_mult [OF a(1)] by (simp add: unat_div)
  with l show "unat (entry_base e) \<le> unat j * 4096"
    and "unat j * 4096 + 4096 \<le> unat (entry_base e) + unat (entry_length e)" by simp_all
qed

lemma entry_pages_card:
  assumes ok: "limine_map_ok mm" and e: "e \<in> set mm" "is_usable e"
  shows "card (entry_pages e) = unat (entry_length e div 4096)"
proof -
  have a: "entry_base e mod 4096 = 0" "entry_length e mod 4096 = 0"
      "unat (entry_base e) + unat (entry_length e) < 2 ^ 64"
    using ok e by (auto simp: limine_map_ok_def)
  have "inj_on (\<lambda>i. (entry_base e + i * 4096) div 4096) {i. i < entry_length e div 4096}"
  proof (rule inj_onI)
    fix x y assume xy: "x \<in> {i. i < entry_length e div 4096}" "y \<in> {i. i < entry_length e div 4096}"
      and eq: "(entry_base e + x * 4096) div 4096 = (entry_base e + y * 4096) div 4096"
    have "unat ((entry_base e + z * 4096) div 4096) = unat (entry_base e) div 4096 + unat z"
      if "z < entry_length e div 4096" for z
      using that a(3) div_4096_mult [OF a(2)]
      by (intro page_step a(1)) (simp add: word_less_nat_alt)
    from this [of x] this [of y] eq xy show "x = y" by (intro word_eqI_unat) simp
  qed
  moreover have "card {i. i < entry_length e div 4096} = unat (entry_length e div 4096)"
  proof -
    have "{i. i < entry_length e div 4096} = set (count_upto (entry_length e div 4096))" by auto
    then show ?thesis by (simp only: distinct_card [OF distinct_count_upto] length_count_upto)
  qed
  ultimately show ?thesis by (simp add: entry_pages_def card_image)
qed

section \<open>Only usable memory is handed out\<close>

text \<open>
  \<open>pfa_backed U s\<close>: the byte counter does not exceed the free pages in \<open>U\<close>, and the other
  pages that the bitmap calls free (the bits between the end of the map and the end of its last
  byte) lie above all of \<open>U\<close>. As \<open>requestPage\<close> stops below 16384 bytes, they are never reached.
\<close>

definition pfa_backed :: "u64 set \<Rightarrow> 'z pfa_scheme \<Rightarrow> bool" where
  "pfa_backed U s \<longleftrightarrow> pfa_inv s \<and> oomPanics s \<and> (\<forall>j\<in>U. j < page_count s) \<and>
     (\<forall>j\<in>free_pages s - U. \<forall>k\<in>U. k < j) \<and>
     unat (mem_freeMemory s) \<le> 4096 * card (free_pages s \<inter> U)"

lemma backed_request:
  assumes b: "pfa_backed U s" and r: "mem_pageframeallocator_requestPage s = Inr (p, t)"
  shows "p div 4096 \<in> U" and "p = p div 4096 * 4096" and "pfa_backed U t"
proof -
  have inv: "pfa_inv s" and oom: "oomPanics s" using b by (auto simp: pfa_backed_def)
  note q = requestPage_Inr [OF inv r]
  have f: "16384 \<le> unat (mem_freeMemory s)"
    using r requestPage_spec [OF inv] oom
    by (auto simp: Let_def word_less_nat_alt not_less split: if_splits)
  then have "card (free_pages s \<inter> U) \<noteq> 0" using b unfolding pfa_backed_def by force
  then obtain k where k: "k \<in> free_pages s" "k \<in> U" by (auto simp: card_eq_0_iff)
  have "Min (free_pages s) \<in> U"
  proof (rule ccontr)
    assume "Min (free_pages s) \<notin> U"
    with k(2) q(2) b have "k < Min (free_pages s)" by (auto simp: pfa_backed_def)
    with Min_le [OF finite_free_pages k(1)] show False by (meson leD)
  qed
  with q(1,3) show U: "p div 4096 \<in> U" and "p = p div 4096 * 4096" by simp_all
  have lt: "p div 4096 < page_count s" "p div 4096 \<in> free_pages s"
    using q(2,3) by (auto simp: free_pages_lt)
  have "mem_freeMemory t = mem_freeMemory s - 4096"
    using lt unfolding q(4) by (subst lockPage_free_counter) (auto simp: free_pages_def)
  moreover have "unat (mem_freeMemory s - 4096) = unat (mem_freeMemory s) - 4096"
    using f unat_sub_le [of 4096 "mem_freeMemory s"] by simp
  moreover have "card (free_pages t \<inter> U) = card (free_pages s \<inter> U) - 1"
  proof -
    have "free_pages t \<inter> U = (free_pages s \<inter> U) - {p div 4096}" using q(3,5) by auto
    with lt(2) U show ?thesis by simp
  qed
  moreover have "mem_pfaBitmap t = mem_pfaBitmap s" "oomPanics t" using oom by (simp_all add: q(4))
  ultimately show "pfa_backed U t"
    using b f q(5,6) by (auto simp: pfa_backed_def)
qed

lemma backed_free:
  assumes b: "pfa_backed U s" and p: "p div 4096 \<in> U"
  shows "pfa_backed U (mem_pageframeallocator_freePage p s)"
proof -
  let ?t = "mem_pageframeallocator_freePage p s"
  have lt: "p div 4096 < page_count s" using b p by (auto simp: pfa_backed_def)
  then have f: "free_pages ?t = insert (p div 4096) (free_pages s)" by (simp add: freePage_free_pages)
  have "unat (mem_freeMemory ?t) \<le> 4096 * card (free_pages ?t \<inter> U)"
  proof (cases "page_bit s (p div 4096)")
    case True
    then have "p div 4096 \<notin> free_pages s" by (simp add: free_pages_def)
    then have "card (free_pages ?t \<inter> U) = Suc (card (free_pages s \<inter> U))"
      using p by (simp add: f Int_insert_left)
    moreover have "unat (mem_freeMemory s + 4096) \<le> unat (mem_freeMemory s) + 4096"
      using unat_plus_le [of "mem_freeMemory s" 4096] by simp
    ultimately show ?thesis using b True by (simp add: freePage_counters pfa_backed_def)
  next
    case False
    with lt have "p div 4096 \<in> free_pages s" by (simp add: free_pages_def)
    then have "free_pages ?t = free_pages s" by (simp add: f insert_absorb)
    with b False show ?thesis by (simp add: freePage_counters pfa_backed_def)
  qed
  with b p f show ?thesis by (auto simp: pfa_backed_def freePage_inv)
qed

lemma map_pages_lt_bits:
  assumes "getMemoryArealSize mm \<le> 2 ^ 31"
  shows "map_pages mm < bitmap_bytes mm * 8"
proof -
  note b = map_size_bounds [OF assms]
  have "unat (bitmap_bytes mm * 8) = unat (bitmap_bytes mm) * 8"
    using b(3) unat_mult_no_wrap [of "bitmap_bytes mm" 8] by simp
  also have "\<dots> = (unat (map_pages mm) div 8 + 1) * 8" by (simp only: b(2))
  finally have "unat (map_pages mm) < unat (bitmap_bytes mm * 8)"
    using dividend_less_div_times [of 8 "unat (map_pages mm)"] by simp
  then show ?thesis by (simp only: word_less_nat_alt)
qed

lemma usable_in_map:
  assumes "limine_map_ok mm" and "j \<in> usable_pages mm"
  shows "j < map_pages mm"
proof -
  from assms(2) obtain e where e: "e \<in> set mm" "is_usable e" "j \<in> entry_pages e"
    by (auto simp: usable_pages_def)
  have "unat (entry_end e) = unat (entry_base e) + unat (entry_length e)"
    using assms(1) e(1,2) unat_add_no_wrap [of "entry_base e" "entry_length e"]
    by (auto simp: limine_map_ok_def entry_end_def)
  moreover have "unat (entry_end e) \<le> unat (getMemoryArealSize mm)"
    using getMemoryArealSize_ge [OF e(1)] by (simp add: word_le_nat_alt)
  ultimately have "unat j * 4096 + 4096 \<le> unat (getMemoryArealSize mm)"
    using entry_page_bounds(2) [OF assms(1) e] by linarith
  then show ?thesis by (simp add: word_less_nat_alt unat_div)
qed

lemma reserved_in_segment:
  assumes ok: "limine_map_ok mm" and x: "x \<in> set mm" "is_usable x"
    and fits: "unat (bitmap_pages mm) * 4096 \<le> unat (entry_length x)"
  shows "reserved_pages mm (entry_base x) \<subseteq> entry_pages x"
    and "inj_on (\<lambda>i. (entry_base x + of_nat (i * 4096)) div 4096) {0..<unat (bitmap_pages mm)}"
proof -
  have a: "entry_base x mod 4096 = 0" "entry_length x mod 4096 = 0"
      "unat (entry_base x) + unat (entry_length x) < 2 ^ 64"
    using ok x by (auto simp: limine_map_ok_def)
  have i: "unat (of_nat i :: u64) = i" "(of_nat i :: u64) < entry_length x div 4096"
    if "i < unat (bitmap_pages mm)" for i
  proof -
    have "i * 4096 < unat (entry_length x)" using that fits by linarith
    then show u: "unat (of_nat i :: u64) = i"
      using unat_lt_64 [of "entry_length x"] by (intro unat_of_nat_small) simp
    have "i < unat (entry_length x div 4096)"
      using that fits div_4096_mult [OF a(2)] by linarith
    with u show "(of_nat i :: u64) < entry_length x div 4096" by (simp only: word_less_nat_alt)
  qed
  then show "reserved_pages mm (entry_base x) \<subseteq> entry_pages x"
    by (auto simp: reserved_pages_def entry_pages_def intro!: imageI)
  show "inj_on (\<lambda>i. (entry_base x + of_nat (i * 4096)) div 4096) {0..<unat (bitmap_pages mm)}"
  proof (rule inj_onI)
    fix y z assume y: "y \<in> {0..<unat (bitmap_pages mm)}" and z: "z \<in> {0..<unat (bitmap_pages mm)}"
      and eq: "(entry_base x + of_nat (y * 4096)) div 4096 = (entry_base x + of_nat (z * 4096)) div 4096"
    have "unat ((entry_base x + of_nat k * 4096) div 4096) = unat (entry_base x) div 4096 + k"
      if "k < unat (bitmap_pages mm)" for k
      using that fits a(3) i(1) [OF that] page_step(2) [OF a(1), of "of_nat k"] by simp
    moreover have "unat ((entry_base x + of_nat y * 4096) div 4096) =
        unat ((entry_base x + of_nat z * 4096) div 4096)"
      using arg_cong [OF eq, of unat] by (simp only: of_nat_mult of_nat_numeral)
    ultimately show "y = z" using y z by (metis atLeastLessThan_iff add_left_cancel)
  qed
qed

lemma fold_lockPage_counter:
  assumes "distinct is" and "inj_on (\<lambda>i. f i div 4096) (set is)"
    and "\<forall>i\<in>set is. f i div 4096 \<in> free_pages s"
  shows "mem_freeMemory (fold (\<lambda>i. mem_pageframeallocator_lockPage (f i)) is s) =
         mem_freeMemory s - of_nat (length is) * 4096"
  using assms
proof (induction "is" arbitrary: s)
  case (Cons i "is")
  let ?s = "mem_pageframeallocator_lockPage (f i) s"
  have "f i div 4096 \<in> free_pages s" using Cons.prems(3) by simp
  then have "mem_freeMemory ?s = mem_freeMemory s - 4096"
    by (subst lockPage_free_counter) (auto simp: free_pages_lt)
  moreover have "\<forall>k\<in>set is. f k div 4096 \<in> free_pages ?s"
    using Cons.prems by (auto simp: lockPage_free_pages inj_on_def)
  ultimately have "mem_freeMemory (fold (\<lambda>i. mem_pageframeallocator_lockPage (f i)) is ?s) =
      mem_freeMemory s - 4096 - of_nat (length is) * 4096"
    using Cons.IH [of ?s] Cons.prems by simp
  then show ?case by (simp add: diff_diff_eq distrib_right)
qed simp

text \<open>The counter after \<open>init\<close>: the largest segment less the pages of the bitmap.\<close>

lemma init_counter:
  assumes ok: "limine_map_ok mm" and x: "x \<in> set mm" "is_usable x"
    and scan: "fold scan_entry mm (0, 0, memEnd s) = (entry_base x, entry_length x, e)"
    and seg: "entry_base x \<noteq> 0" and small: "getMemoryArealSize mm \<le> 2 ^ 31"
    and fits: "unat (bitmap_pages mm) * 4096 \<le> unat (entry_length x)"
    and t: "mem_pageframeallocator_init mm s = Inr t"
  shows "unat (mem_freeMemory t) = unat (entry_length x) - unat (bitmap_pages mm) * 4096"
proof -
  obtain u v l l' where i: "mem_pageframeallocator_init mm s = Inr (v\<lparr>klog := l\<rparr>)"
    and v: "v = fold (\<lambda>i. mem_pageframeallocator_lockPage (entry_base x + of_nat (i * 4096)))
               [0..<unat (bitmap_pages mm)] u"
    and u: "u = (prepared mm (mem_hhdmOffset s + entry_base x)
                   (s\<lparr>memmap_info := mm, memEnd := e, klog := l'\<rparr>))
               \<lparr>mem_usedMemory := 0, mem_freeMemory := entry_length x, oomPanics := True\<rparr>"
    using init_Inr [OF scan seg small] by metis
  have "free_pages u = free_pages (prepared mm (mem_hhdmOffset s + entry_base x)
      (s\<lparr>memmap_info := mm, memEnd := e, klog := l'\<rparr>))"
    by (simp add: u free_pages_def)
  then have "j \<in> free_pages u" if "j \<in> usable_pages mm" for j
    using that usable_in_map [OF ok that] map_pages_lt_bits [OF small]
    unfolding prepared_facts(3) [OF small] by force
  moreover have "reserved_pages mm (entry_base x) \<subseteq> usable_pages mm"
    using reserved_in_segment(1) [OF ok x fits] x by (auto simp: usable_pages_def)
  ultimately have "\<forall>i\<in>set [0..<unat (bitmap_pages mm)].
      (entry_base x + of_nat (i * 4096)) div 4096 \<in> free_pages u"
    unfolding reserved_pages_def by auto
  then have "mem_freeMemory v = mem_freeMemory u - of_nat (unat (bitmap_pages mm)) * 4096"
    unfolding v using reserved_in_segment(2) [OF ok x fits]
    by (subst fold_lockPage_counter) simp_all
  then have f: "mem_freeMemory t = entry_length x - bitmap_pages mm * 4096"
    using i t by (simp add: u)
  have m: "unat (bitmap_pages mm * 4096) = unat (bitmap_pages mm) * 4096"
    using map_size_bounds(5) [OF small] unat_mult_no_wrap [of "bitmap_pages mm" 4096] by simp
  show ?thesis unfolding f m [symmetric] using fits by (intro unat_sub_le) (simp only: m)
qed

lemma init_backed:
  assumes ok: "limine_map_ok mm" and scan: "fold scan_entry mm (0, 0, memEnd s) = (seg, sz, e)"
    and seg: "seg \<noteq> 0" and small: "getMemoryArealSize mm \<le> 2 ^ 31"
    and fits: "unat (bitmap_pages mm) * 4096 \<le> unat sz"
    and t: "mem_pageframeallocator_init mm s = Inr t"
  shows "pfa_backed (usable_pages mm - reserved_pages mm seg) t"
proof -
  let ?U = "usable_pages mm - reserved_pages mm seg"
  obtain x where x: "x \<in> set mm" "is_usable x" and sx: "seg = entry_base x" "sz = entry_length x"
    using scan_largest [OF scan] seg by auto
  obtain t' where "mem_pageframeallocator_init mm s = Inr t'" and i': "pfa_inv t'" "oomPanics t'"
      "mem_pfaBitmap t' = \<lparr>Size = bitmap_bytes mm, Buffer = mem_hhdmOffset s + seg\<rparr>"
    and f': "free_pages t' = ({j. j < bitmap_bytes mm * 8} - {j. j < map_pages mm}
           \<union> {j. j < bitmap_bytes mm * 8 \<and> j \<in> usable_pages mm}) - reserved_pages mm seg"
    by (rule init_facts [OF scan seg small])
  with t have "t' = t" by simp
  note i = i' [unfolded this] and f = f' [unfolded this]
  have lt: "j < map_pages mm" "j < bitmap_bytes mm * 8" if "j \<in> usable_pages mm" for j
    using usable_in_map [OF ok that] map_pages_lt_bits [OF small] by force+
  then have "free_pages t \<inter> ?U = ?U" unfolding f by blast
  moreover have "unat (sz div 4096) - unat (bitmap_pages mm) \<le> card ?U"
  proof -
    have "card (entry_pages x) - card (reserved_pages mm seg) \<le> card (entry_pages x - reserved_pages mm seg)"
      by (rule diff_card_le_card_Diff) simp
    moreover have "card (entry_pages x - reserved_pages mm seg) \<le> card ?U"
      using x by (intro card_mono) (auto simp: usable_pages_def)
    moreover have "card (reserved_pages mm seg) \<le> unat (bitmap_pages mm)"
      unfolding reserved_pages_def by (rule card_image_le [THEN order_trans]) simp_all
    ultimately show ?thesis using entry_pages_card [OF ok x] sx by simp
  qed
  moreover have "unat (sz div 4096) * 4096 = unat sz"
    using ok x sx by (intro div_4096_mult) (auto simp: limine_map_ok_def)
  moreover have "unat (mem_freeMemory t) = unat sz - unat (bitmap_pages mm) * 4096"
    using init_counter [OF ok x _ _ small _ t] scan seg fits by (simp add: sx)
  ultimately have "unat (mem_freeMemory t) \<le> 4096 * card (free_pages t \<inter> ?U)"
    using diff_mult_distrib [of "unat (sz div 4096)" "unat (bitmap_pages mm)" 4096] by simp
  moreover have "k < j" if "j \<in> free_pages t - ?U" "k \<in> ?U" for j k
    using that lt(1) [of k] unfolding f by (auto simp: not_less)
  ultimately show ?thesis
    using i lt unfolding pfa_backed_def by auto
qed

lemma backed_request_succeeds:
  assumes "pfa_backed U s" and "16384 \<le> unat (mem_freeMemory s)"
  shows "\<exists>p t. mem_pageframeallocator_requestPage s = Inr (p, t)"
proof -
  have "card (free_pages s \<inter> U) \<noteq> 0" using assms unfolding pfa_backed_def by force
  then have "free_pages s \<noteq> {}" by auto
  with assms show ?thesis
    using requestPage_spec [of s] by (auto simp: pfa_backed_def Let_def word_less_nat_alt)
qed

text \<open>One call of a client that requests frames and returns frames of \<open>U\<close>.\<close>

inductive client_step :: "u64 set \<Rightarrow> 'z pfa_scheme \<Rightarrow> 'z pfa_scheme \<Rightarrow> bool" for U where
  request: "mem_pageframeallocator_requestPage s = Inr (p, t) \<Longrightarrow> client_step U s t"
| release: "p div 4096 \<in> U \<Longrightarrow> client_step U s (mem_pageframeallocator_freePage p s)"

lemma client_steps_backed:
  "(client_step U)\<^sup>*\<^sup>* s t \<Longrightarrow> pfa_backed U s \<Longrightarrow> pfa_backed U t"
proof (induction rule: rtranclp_induct)
  case (step t u)
  from step.hyps(2) step.IH [OF step.prems] show ?case
    by cases (auto intro: backed_request(3) backed_free)
qed

text \<open>The byte counter bounds the number of requests that succeed.\<close>

lemma requestPage_counter:
  assumes inv: "pfa_inv s" and oom: "oomPanics s"
    and r: "mem_pageframeallocator_requestPage s = Inr (p, t)"
  shows "16384 \<le> unat (mem_freeMemory s)" and "unat (mem_freeMemory t) = unat (mem_freeMemory s) - 4096"
    and "oomPanics t"
proof -
  note q = requestPage_Inr [OF inv r]
  show f: "16384 \<le> unat (mem_freeMemory s)"
    using r requestPage_spec [OF inv] oom
    by (auto simp: Let_def word_less_nat_alt not_less split: if_splits)
  have "p div 4096 < page_count s" "p div 4096 \<in> free_pages s"
    using q(2,3) by (auto simp: free_pages_lt)
  then have "mem_freeMemory t = mem_freeMemory s - 4096"
    unfolding q(4) by (subst lockPage_free_counter) (auto simp: free_pages_def)
  then show "unat (mem_freeMemory t) = unat (mem_freeMemory s) - 4096"
    using f unat_sub_le [of 4096 "mem_freeMemory s"] by simp
  show "oomPanics t" using oom by (simp add: q(4))
qed

lemma request_many_counter:
  "pfa_inv s \<Longrightarrow> oomPanics s \<Longrightarrow> request_many mem_pageframeallocator_requestPage n s = Inr (ps, t) \<Longrightarrow>
   n = 0 \<or> n * 4096 + 12288 \<le> unat (mem_freeMemory s)"
proof (induction n arbitrary: s ps)
  case (Suc n)
  then obtain p u qs where r: "mem_pageframeallocator_requestPage s = Inr (p, u)"
    "request_many mem_pageframeallocator_requestPage n u = Inr (qs, t)"
    by (auto simp: bind_r_eq_Inr)
  note c = requestPage_counter [OF Suc.prems(1,2) r(1)]
  have "n = 0 \<or> n * 4096 + 12288 \<le> unat (mem_freeMemory u)"
    using Suc.IH [OF requestPage_Inr(6) [OF Suc.prems(1) r(1)] c(3) r(2)] .
  with c(1,2) show ?case by auto
qed simp

section \<open>Properties\<close>

text \<open>C5: on a memory map that ends at or below 2 GiB, let \<open>x\<close> be the first of its largest usable entries. If \<open>x\<close> does not start at
  address 0, \<open>init\<close> returns with its invariant established, the bitmap at the start of \<open>x\<close>, the reported total equal to the
  length of \<open>x\<close>, and these pages free: the usable ones and the spare bits at the end of the bitmap, without the pages reserved for
  the bitmap.\<close>

theorem init_establishes:
  assumes "largest_segment mm = Some x" and "entry_base x \<noteq> 0" and "getMemoryArealSize mm \<le> 2 ^ 31"
  shows "\<exists>t. mem_pageframeallocator_init mm s = Inr t \<and> pfa_inv t \<and> oomPanics t \<and>
     mem_pfaBitmap t = \<lparr>Size = bitmap_bytes mm, Buffer = mem_hhdmOffset s + entry_base x\<rparr> \<and>
     mem_getTotalRAM t = entry_length x \<and>
     free_pages t = ({j. j < bitmap_bytes mm * 8} - {j. j < map_pages mm}
         \<union> {j. j < bitmap_bytes mm * 8 \<and> j \<in> usable_pages mm}) - reserved_pages mm (entry_base x)"
proof -
  obtain e where "fold scan_entry mm (0, 0, memEnd s) = (entry_base x, entry_length x, e)" using scan_largest_segment [OF assms(1)] by blast
  from init_facts [OF this assms(2,3)] show ?thesis by blast
qed

definition boot_map :: memmap where
  "boot_map =
     [\<lparr>entry_base = 0x1000, entry_length = 0x9e000, entry_type = 0\<rparr>,
      \<lparr>entry_base = 0x9fc00, entry_length = 0x400, entry_type = 1\<rparr>,
      \<lparr>entry_base = 0x100000, entry_length = 0x700000, entry_type = 0\<rparr>]"

lemma boot_map_scan:
  "fold scan_entry boot_map (0, 0, memEnd pfa_example) = (0x100000, 0x700000, 0x800000)"
  by (simp add: boot_map_def scan_entry_def entry_end_def pfa_example_def)

lemma boot_map_size: "getMemoryArealSize boot_map = 0x800000"
  by (simp add: boot_map_def getMemoryArealSize_def entry_end_def)

lemma boot_map_largest: "largest_segment boot_map = Some \<lparr>entry_base = 0x100000, entry_length = 0x700000, entry_type = 0\<rparr>"
  by (simp add: largest_segment_def boot_map_def is_usable_def)

theorem init_establishes_witness:
  "\<exists>t. mem_pageframeallocator_init boot_map pfa_example = Inr t \<and> pfa_inv t \<and>
       mem_getTotalRAM t = 0x700000"
  using init_establishes [OF boot_map_largest] by (auto simp: boot_map_size)

text \<open>C22: \<open>lockPages\<close> multiplies an \<open>int\<close> counter by 4096. On every memory map with a usable
  segment that ends above 2 GiB (and below 32 TiB, where the bitmap counter is still in range) the
  product overflows while \<open>init\<close> locks the map, so the boot has no defined behaviour.\<close>

theorem init_undefined_above_2GiB:
  assumes "fold scan_entry mm (0, 0, memEnd s) = (seg, sz, e)" and "seg \<noteq> 0"
    and "2 ^ 31 + 4096 \<le> unat (getMemoryArealSize mm)" and "unat (getMemoryArealSize mm) < 2 ^ 45"
  shows "mem_pageframeallocator_init mm s = Inl (Undefined ''signed overflow of i * 4096'')"
proof -
  have "unat (bitmap_bytes mm) \<le> unat (getMemoryArealSize mm div 4096 div 8) + 1"
    using unat_plus_le [of "getMemoryArealSize mm div 4096 div 8" 1] by simp
  then have b: "unat (bitmap_bytes mm) \<le> INT_MAX"
    using assms(4) by (simp add: unat_div INT_MAX_def)
  have p: "2 ^ 19 < unat (map_pages mm)" using assms(3) by (simp add: unat_div)
  show ?thesis
    unfolding mem_pageframeallocator_init_def
    using assms(1,2) by (simp add: Let_def initBitmap_ok [OF b] lockPages_overflow [OF p])
qed

definition qemu_map :: memmap where
  "qemu_map =
     [\<lparr>entry_base = 0x1000, entry_length = 0x9e000, entry_type = 0\<rparr>,
      \<lparr>entry_base = 0x100000, entry_length = 0x7ee0000, entry_type = 0\<rparr>,
      \<lparr>entry_base = 0xfffc0000, entry_length = 0x40000, entry_type = 1\<rparr>]"

theorem init_undefined_above_2GiB_witness:
  "mem_pageframeallocator_init qemu_map pfa_example =
     Inl (Undefined ''signed overflow of i * 4096'')"
proof -
  have "fold scan_entry qemu_map (0, 0, memEnd pfa_example) = (0x100000, 0x7ee0000, 0x100000000)"
    by (simp add: qemu_map_def scan_entry_def entry_end_def pfa_example_def)
  moreover have "getMemoryArealSize qemu_map = 0x100000000"
    by (simp add: qemu_map_def getMemoryArealSize_def entry_end_def)
  ultimately show ?thesis using init_undefined_above_2GiB [of qemu_map pfa_example] by simp
qed

lemma boot_map_ok: "limine_map_ok boot_map"
  by (simp add: limine_map_ok_def boot_map_def is_usable_def)

text \<open>C3: after \<open>init\<close> on such a map, whatever frames are requested and returned, every frame
  that \<open>requestPage\<close> hands out is page-aligned, lies wholly inside a usable entry of the memory map,
  and is none of the pages reserved for the bitmap, although the bitmap also has free bits for
  addresses beyond the end of memory.\<close>

theorem boot_hands_out_usable:
  assumes "limine_map_ok mm" and "fold scan_entry mm (0, 0, memEnd s) = (seg, sz, e)"
    and "seg \<noteq> 0" and "getMemoryArealSize mm \<le> 2 ^ 31"
    and "unat (bitmap_pages mm) * 4096 \<le> unat sz"
    and "mem_pageframeallocator_init mm s = Inr t"
    and "(client_step (usable_pages mm - reserved_pages mm seg))\<^sup>*\<^sup>* t u"
    and "mem_pageframeallocator_requestPage u = Inr (p, v)"
  shows "p mod 4096 = 0 \<and> p div 4096 \<notin> reserved_pages mm seg \<and>
    (\<exists>x\<in>set mm. is_usable x \<and> unat (entry_base x) \<le> unat p \<and>
       unat p + 4096 \<le> unat (entry_base x) + unat (entry_length x))"
proof -
  let ?U = "usable_pages mm - reserved_pages mm seg"
  have "pfa_backed ?U u"
    using client_steps_backed [OF assms(7)] init_backed [OF assms(1-6)] .
  note b = backed_request [OF this assms(8)]
  then obtain x where x: "x \<in> set mm" "is_usable x" "p div 4096 \<in> entry_pages x"
    by (auto simp: usable_pages_def)
  have p: "unat p = unat (p div 4096) * 4096" and "p mod 4096 = 0"
  proof -
    have "unat (p div 4096 * 4096) = unat (p div 4096) * 4096"
      using unat_lt_64 [of p] unat_mult_no_wrap [of "p div 4096" 4096] by (simp add: unat_div)
    with b(2) show "unat p = unat (p div 4096) * 4096" by simp
    have "p div 4096 * 4096 + p mod 4096 = p" by (rule div_mult_mod_eq)
    with b(2) show "p mod 4096 = 0" by (metis add_cancel_right_right)
  qed
  with b(1) x entry_page_bounds [OF assms(1) x] show ?thesis by auto
qed

lemma boot_map_facts:
  obtains t where "mem_pageframeallocator_init boot_map pfa_example = Inr t"
    and "pfa_backed (usable_pages boot_map - reserved_pages boot_map 0x100000) t"
    and "unat (mem_freeMemory t) = 0x6ff000"
proof -
  obtain t where t: "mem_pageframeallocator_init boot_map pfa_example = Inr t"
    using init_facts [OF boot_map_scan] by (auto simp: boot_map_size)
  moreover have "pfa_backed (usable_pages boot_map - reserved_pages boot_map 0x100000) t"
    using init_backed [OF boot_map_ok boot_map_scan _ _ _ t] by (simp add: boot_map_size)
  moreover have "unat (mem_freeMemory t) = 0x6ff000"
    using init_counter [OF boot_map_ok _ _ _ _ _ _ t,
        of "\<lparr>entry_base = 0x100000, entry_length = 0x700000, entry_type = 0\<rparr>" "0x800000"] boot_map_scan
    by (simp add: boot_map_size) (simp add: boot_map_def is_usable_def)
  ultimately show ?thesis by (rule that)
qed

theorem boot_hands_out_usable_witness:
  "\<exists>t p v. mem_pageframeallocator_init boot_map pfa_example = Inr t \<and>
     mem_pageframeallocator_requestPage t = Inr (p, v) \<and> p mod 4096 = 0 \<and>
     p div 4096 \<notin> reserved_pages boot_map 0x100000"
proof -
  obtain t where t: "mem_pageframeallocator_init boot_map pfa_example = Inr t"
    and b: "pfa_backed (usable_pages boot_map - reserved_pages boot_map 0x100000) t"
    and f: "unat (mem_freeMemory t) = 0x6ff000" by (rule boot_map_facts)
  obtain p v where r: "mem_pageframeallocator_requestPage t = Inr (p, v)"
    using backed_request_succeeds [OF b] f by auto
  with t boot_hands_out_usable [OF boot_map_ok boot_map_scan _ _ _ t rtranclp.rtrancl_refl r]
  show ?thesis by (auto simp: boot_map_size)
qed

text \<open>C23: the free counter starts from the largest usable entry alone, and \<open>requestPage\<close> halts when it falls below 16384. So however
  much other usable memory the map has, at most the pages of the largest entry, less the bitmap and three pages, can be
  allocated without freeing.\<close>

theorem requests_limited_to_largest_segment:
  assumes "limine_map_ok mm" and "largest_segment mm = Some x" and "entry_base x \<noteq> 0" and "getMemoryArealSize mm \<le> 2 ^ 31"
    and "unat (bitmap_pages mm) * 4096 \<le> unat (entry_length x)"
    and "mem_pageframeallocator_init mm s = Inr t"
    and "request_many mem_pageframeallocator_requestPage (Suc n) t = Inr (ps, u)"
  shows "(Suc n + unat (bitmap_pages mm) + 3) * 4096 \<le> unat (entry_length x)"
proof -
  obtain e where scan: "fold scan_entry mm (0, 0, memEnd s) = (entry_base x, entry_length x, e)"
    using scan_largest_segment [OF assms(2)] by blast
  have x: "x \<in> set mm" "is_usable x" using assms(2) by (auto simp: largest_segment_def find_Some_iff)
  have "pfa_inv t" "oomPanics t" using init_backed [OF assms(1) scan assms(3-6)] by (auto simp: pfa_backed_def)
  from request_many_counter [OF this assms(7)]
  have "Suc n * 4096 + 12288 \<le> unat (mem_freeMemory t)" by simp
  moreover have "unat (mem_freeMemory t) = unat (entry_length x) - unat (bitmap_pages mm) * 4096"
    using init_counter [OF assms(1) x _ _ assms(4) _ assms(6)] scan assms(3,5) by simp
  ultimately show ?thesis by (simp add: algebra_simps)
qed

theorem requests_limited_to_largest_segment_witness:
  "\<exists>t ps u. mem_pageframeallocator_init boot_map pfa_example = Inr t \<and>
     request_many mem_pageframeallocator_requestPage (Suc 0) t = Inr (ps, u) \<and>
     (Suc 0 + unat (bitmap_pages boot_map) + 3) * 4096 \<le> unat (0x700000 :: u64)"
proof -
  obtain t where t: "mem_pageframeallocator_init boot_map pfa_example = Inr t"
    and b: "pfa_backed (usable_pages boot_map - reserved_pages boot_map 0x100000) t"
    and f: "unat (mem_freeMemory t) = 0x6ff000" by (rule boot_map_facts)
  obtain p v where "mem_pageframeallocator_requestPage t = Inr (p, v)"
    using backed_request_succeeds [OF b] f by auto
  then have r: "request_many mem_pageframeallocator_requestPage (Suc 0) t = Inr ([p], v)" by simp
  then show ?thesis
    using t requests_limited_to_largest_segment [OF boot_map_ok boot_map_largest _ _ _ t r]
    by (auto simp: boot_map_size)
qed

end
