(* ===== verification/Paging_Walk.thy ===== *)
theory Paging_Walk
  imports Paging
begin

text \<open>
  The address space that a page table describes, and the effect of writing one entry on it. The
  walk is the specification: four levels of entries, each present, give the frame of a page.
\<close>

section \<open>Pages in memory\<close>

definition aligned :: "u64 \<Rightarrow> bool" where
  "aligned t \<longleftrightarrow> unat t mod 4096 = 0"

lemma alignedE:
  assumes "aligned t"
  obtains k where "unat t = 4096 * k"
  using assms unfolding aligned_def by (metis mod_0_imp_dvd dvdE)

lemma aligned_bound: "aligned t \<Longrightarrow> unat t + 4096 \<le> 2 ^ 64"
proof -
  assume "aligned t"
  then obtain k where k: "unat t = 4096 * k" by (rule alignedE)
  with unat_lt_64 [of t] have "k < 4503599627370496" by simp
  with k show ?thesis by simp
qed

lemma aligned_disjoint:
  assumes "aligned t" and "aligned t'" and "t \<noteq> t'"
  shows "region_disjoint t 4096 t' 4096"
proof (rule region_disjoint_no_wrap)
  obtain k l where kl: "unat t = 4096 * k" "unat t' = 4096 * l"
    using assms(1,2) by (metis alignedE)
  moreover have "unat t \<noteq> unat t'" using assms(3) word_eqI_unat by blast
  ultimately have "k < l \<or> l < k" by auto
  with kl show "unat t + 4096 \<le> unat t' \<or> unat t' + 4096 \<le> unat t" by auto
qed (use assms aligned_bound in simp_all)

lemma aligned_table_address: "aligned (push_bit 12 a)"
proof -
  have "take_bit 12 (push_bit 12 a) = 0"
    by (intro bit_word_eqI) (auto simp: bit_take_bit_iff bit_push_bit_iff)
  then have "take_bit 12 (unat (push_bit 12 a)) = 0"
    by (metis unat_0 unsigned_take_bit_eq)
  then show ?thesis by (simp add: aligned_def take_bit_eq_mod)
qed

lemma aligned_frame: "unat i < 2 ^ 52 \<Longrightarrow> aligned (i * 4096)"
  using unat_mult_no_wrap [of i 4096] by (simp add: aligned_def)

lemma unat_entry_addr:
  assumes "aligned t" and "i < 512"
  shows "unat (entry_addr t i) = unat t + 8 * unat i" and "unat i < 512"
proof -
  show i: "unat i < 512" using assms(2) by (simp add: word_less_nat_alt)
  then have "unat (8 * i) = 8 * unat i" using unat_mult_no_wrap [of 8 i] by simp
  then show "unat (entry_addr t i) = unat t + 8 * unat i"
    using i aligned_bound [OF assms(1)] unat_add_no_wrap [of t "8 * i"] by (simp add: entry_addr_def)
qed

lemma entry_in_page:
  assumes "aligned t" and "i < 512" and "in_region (entry_addr t i) 8 x"
  shows "in_region t 4096 x"
  using assms(3) unat_entry_addr [OF assms(1,2)] aligned_bound [OF assms(1)]
  by (simp add: in_region_no_wrap)

lemma entry_disjoint:
  assumes "aligned t" and "i < 512" and "j < 512" and "i \<noteq> j"
  shows "region_disjoint (entry_addr t i) 8 (entry_addr t j) 8"
proof (rule region_disjoint_no_wrap)
  have "unat i \<noteq> unat j" using assms(4) word_eqI_unat by blast
  then show "unat (entry_addr t i) + 8 \<le> unat (entry_addr t j) \<or>
      unat (entry_addr t j) + 8 \<le> unat (entry_addr t i)"
    using unat_entry_addr(1) [OF assms(1,2)] unat_entry_addr(1) [OF assms(1,3)] by linarith
qed (use unat_entry_addr [OF assms(1,2)] unat_entry_addr [OF assms(1,3)]
       aligned_bound [OF assms(1)] in linarith)+

lemma entry_page_disjoint:
  assumes "region_disjoint t 4096 a n" and "aligned t" and "i < 512"
  shows "region_disjoint (entry_addr t i) 8 a n"
  using assms entry_in_page unfolding region_disjoint_def by blast

section \<open>The walk\<close>

fun walk :: "mem \<Rightarrow> u64 \<Rightarrow> u64 list \<Rightarrow> u64 option" where
  "walk m t [] = Some t"
| "walk m t (i # is) =
     (let e = load64 m (entry_addr t i) in
      if GetFlag e Present then walk m (push_bit 12 (GetAddress e)) is else None)"

text \<open>The bits of an address that the processor uses at each of the four levels.\<close>

definition indices :: "u64 \<Rightarrow> u64 list" where
  "indices virt = map (\<lambda>k. take_bit 9 (drop_bit k virt)) [39, 30, 21, 12]"

lemma indices_code: "indices virt = (let x = PageMapIndexer_From virt in [PDP_i x, PD_i x, PT_i x, P_i x])"
proof -
  have "a AND 0x1ff = take_bit 9 a" for a :: u64 by (simp add: take_bit_eq_mask mask_eq_exp_minus_1)
  then show ?thesis by (simp add: indices_def PageMapIndexer_From_def Let_def drop_bit_drop_bit)
qed

text \<open>The frame that the page of \<open>virt\<close> is mapped to, if any.\<close>

definition translate :: "mem \<Rightarrow> u64 \<Rightarrow> u64 \<Rightarrow> u64 option" where
  "translate m PML4 virt = walk m PML4 (indices virt)"

definition idx_ok :: "u64 list \<Rightarrow> bool" where
  "idx_ok is \<longleftrightarrow> (\<forall>i\<in>set is. i < 512)"

lemma idx_ok_simps [simp]:
  "idx_ok []" "idx_ok (i # is) \<longleftrightarrow> i < 512 \<and> idx_ok is" "idx_ok (is @ js) \<longleftrightarrow> idx_ok is \<and> idx_ok js"
  by (auto simp: idx_ok_def)

lemma walk_append: "walk m t (is @ js) = Option.bind (walk m t is) (\<lambda>u. walk m u js)"
  by (induction "is" arbitrary: t) (simp_all add: Let_def)

lemma walk_snoc:
  "walk m t (is @ [i]) =
     (case walk m t is of None \<Rightarrow> None
      | Some u \<Rightarrow> let e = load64 m (entry_addr u i) in
          if GetFlag e Present then Some (push_bit 12 (GetAddress e)) else None)"
  by (simp add: walk_append Let_def split: option.split)

definition tables :: "mem \<Rightarrow> u64 \<Rightarrow> u64 set" where
  "tables m t = {u. \<exists>is. length is \<le> 3 \<and> idx_ok is \<and> walk m t is = Some u}"

text \<open>The tables form a tree of page-aligned tables: no table is reached along two paths.\<close>

definition pt_tree :: "mem \<Rightarrow> u64 \<Rightarrow> bool" where
  "pt_tree m t \<longleftrightarrow> (\<forall>u\<in>tables m t. aligned u) \<and>
     (\<forall>is js. length is \<le> 3 \<and> length js \<le> 3 \<and> idx_ok is \<and> idx_ok js \<and>
        walk m t is \<noteq> None \<and> walk m t is = walk m t js \<longrightarrow> is = js)"

lemma pt_tree_inj:
  "pt_tree m t \<Longrightarrow> length is \<le> 3 \<Longrightarrow> length js \<le> 3 \<Longrightarrow> idx_ok is \<Longrightarrow> idx_ok js \<Longrightarrow>
   walk m t is = Some u \<Longrightarrow> walk m t js = Some u \<Longrightarrow> is = js"
  unfolding pt_tree_def by (metis option.distinct(1))

lemma tablesI: "length is \<le> 3 \<Longrightarrow> idx_ok is \<Longrightarrow> walk m t is = Some u \<Longrightarrow> u \<in> tables m t"
  by (auto simp: tables_def)

text \<open>
  Writing entry \<open>i\<close> of the table reached along \<open>is\<close>, with a present entry \<open>e\<close>: either it is a
  last-level entry, or the entry was absent and \<open>e\<close> points to an empty table. Only the path
  \<open>is @ [i]\<close> changes.
\<close>

lemma walk_update:
  assumes tree: "pt_tree m t" and w: "walk m t is = Some u" and len: "length is \<le> 3"
    and ok: "idx_ok is" "i < 512"
    and upd: "\<And>x j. x \<in> tables m t \<Longrightarrow> j < 512 \<Longrightarrow>
       load64 m' (entry_addr x j) = (if x = u \<and> j = i then e else load64 m (entry_addr x j))"
    and e: "GetFlag e Present"
    and new: "length is = 3 \<or> \<not> GetFlag (load64 m (entry_addr u i)) Present \<and>
       (\<forall>j<512. \<not> GetFlag (load64 m' (entry_addr (push_bit 12 (GetAddress e)) j)) Present)"
  shows "length js \<le> 4 \<Longrightarrow> idx_ok js \<Longrightarrow>
     walk m' t js = (if js = is @ [i] then Some (push_bit 12 (GetAddress e)) else walk m t js)"
proof (induction js rule: rev_induct)
  case Nil
  then show ?case by simp
next
  case (snoc j js)
  then have js: "length js \<le> 3" "idx_ok js" "j < 512" by auto
  with snoc.IH have IH: "walk m' t js = (if js = is @ [i] then Some (push_bit 12 (GetAddress e)) else walk m t js)"
    by simp
  show ?case
  proof (cases "js = is @ [i]")
    case True
    with js(1) new have n: "\<not> GetFlag (load64 m (entry_addr u i)) Present"
      "\<not> GetFlag (load64 m' (entry_addr (push_bit 12 (GetAddress e)) j)) Present"
      using js(3) by auto
    then have "walk m' t (js @ [j]) = None"
      unfolding walk_snoc [of m' t js j] IH by (simp add: True Let_def)
    moreover have "walk m t js = None" unfolding True walk_snoc w by (simp add: n(1))
    then have "walk m t (js @ [j]) = None" by (simp add: walk_append)
    ultimately show ?thesis by (simp add: True)
  next
    case False
    show ?thesis
    proof (cases "walk m t js")
      case None
      with False IH have "js \<noteq> is" using w by auto
      with None False IH show ?thesis by (simp add: walk_snoc)
    next
      case (Some x)
      then have x: "x \<in> tables m t" using js by (intro tablesI)
      have "x = u \<longleftrightarrow> js = is"
        using pt_tree_inj [OF tree js(1) len js(2) ok(1) Some] w Some by auto
      with False IH Some upd [OF x js(3)] e show ?thesis
        by (auto simp: walk_snoc Let_def)
    qed
  qed
qed

end
