(* ===== verification/Paging_Refine.thy ===== *)
theory Paging_Refine
  imports Paging_Walk
begin

text \<open>
  \<open>PageTable_MapMemory\<close> refines a map update. The invariant ties the page tables to the page frame
  allocator: the tables are a tree, none of their frames is free, and the bitmap overlaps neither
  the tables nor any frame that can become one.
\<close>

section \<open>Invariant\<close>

abbreviation bitmap_len :: "'z pfa_scheme \<Rightarrow> nat" where
  "bitmap_len s \<equiv> Suc (unat (Size (mem_pfaBitmap s)))"

definition paging_inv :: "u64 \<Rightarrow> 'z pfa_scheme \<Rightarrow> bool" where
  "paging_inv P s \<longleftrightarrow> pfa_inv s \<and> unat (Size (mem_pfaBitmap s)) * 8 \<le> 2 ^ 40 \<and>
     pt_tree (ram s) P \<and> tables (ram s) P \<inter> free_frames s = {} \<and>
     (\<forall>u\<in>tables (ram s) P \<union> managed_frames s.
        region_disjoint u 4096 (Buffer (mem_pfaBitmap s)) (bitmap_len s))"

text \<open>The bytes of the bitmap, of the page tables and of the frames that can become tables.\<close>

definition paging_area :: "u64 \<Rightarrow> 'z pfa_scheme \<Rightarrow> u64 \<Rightarrow> bool" where
  "paging_area P s x \<longleftrightarrow> in_region (Buffer (mem_pfaBitmap s)) (bitmap_len s) x \<or>
     (\<exists>u\<in>tables (ram s) P \<union> free_frames s. in_region u 4096 x)"

definition area_kept :: "u64 \<Rightarrow> 'z pfa_scheme \<Rightarrow> 'z pfa_scheme \<Rightarrow> bool" where
  "area_kept P s t \<longleftrightarrow> (\<forall>x. paging_area P t x \<longrightarrow> paging_area P s x) \<and>
     (\<forall>x. \<not> paging_area P s x \<longrightarrow> ram t x = ram s x) \<and> free_frames t \<subseteq> free_frames s"

lemma area_kept_refl: "area_kept P s s"
  by (simp add: area_kept_def)

lemma area_kept_trans: "area_kept P s t \<Longrightarrow> area_kept P t u \<Longrightarrow> area_kept P s u"
  unfolding area_kept_def by (metis order_trans)

lemma area_keptI:
  assumes "mem_pfaBitmap t = mem_pfaBitmap s" and "tables (ram t) P \<subseteq> tables (ram s) P \<union> free_frames s"
    and "free_frames t \<subseteq> free_frames s"
    and "\<And>x. \<not> paging_area P s x \<Longrightarrow> ram t x = ram s x"
  shows "area_kept P s t"
  using assms unfolding area_kept_def paging_area_def by auto

lemma bitmap_byte_in_region:
  assumes "pfa_inv s" and "i \<le> page_count s"
  shows "in_region (Buffer (mem_pfaBitmap s)) (bitmap_len s) (Buffer (mem_pfaBitmap s) + i div 8)"
  using assms(2) pfa_inv_page_count [OF assms(1)]
  by (simp add: in_region_def word_le_nat_alt unat_div)

lemma bitmap_agree:
  assumes inv: "pfa_inv s"
    and agree: "\<And>x. in_region (Buffer (mem_pfaBitmap s)) (bitmap_len s) x \<Longrightarrow> m x = ram s x"
  shows "Bitmap_get (mem_pfaBitmap s) m i = page_bit s i"
proof (cases "i \<le> page_count s")
  case True
  with agree [OF bitmap_byte_in_region [OF inv True]] show ?thesis by (simp add: Bitmap_get_bit)
qed (simp add: Bitmap_get_def)

lemma ram_update_agree:
  assumes "pfa_inv s"
    and "\<And>x. in_region (Buffer (mem_pfaBitmap s)) (bitmap_len s) x \<Longrightarrow> m x = ram s x"
  shows "pfa_inv (s\<lparr>ram := m\<rparr>)" and "free_pages (s\<lparr>ram := m\<rparr>) = free_pages s"
    and "free_frames (s\<lparr>ram := m\<rparr>) = free_frames s" and "managed_frames (s\<lparr>ram := m\<rparr>) = managed_frames s"
  using assms(1) bitmap_agree [OF assms]
  by (simp_all add: pfa_inv_def free_pages_def free_frames_def managed_frames_def)

lemma requestPage_frame:
  assumes inv: "pfa_inv s" and r: "mem_pageframeallocator_requestPage s = Inr (p, t)"
  shows "mem_pfaBitmap t = mem_pfaBitmap s" and "pfa.more t = pfa.more s"
    and "\<not> in_region (Buffer (mem_pfaBitmap s)) (bitmap_len s) x \<Longrightarrow> ram t x = ram s x"
proof -
  note q = requestPage_Inr [OF inv r]
  have ne: "free_pages s \<noteq> {}" using q(2) by auto
  show "mem_pfaBitmap t = mem_pfaBitmap s" "pfa.more t = pfa.more s" by (simp_all add: q(4))
  assume "\<not> in_region (Buffer (mem_pfaBitmap s)) (bitmap_len s) x"
  then show "ram t x = ram s x"
    using lockPage_frame [OF hint_update_inv [OF inv ne], of x p] by (simp add: q(4))
qed

section \<open>Entries that are written\<close>

definition frame_bits :: "u64 \<Rightarrow> u64" where
  "frame_bits phys = phys AND 0x000ffffffffff000"

lemma bit_frame_bits: "bit (frame_bits a) n \<longleftrightarrow> 12 \<le> n \<and> n < 52 \<and> bit a n"
  unfolding frame_bits_def address_masks
  by (auto simp: bit_and_iff bit_push_bit_iff bit_mask_iff)

lemma frame_bits_id:
  assumes "aligned a" and "unat a < 2 ^ 52"
  shows "frame_bits a = a"
proof (rule bit_word_eqI)
  fix n
  have "\<not> bit a n" if "n < 12"
  proof -
    have "take_bit 12 (unat a) = 0" using assms(1) by (simp add: aligned_def take_bit_eq_mod)
    then have "take_bit 12 a = 0" by (metis unat_0 unsigned_take_bit_eq word_eqI_unat)
    with that show ?thesis by (metis bit_0_eq bit_take_bit_iff bot_apply bot_bool_def)
  qed
  moreover have "\<not> bit a n" if "52 \<le> n"
  proof -
    have "take_bit 52 (unat a) = unat a" using assms(2) by (simp add: take_bit_nat_eq_self)
    then have "take_bit 52 a = a" by (metis unsigned_take_bit_eq word_eqI_unat)
    with that show ?thesis by (metis bit_take_bit_iff not_less)
  qed
  ultimately show "bit (frame_bits a) n = bit a n"
    unfolding bit_frame_bits by (meson not_less)
qed

definition linked :: "PageDirectoryEntry \<Rightarrow> u64 \<Rightarrow> PageDirectoryEntry" where
  "linked old a = SetFlag (SetFlag (SetFlag (SetAddress old (drop_bit 12 a)) Present True) ReadWrite True) NX False"

lemma linked_present: "GetFlag (linked old a) Present"
  by (simp add: linked_def entry_bits)

lemma linked_address: "push_bit 12 (GetAddress (linked old a)) = frame_bits a"
  by (rule bit_word_eqI)
     (auto simp: bit_table_address bit_frame_bits linked_def entry_bits bit_drop_bit_eq)

lemma descend_eq:
  "descend report table index s =
     (let PDE = load64 (ram s) (entry_addr table index) in
      if GetFlag PDE Present then Inr (push_bit 12 (GetAddress PDE), s)
      else bind_r (mem_pageframeallocator_requestPage s) (\<lambda>(page, s).
        let s = s\<lparr>ram := store64 (memset (ram s) page 0 0x1000) (entry_addr table index) (linked PDE page)\<rparr>
        in Inr (page, if report
               then s\<lparr>klog := log_serial ''Mapped PDP %d to %x'' [Num index, Num (frame_bits page)] (klog s)\<rparr>
               else s)))"
  by (simp add: descend_def linked_def [symmetric] linked_present linked_address c64.load_store
        Let_def cong: if_cong)

lemma map_page_eq:
  "map_page debug PT index phys s =
     (let s = s\<lparr>ram := store64 (ram s) (entry_addr PT index) (linked (load64 (ram s) (entry_addr PT index)) phys)\<rparr>
      in Inr (if debug then s\<lparr>klog := log_serial ''Mapped to %x\<newline>'' [Num (frame_bits phys)] (klog s)\<rparr> else s))"
  by (simp add: map_page_def linked_def [symmetric] linked_present linked_address c64.load_store Let_def)

section \<open>Descending one level\<close>

lemma load_entry_cong:
  assumes "aligned x" and "j < 512" and "\<And>y. in_region x 4096 y \<Longrightarrow> m' y = m y"
  shows "load64 m' (entry_addr x j) = load64 m (entry_addr x j)"
  by (rule c64.load_cong) (use assms entry_in_page in blast)

lemma load_entry_store:
  assumes "aligned x" and "aligned u" and "j < 512" and "i < 512"
  shows "load64 (store64 m (entry_addr u i) v) (entry_addr x j) =
    (if x = u \<and> j = i then v else load64 m (entry_addr x j))"
proof -
  have "region_disjoint (entry_addr u i) 8 (entry_addr x j) 8" if "x \<noteq> u \<or> j \<noteq> i"
  proof (cases "x = u")
    case True
    with that assms show ?thesis by (auto intro: entry_disjoint)
  next
    case False
    with assms have "region_disjoint u 4096 x 4096" by (auto intro: aligned_disjoint)
    with assms show ?thesis unfolding region_disjoint_def using entry_in_page by blast
  qed
  then show ?thesis by (auto simp: c64.load_store c64.load_store_other)
qed

text \<open>A frame that the allocator hands out is none of the tables.\<close>

lemma fresh_frame:
  assumes inv: "paging_inv P s" and r: "mem_pageframeallocator_requestPage s = Inr (p, t)"
  shows "p \<notin> tables (ram s) P" and "aligned p" and "frame_bits p = p" and "p \<in> managed_frames s"
    and "free_frames t = free_frames s - {p}"
    and "region_disjoint p 4096 (Buffer (mem_pfaBitmap s)) (bitmap_len s)" and "p \<in> free_frames s"
proof -
  have i: "pfa_inv s" using inv by (simp add: paging_inv_def)
  note q = requestPage_Inr [OF i r]
  have f: "p \<in> free_frames s" "free_frames t = free_frames s - {p}"
    using pf.request_avail [OF i r] by auto
  then show "p \<notin> tables (ram s) P" "free_frames t = free_frames s - {p}" "p \<in> free_frames s"
    using inv by (auto simp: paging_inv_def)
  show m: "p \<in> managed_frames s" using f(1) pf.avail_managed [OF i] by blast
  with inv show "region_disjoint p 4096 (Buffer (mem_pfaBitmap s)) (bitmap_len s)"
    by (simp add: paging_inv_def)
  have "unat (Min (free_pages s)) < 2 ^ 40"
    using inv free_pages_lt [OF q(2)] pfa_inv_page_count [OF i]
    by (simp add: paging_inv_def word_less_nat_alt)
  then have u: "unat p = unat (Min (free_pages s)) * 4096" "unat p < 2 ^ 52"
    using q(1) unat_mult_no_wrap [of "Min (free_pages s)" 4096] by auto
  then show "aligned p" by (simp add: aligned_def)
  then show "frame_bits p = p" using u(2) by (rule frame_bits_id)
qed

lemma linked_table_memory:
  fixes e :: PageDirectoryEntry
  assumes inv: "paging_inv P s" and r: "mem_pageframeallocator_requestPage s = Inr (p, t)"
    and u: "u \<in> tables (ram s) P" and i: "i < 512"
  defines "m \<equiv> store64 (memset (ram t) p 0 0x1000) (entry_addr u i) e"
  shows "x \<in> tables (ram s) P \<Longrightarrow> j < 512 \<Longrightarrow>
           load64 m (entry_addr x j) = (if x = u \<and> j = i then e else load64 (ram s) (entry_addr x j))"
    and "j < 512 \<Longrightarrow> load64 m (entry_addr p j) = 0"
    and "in_region (Buffer (mem_pfaBitmap s)) (bitmap_len s) y \<Longrightarrow> m y = ram t y"
proof -
  note fr = fresh_frame [OF inv r]
  have al: "aligned v" if "v \<in> tables (ram s) P" for v
    using that inv by (auto simp: paging_inv_def pt_tree_def)
  have bd: "region_disjoint v 4096 (Buffer (mem_pfaBitmap s)) (bitmap_len s)"
    if "v \<in> tables (ram s) P" for v using that inv by (auto simp: paging_inv_def)
  have pfa: "pfa_inv s" using inv by (simp add: paging_inv_def)
  have ms: "memset (ram t) p 0 0x1000 y = (if in_region p 4096 y then 0 else ram t y)" for y
    by (simp add: memset_apply)
  show "load64 m (entry_addr x j) = (if x = u \<and> j = i then e else load64 (ram s) (entry_addr x j))"
    if x: "x \<in> tables (ram s) P" and j: "j < 512"
  proof -
    have "region_disjoint x 4096 p 4096" using x fr(1,2) al by (auto intro: aligned_disjoint)
    then have "load64 (memset (ram t) p 0 0x1000) (entry_addr x j) = load64 (ram s) (entry_addr x j)"
      using requestPage_frame(3) [OF pfa r] bd [OF x]
      by (intro load_entry_cong al x j) (auto simp: ms dest: region_disjointD)
    then show ?thesis using x u i j al by (simp add: m_def load_entry_store)
  qed
  show "load64 m (entry_addr p j) = 0" if j: "j < 512"
  proof -
    have "load64 (memset (ram t) p 0 0x1000) (entry_addr p j) = 0"
      using entry_in_page [OF fr(2) j] by (intro load64_zero) (simp add: ms)
    moreover have "p \<noteq> u" using fr(1) u by blast
    ultimately show ?thesis using fr(2) al [OF u] i j by (simp add: m_def load_entry_store)
  qed
  show "m y = ram t y" if "in_region (Buffer (mem_pfaBitmap s)) (bitmap_len s) y"
  proof -
    have "\<not> in_region (entry_addr u i) 8 y"
      using that region_disjointD [OF bd [OF u]] entry_in_page [OF al [OF u] i] by blast
    moreover have "\<not> in_region p 4096 y" using that region_disjointD [OF fr(6)] by blast
    ultimately show ?thesis by (simp add: m_def c64.store_frame ms)
  qed
qed

text \<open>The change of all walks carries the invariant over.\<close>

lemma tables_extend:
  assumes "length is \<le> 2" and "idx_ok (is @ [i])" and none: "walk m P (is @ [i]) = None"
    and w: "\<And>js. length js \<le> 4 \<Longrightarrow> idx_ok js \<Longrightarrow>
       walk m' P js = (if js = is @ [i] then Some p else walk m P js)"
  shows "tables m' P = insert p (tables m P)"
proof
  show "tables m' P \<subseteq> insert p (tables m P)"
  proof
    fix v assume "v \<in> tables m' P"
    then obtain js where js: "length js \<le> 3" "idx_ok js" "walk m' P js = Some v"
      by (auto simp: tables_def)
    with w [of js] show "v \<in> insert p (tables m P)"
      by (auto simp: tables_def split: if_splits)
  qed
  have "v \<in> tables m' P" if v: "v \<in> tables m P" for v
  proof -
    from v obtain js where js: "length js \<le> 3" "idx_ok js" "walk m P js = Some v"
      by (auto simp: tables_def)
    with none have "js \<noteq> is @ [i]" by auto
    with js w [of js] show ?thesis by (auto intro: tablesI [of js])
  qed
  moreover have "p \<in> tables m' P"
    using w [of "is @ [i]"] assms(1,2) by (intro tablesI [of "is @ [i]"]) auto
  ultimately show "insert p (tables m P) \<subseteq> tables m' P" by blast
qed

lemma pt_tree_extend:
  assumes tree: "pt_tree m P" and fresh: "p \<notin> tables m P" and al: "aligned p"
    and "length is \<le> 2" and "idx_ok (is @ [i])" and none: "walk m P (is @ [i]) = None"
    and w: "\<And>js. length js \<le> 4 \<Longrightarrow> idx_ok js \<Longrightarrow>
       walk m' P js = (if js = is @ [i] then Some p else walk m P js)"
  shows "pt_tree m' P"
  unfolding pt_tree_def
proof (intro conjI allI impI)
  show "\<forall>u\<in>tables m' P. aligned u"
    using tree al tables_extend [OF assms(4-7)] by (auto simp: pt_tree_def)
next
  fix js ks
  assume "length js \<le> 3 \<and> length ks \<le> 3 \<and> idx_ok js \<and> idx_ok ks \<and>
    walk m' P js \<noteq> None \<and> walk m' P js = walk m' P ks"
  then have jk: "length js \<le> 3" "length ks \<le> 3" "idx_ok js" "idx_ok ks"
    and eq: "walk m' P js \<noteq> None" "walk m' P js = walk m' P ks" by blast+
  have notp: "walk m P ls \<noteq> Some p" if "length ls \<le> 3" "idx_ok ls" for ls
    using fresh that tablesI by blast
  obtain y where "walk m' P js = Some y" using eq(1) by auto
  with eq(2) have y: "walk m' P js = Some y" "walk m' P ks = Some y" by simp_all
  show "js = ks"
  proof (cases "y = p")
    case True
    then have "js = is @ [i]" "ks = is @ [i]"
      using y w [of js] w [of ks] jk notp [of js] notp [of ks] by (auto split: if_splits)
    then show ?thesis by simp
  next
    case False
    then have "walk m P js = Some y" "walk m P ks = Some y"
      using y w [of js] w [of ks] jk by (auto split: if_splits)
    then show ?thesis using pt_tree_inj [OF tree jk(1,2,3,4)] by blast
  qed
qed

lemma paging_inv_extend:
  assumes inv: "paging_inv P s" and r: "mem_pageframeallocator_requestPage s = Inr (p, t)"
    and len: "length is \<le> 2" and ok: "idx_ok (is @ [i])" and none: "walk (ram s) P (is @ [i]) = None"
    and w: "\<And>js. length js \<le> 4 \<Longrightarrow> idx_ok js \<Longrightarrow>
       walk m P js = (if js = is @ [i] then Some p else walk (ram s) P js)"
    and agree: "\<And>y. in_region (Buffer (mem_pfaBitmap s)) (bitmap_len s) y \<Longrightarrow> m y = ram t y"
  shows "paging_inv P (t\<lparr>ram := m\<rparr>)"
proof -
  note fr = fresh_frame [OF inv r]
  have pfa: "pfa_inv s" and tree: "pt_tree (ram s) P" using inv by (auto simp: paging_inv_def)
  note bm = requestPage_frame(1) [OF pfa r]
  have t: "pfa_inv t" "managed_frames t = managed_frames s" using pf.request_invar [OF pfa r] by auto
  have agree': "\<And>y. in_region (Buffer (mem_pfaBitmap t)) (bitmap_len t) y \<Longrightarrow> m y = ram t y"
    using agree by (simp add: bm)
  have ra: "pfa_inv (t\<lparr>ram := m\<rparr>)" "free_frames (t\<lparr>ram := m\<rparr>) = free_frames t"
    "managed_frames (t\<lparr>ram := m\<rparr>) = managed_frames t"
    using ram_update_agree [OF t(1), of m] agree' by auto
  have "tables m P = insert p (tables (ram s) P)" by (rule tables_extend [OF len ok none w])
  moreover have "pt_tree m P" by (rule pt_tree_extend [OF tree fr(1,2) len ok none w])
  ultimately show ?thesis
    using inv fr(4,5,6) ra unfolding paging_inv_def by (auto simp: bm t)
qed

lemma paging_inv_log [simp]: "paging_inv P (s\<lparr>klog := l\<rparr>) = paging_inv P s"
  by (simp add: paging_inv_def pfa_inv_def free_frames_def free_pages_def managed_frames_def)

text \<open>One level: the path is extended by the index, and no translation changes.\<close>

lemma descend_effect:
  assumes inv: "paging_inv P s" and u: "walk (ram s) P is = Some u" and len: "length is \<le> 2"
    and ok: "idx_ok is" "i < 512" and d: "descend report u i s = Inr (v, t)"
  shows "paging_inv P t" and "walk (ram t) P (is @ [i]) = Some v"
    and "\<And>js. length js = 4 \<Longrightarrow> idx_ok js \<Longrightarrow> walk (ram t) P js = walk (ram s) P js"
    and "mem_pfaBitmap t = mem_pfaBitmap s \<and> pfa.more t = pfa.more s" and "area_kept P s t"
    and "\<And>js w. length js \<le> 4 \<Longrightarrow> idx_ok js \<Longrightarrow> walk (ram s) P js = Some w \<Longrightarrow> walk (ram t) P js = Some w"
proof -
  let ?e = "load64 (ram s) (entry_addr u i)"
  have "paging_inv P t \<and> walk (ram t) P (is @ [i]) = Some v \<and>
    (\<forall>js. length js = 4 \<longrightarrow> idx_ok js \<longrightarrow> walk (ram t) P js = walk (ram s) P js) \<and>
    mem_pfaBitmap t = mem_pfaBitmap s \<and> pfa.more t = pfa.more s \<and> area_kept P s t \<and>
    (\<forall>js w. length js \<le> 4 \<longrightarrow> idx_ok js \<longrightarrow> walk (ram s) P js = Some w \<longrightarrow> walk (ram t) P js = Some w)"
  proof (cases "GetFlag ?e Present")
    case True
    with d inv u show ?thesis by (auto simp: descend_eq walk_snoc Let_def area_kept_refl)
  next
    case False
    then obtain s1 where r: "mem_pageframeallocator_requestPage s = Inr (v, s1)"
      and t: "t = s1\<lparr>ram := store64 (memset (ram s1) v 0 0x1000) (entry_addr u i) (linked ?e v)\<rparr> \<or>
              (\<exists>l. t = s1\<lparr>ram := store64 (memset (ram s1) v 0 0x1000) (entry_addr u i) (linked ?e v), klog := l\<rparr>)"
      using d by (auto simp: descend_eq Let_def bind_r_eq_Inr split: if_splits)
    let ?m = "store64 (memset (ram s1) v 0 0x1000) (entry_addr u i) (linked ?e v)"
    have pfa: "pfa_inv s" and tree: "pt_tree (ram s) P" using inv by (auto simp: paging_inv_def)
    have tu: "u \<in> tables (ram s) P" using u len ok by (intro tablesI) auto
    note fr = fresh_frame [OF inv r]
    note lm = linked_table_memory [OF inv r tu ok(2), where e = "linked ?e v"]
    have w: "walk ?m P js = (if js = is @ [i] then Some v else walk (ram s) P js)"
      if "length js \<le> 4" "idx_ok js" for js
      using walk_update [OF tree u _ ok lm(1) linked_present _ that] len False lm(2)
      by (auto simp: linked_address fr(3) GetFlag_bit)
    have none: "walk (ram s) P (is @ [i]) = None" using u False by (simp add: walk_snoc Let_def)
    have "paging_inv P (s1\<lparr>ram := ?m\<rparr>)"
      using ok by (intro paging_inv_extend [OF inv r len _ none w lm(3)]) auto
    moreover have "paging_inv P (s1\<lparr>ram := ?m, klog := l\<rparr>)" for l
      using paging_inv_log [of P l "s1\<lparr>ram := ?m\<rparr>"] calculation by simp
    ultimately have "paging_inv P t" using t by auto
    moreover have "ram t = ?m" "mem_pfaBitmap t = mem_pfaBitmap s \<and> pfa.more t = pfa.more s"
      using t requestPage_frame(1,2) [OF pfa r] by auto
    moreover have "area_kept P s t"
    proof (rule area_keptI)
      have "tables ?m P = insert v (tables (ram s) P)"
        using ok by (intro tables_extend [OF len _ none w]) auto
      then show "tables (ram t) P \<subseteq> tables (ram s) P \<union> free_frames s"
        using fr(7) by (auto simp: calculation(2))
      have "free_pages (s1\<lparr>ram := ?m\<rparr>) = free_pages s1"
        using pf.request_invar [OF pfa r] lm(3) requestPage_frame(1) [OF pfa r]
        by (intro ram_update_agree(2)) auto
      then have "free_frames t = free_frames s1" using t by (auto simp: free_frames_def free_pages_def)
      then show "free_frames t \<subseteq> free_frames s" using fr(5) by auto
      have au: "aligned u" using tu tree by (auto simp: pt_tree_def)
      fix x assume x: "\<not> paging_area P s x"
      then have "\<not> in_region v 4096 x" "\<not> in_region u 4096 x" and b: "ram s1 x = ram s x"
        using fr(7) tu requestPage_frame(3) [OF pfa r] by (auto simp: paging_area_def)
      moreover from this have "\<not> in_region (entry_addr u i) 8 x" using entry_in_page [OF au ok(2)] by blast
      ultimately show "ram t x = ram s x"
        by (simp add: \<open>ram t = ?m\<close> c64.store_frame memset_apply)
    qed (simp add: calculation(3))
    ultimately show ?thesis using w none ok len by auto
  qed
  then show "paging_inv P t" and "walk (ram t) P (is @ [i]) = Some v"
    and "\<And>js. length js = 4 \<Longrightarrow> idx_ok js \<Longrightarrow> walk (ram t) P js = walk (ram s) P js"
    and "mem_pfaBitmap t = mem_pfaBitmap s \<and> pfa.more t = pfa.more s" and "area_kept P s t"
    and "\<And>js w. length js \<le> 4 \<Longrightarrow> idx_ok js \<Longrightarrow> walk (ram s) P js = Some w \<Longrightarrow> walk (ram t) P js = Some w" by auto
qed

section \<open>Writing the last entry\<close>

lemma pt_tree_cong:
  assumes "\<And>js. length js \<le> 3 \<Longrightarrow> idx_ok js \<Longrightarrow> walk m' P js = walk m P js"
  shows "pt_tree m' P = pt_tree m P" and "tables m' P = tables m P"
proof -
  show t: "tables m' P = tables m P" by (simp add: tables_def assms cong: conj_cong)
  show "pt_tree m' P = pt_tree m P" by (simp add: pt_tree_def t assms cong: conj_cong)
qed

lemma map_page_effect:
  assumes inv: "paging_inv P s" and u: "walk (ram s) P is = Some u" and len: "length is = 3"
    and ok: "idx_ok is" "i < 512" and r: "map_page debug u i phys s = Inr t"
  shows "paging_inv P t"
    and "\<And>js. length js \<le> 4 \<Longrightarrow> idx_ok js \<Longrightarrow>
       walk (ram t) P js = (if js = is @ [i] then Some (frame_bits phys) else walk (ram s) P js)"
    and "mem_pfaBitmap t = mem_pfaBitmap s" and "pfa.more t = pfa.more s"
    and "free_pages t = free_pages s" and "area_kept P s t"
proof -
  let ?e = "linked (load64 (ram s) (entry_addr u i)) phys"
  let ?m = "store64 (ram s) (entry_addr u i) ?e"
  have pfa: "pfa_inv s" and tree: "pt_tree (ram s) P" using inv by (auto simp: paging_inv_def)
  have al: "aligned v" if "v \<in> tables (ram s) P" for v using that tree by (auto simp: pt_tree_def)
  have tu: "u \<in> tables (ram s) P" using u len ok by (intro tablesI) auto
  have w: "walk ?m P js = (if js = is @ [i] then Some (frame_bits phys) else walk (ram s) P js)"
    if "length js \<le> 4" "idx_ok js" for js
    using walk_update [OF tree u _ ok _ linked_present _ that] len al tu ok(2)
    by (simp add: load_entry_store linked_address)
  have same: "walk ?m P js = walk (ram s) P js" if "length js \<le> 3" "idx_ok js" for js
    using w [of js] that len by auto
  have tab: "pt_tree ?m P" "tables ?m P = tables (ram s) P"
    using tree pt_tree_cong [OF same] by auto
  have "?m y = ram s y" if "in_region (Buffer (mem_pfaBitmap s)) (bitmap_len s) y" for y
  proof -
    have "region_disjoint u 4096 (Buffer (mem_pfaBitmap s)) (bitmap_len s)"
      using inv tu by (auto simp: paging_inv_def)
    then have "\<not> in_region (entry_addr u i) 8 y"
      using that entry_in_page [OF al [OF tu] ok(2)] by (auto dest: region_disjointD)
    then show ?thesis by (simp add: c64.store_frame)
  qed
  note ra = ram_update_agree [OF pfa this]
  with tab have inv': "paging_inv P (s\<lparr>ram := ?m\<rparr>)"
    using inv ra unfolding paging_inv_def by auto
  have inv'': "paging_inv P (s\<lparr>ram := ?m, klog := l\<rparr>)" for l
    using paging_inv_log [of P l "s\<lparr>ram := ?m\<rparr>"] inv' by simp
  consider "t = s\<lparr>ram := ?m\<rparr>" | l where "t = s\<lparr>ram := ?m, klog := l\<rparr>"
    using r by (auto simp: map_page_eq Let_def split: if_splits)
  then have t: "paging_inv P t \<and> ram t = ?m \<and> mem_pfaBitmap t = mem_pfaBitmap s \<and>
      pfa.more t = pfa.more s \<and> free_pages t = free_pages s"
    using inv' inv'' ra(2) by cases (simp_all add: free_pages_def)
  then show "paging_inv P t" "mem_pfaBitmap t = mem_pfaBitmap s" "pfa.more t = pfa.more s"
    "free_pages t = free_pages s" by simp_all
  show "area_kept P s t"
  proof (rule area_keptI)
    fix x assume "\<not> paging_area P s x"
    then have "\<not> in_region u 4096 x" using tu by (auto simp: paging_area_def)
    then have "\<not> in_region (entry_addr u i) 8 x" using entry_in_page [OF al [OF tu] ok(2)] by blast
    then show "ram t x = ram s x" using t by (simp add: c64.store_frame)
  qed (use t tab in \<open>auto simp: free_frames_def\<close>)
  show "walk (ram t) P js = (if js = is @ [i] then Some (frame_bits phys) else walk (ram s) P js)"
    if "length js \<le> 4" "idx_ok js" for js
    using w [OF that] t by simp
qed

section \<open>The whole walk\<close>

lemma indices_ok: "idx_ok (indices virt)" and indices_length: "length (indices virt) = 4"
proof -
  have "a AND 0x1ff < 512" for a :: u64
    by (rule le_less_trans [OF word_and_le1]) simp
  then show "idx_ok (indices virt)"
    by (simp add: indices_code PageMapIndexer_From_def Let_def)
qed (simp add: indices_code Let_def)

lemma descend_Inl:
  assumes "paging_inv P s" and "descend report u i s = Inl e"
  shows "e = Panic ''Out of memory''"
  using assms requestPage_spec [of s]
  by (auto simp: descend_eq Let_def bind_r_eq_Inl paging_inv_def split: if_splits)

text \<open>Three levels of descent, then the last entry.\<close>

lemma MapMemory_cases:
  fixes virt phys :: u64
  assumes inv: "paging_inv P s"
  shows "case PageTable_MapMemory P virt phys debug s of
      Inl e \<Rightarrow> e = Panic ''Out of memory''
    | Inr t \<Rightarrow> paging_inv P t \<and>
        (\<forall>js. length js = 4 \<longrightarrow> idx_ok js \<longrightarrow> walk (ram t) P js =
           (if js = indices virt then Some (frame_bits phys) else walk (ram s) P js)) \<and>
        mem_pfaBitmap t = mem_pfaBitmap s \<and> pfa.more t = pfa.more s \<and> area_kept P s t"
proof -
  let ?x = "PageMapIndexer_From virt"
  have ok: "PDP_i ?x < 512" "PD_i ?x < 512" "PT_i ?x < 512" "P_i ?x < 512"
    using indices_ok [of virt] by (simp_all add: indices_code Let_def)
  define s0 where "s0 = (if debug
               then s\<lparr>klog := log_serial
                 ''Mapping virt %x to phys %x (or %x). Indexer: PDP %u | PD %u | PT %u | P %u\<newline>''
                 [Num virt, Num phys, Num (drop_bit 12 phys), Num (PDP_i ?x), Num (PD_i ?x),
                  Num (PT_i ?x), Num (P_i ?x)] (klog s)\<rparr>
               else s)"
  have s0: "paging_inv P s0" "ram s0 = ram s" "mem_pfaBitmap s0 = mem_pfaBitmap s" "pfa.more s0 = pfa.more s"
    using inv by (simp_all add: s0_def)
  have eq: "PageTable_MapMemory P virt phys debug s =
      bind_r (descend True P (PDP_i ?x) s0) (\<lambda>(PDP, s).
         bind_r (descend False PDP (PD_i ?x) s) (\<lambda>(PD, s).
         bind_r (descend False PD (PT_i ?x) s) (\<lambda>(PT, s).
         map_page debug PT (P_i ?x) phys s)))"
    by (simp add: PageTable_MapMemory_def s0_def Let_def)
  have w0: "walk (ram s0) P [] = Some P" by simp
  have l0: "length ([] :: u64 list) \<le> 2" "idx_ok []"
    and l1: "length [PDP_i ?x] \<le> 2" "idx_ok [PDP_i ?x]"
    and l2: "length [PDP_i ?x, PD_i ?x] \<le> 2" "idx_ok [PDP_i ?x, PD_i ?x]"
    using ok by simp_all
  show ?thesis
  proof (cases "PageTable_MapMemory P virt phys debug s")
    case (Inl e)
    then consider "descend True P (PDP_i ?x) s0 = Inl e"
      | a s1 where "descend True P (PDP_i ?x) s0 = Inr (a, s1)" "descend False a (PD_i ?x) s1 = Inl e"
      | a s1 b s2 where "descend True P (PDP_i ?x) s0 = Inr (a, s1)"
          "descend False a (PD_i ?x) s1 = Inr (b, s2)" "descend False b (PT_i ?x) s2 = Inl e"
      | a s1 b s2 c s3 where "descend True P (PDP_i ?x) s0 = Inr (a, s1)"
          "descend False a (PD_i ?x) s1 = Inr (b, s2)" "descend False b (PT_i ?x) s2 = Inr (c, s3)"
          "map_page debug c (P_i ?x) phys s3 = Inl e"
      unfolding eq by (auto simp: bind_r_eq_Inl)
    then have "e = Panic ''Out of memory''"
    proof cases
      case 1
      with s0(1) show ?thesis by (rule descend_Inl)
    next
      case (2 a s1)
      have "paging_inv P s1" by (rule descend_effect(1) [OF s0(1) w0 l0 ok(1) 2(1)])
      then show ?thesis using 2(2) by (rule descend_Inl)
    next
      case (3 a s1 b s2)
      note d1 = descend_effect [OF s0(1) w0 l0 ok(1) 3(1), unfolded append.simps]
      have "paging_inv P s2" by (rule descend_effect(1) [OF d1(1,2) l1 ok(2) 3(2)])
      then show ?thesis using 3(3) by (rule descend_Inl)
    qed (simp add: map_page_eq Let_def)
    with Inl show ?thesis by simp
  next
    case (Inr t)
    then obtain a s1 b s2 c s3 where d: "descend True P (PDP_i ?x) s0 = Inr (a, s1)"
      "descend False a (PD_i ?x) s1 = Inr (b, s2)" "descend False b (PT_i ?x) s2 = Inr (c, s3)"
      and mp: "map_page debug c (P_i ?x) phys s3 = Inr t"
      unfolding eq by (auto simp: bind_r_eq_Inr)
    note d1 = descend_effect [OF s0(1) w0 l0 ok(1) d(1), unfolded append.simps]
    note d2 = descend_effect [OF d1(1,2) l1 ok(2) d(2), unfolded append.simps]
    note d3 = descend_effect [OF d2(1,2) l2 ok(3) d(3), unfolded append.simps]
    let ?is = "[PDP_i ?x, PD_i ?x, PT_i ?x]"
    have l3: "length ?is = 3" "idx_ok ?is" using ok by simp_all
    note t = map_page_effect [OF d3(1,2) l3 ok(4) mp]
    have "walk (ram s3) P js = walk (ram s) P js" if "length js = 4" "idx_ok js" for js
      using d1(3) [OF that] d2(3) [OF that] d3(3) [OF that] s0(2) by simp
    moreover have "?is @ [P_i ?x] = indices virt" by (simp add: indices_code Let_def)
    moreover have "area_kept P s t"
    proof -
      have "area_kept P s s0" by (rule area_keptI) (auto simp: s0_def free_frames_def free_pages_def)
      with d1(5) d2(5) d3(5) t(6) show ?thesis by (metis area_kept_trans)
    qed
    ultimately show ?thesis using Inr t d1(4) d2(4) d3(4) s0(3,4) by simp
  qed
qed

section \<open>Other writes\<close>

lemma walk_cong:
  assumes "\<And>x j. x \<in> tables m P \<Longrightarrow> j < 512 \<Longrightarrow> load64 m' (entry_addr x j) = load64 m (entry_addr x j)"
  shows "length js \<le> 4 \<Longrightarrow> idx_ok js \<Longrightarrow> walk m' P js = walk m P js"
proof (induction js rule: rev_induct)
  case (snoc j js)
  then have js: "length js \<le> 3" "idx_ok js" "j < 512" "walk m' P js = walk m P js" by auto
  show ?case
  proof (cases "walk m P js")
    case (Some u)
    then have "u \<in> tables m P" using js by (intro tablesI)
    with assms js Some show ?thesis by (simp add: walk_snoc Let_def)
  qed (simp add: walk_snoc js(4))
qed simp

text \<open>A write outside the paging area keeps the invariant and every translation.\<close>

lemma outside_write:
  assumes inv: "paging_inv P s" and agree: "\<And>x. paging_area P s x \<Longrightarrow> m x = ram s x"
  shows "paging_inv P (s\<lparr>ram := m\<rparr>)" and "paging_area P (s\<lparr>ram := m\<rparr>) = paging_area P s"
    and "\<And>js. length js \<le> 4 \<Longrightarrow> idx_ok js \<Longrightarrow> walk m P js = walk (ram s) P js"
    and "free_frames (s\<lparr>ram := m\<rparr>) = free_frames s" and "free_pages (s\<lparr>ram := m\<rparr>) = free_pages s"
proof -
  have pfa: "pfa_inv s" and tree: "pt_tree (ram s) P" using inv by (auto simp: paging_inv_def)
  have al: "aligned v" if "v \<in> tables (ram s) P" for v using that tree by (auto simp: pt_tree_def)
  have "load64 m (entry_addr x j) = load64 (ram s) (entry_addr x j)" if "x \<in> tables (ram s) P" "j < 512" for x j
    by (rule load_entry_cong [OF al]) (use that agree in \<open>auto simp: paging_area_def\<close>)
  then show w: "walk m P js = walk (ram s) P js" if "length js \<le> 4" "idx_ok js" for js
    using walk_cong [of "ram s" P m js] that by blast
  have tab: "pt_tree m P = pt_tree (ram s) P" "tables m P = tables (ram s) P"
    using pt_tree_cong [of m P "ram s"] w by auto
  have "m x = ram s x" if "in_region (Buffer (mem_pfaBitmap s)) (bitmap_len s) x" for x
    using that agree by (auto simp: paging_area_def)
  note ra = ram_update_agree [OF pfa this]
  then show "free_frames (s\<lparr>ram := m\<rparr>) = free_frames s" "free_pages (s\<lparr>ram := m\<rparr>) = free_pages s" by simp_all
  show "paging_inv P (s\<lparr>ram := m\<rparr>)" using inv ra tab unfolding paging_inv_def by simp
  show "paging_area P (s\<lparr>ram := m\<rparr>) = paging_area P s"
    unfolding paging_area_def fun_eq_iff using ra tab by simp
qed

text \<open>Requests for other purposes keep the tables.\<close>

lemma requestPage_paging:
  assumes inv: "paging_inv P s" and r: "mem_pageframeallocator_requestPage s = Inr (p, t)"
  shows "paging_inv P t" and "area_kept P s t"
    and "\<And>js. length js \<le> 4 \<Longrightarrow> idx_ok js \<Longrightarrow> walk (ram t) P js = walk (ram s) P js"
proof -
  have pfa: "pfa_inv s" and tree: "pt_tree (ram s) P" using inv by (auto simp: paging_inv_def)
  have al: "aligned v" if "v \<in> tables (ram s) P" for v using that tree by (auto simp: pt_tree_def)
  note rf = requestPage_frame [OF pfa r] and fr = fresh_frame [OF inv r]
  have "load64 (ram t) (entry_addr x j) = load64 (ram s) (entry_addr x j)" if x: "x \<in> tables (ram s) P" and j: "j < 512" for x j
  proof (rule load_entry_cong [OF al [OF x] j])
    have "region_disjoint x 4096 (Buffer (mem_pfaBitmap s)) (bitmap_len s)" using inv x by (auto simp: paging_inv_def)
    then show "ram t y = ram s y" if "in_region x 4096 y" for y using that rf(3) by (auto dest: region_disjointD)
  qed
  then show w: "walk (ram t) P js = walk (ram s) P js" if "length js \<le> 4" "idx_ok js" for js
    using walk_cong [of "ram s" P "ram t" js] that by blast
  have tab: "pt_tree (ram t) P = pt_tree (ram s) P" "tables (ram t) P = tables (ram s) P"
    using pt_tree_cong [of "ram t" P "ram s"] w by auto
  have "pfa_inv t" "managed_frames t = managed_frames s" using pf.request_invar [OF pfa r] by auto
  then show "paging_inv P t" using inv tab rf(1) fr(5) unfolding paging_inv_def by auto
  show "area_kept P s t"
    by (rule area_keptI) (use rf tab fr(5) in \<open>auto simp: paging_area_def\<close>)
qed

end
