(* ===== verification/Address_Space.thy ===== *)
theory Address_Space
  imports Paging_Refine
begin

text \<open>
  The properties of \<^verbatim>\<open>kernel/mem/paging.cpp\<close>, stated on virtual addresses: mapping a page is one
  update of the address space, it succeeds while the page frame allocator has frames for the tables
  it may need, and the fields of an entry are independent.
\<close>

section \<open>Pages of the address space\<close>

text \<open>Two virtual addresses are in the same page if they agree on bits 12 to 47.\<close>

definition page_number :: "u64 \<Rightarrow> u64" where
  "page_number v = take_bit 36 (drop_bit 12 v)"

lemma bit_page_number: "bit (page_number v) n \<longleftrightarrow> n < 36 \<and> bit v (n + 12)"
  by (simp add: page_number_def bit_take_bit_iff bit_drop_bit_eq add.commute)

lemma bit_index: "bit (drop_bit k v AND 0x1ff) n \<longleftrightarrow> n < 9 \<and> bit v (n + k)" for v :: u64
proof -
  have m: "(0x1ff :: u64) = mask 9" by (simp add: mask_eq_exp_minus_1)
  show ?thesis unfolding m by (auto simp: bit_and_iff bit_drop_bit_eq bit_mask_iff add.commute)
qed

lemma indices_fields:
  "indices v = [drop_bit 39 v AND 0x1ff, drop_bit 30 v AND 0x1ff, drop_bit 21 v AND 0x1ff, drop_bit 12 v AND 0x1ff]"
  by (simp add: indices_code PageMapIndexer_From_def Let_def drop_bit_drop_bit)

lemma indices_eq_iff: "indices v = indices w \<longleftrightarrow> page_number v = page_number w"
proof
  assume "page_number v = page_number w"
  then have *: "bit v (n + 12) = bit w (n + 12)" if "n < 36" for n
    using that bit_page_number [of v n] bit_page_number [of w n] by simp
  have b: "bit v n = bit w n" if "12 \<le> n" "n < 48" for n
    using that(1) * [of "n - 12"] that(2) by simp
  have "drop_bit k v AND 0x1ff = drop_bit k w AND 0x1ff" if "12 \<le> k" "k \<le> 39" for k
    using that by (intro bit_word_eqI) (auto simp: bit_index b)
  then show "indices v = indices w" unfolding indices_fields by simp
next
  assume "indices v = indices w"
  then have "drop_bit k v AND 0x1ff = drop_bit k w AND 0x1ff" if "k \<in> {12, 21, 30, 39}" for k
    using that unfolding indices_fields by auto
  then have f: "bit v (m + k) = bit w (m + k)" if "k \<in> {12, 21, 30, 39}" "m < 9" for m k
    using that bit_index [of k v m] bit_index [of k w m] by auto
  have "bit v k = bit w k" if "12 \<le> k" "k < 48" for k
  proof -
    from that consider "k - 12 < 9" | "21 \<le> k" "k - 21 < 9" | "30 \<le> k" "k - 30 < 9" | "39 \<le> k" "k - 39 < 9"
      by linarith
    then show ?thesis
      using f [of 12 "k - 12"] f [of 21 "k - 21"] f [of 30 "k - 30"] f [of 39 "k - 39"] that(1)
      by cases simp_all
  qed
  then show "page_number v = page_number w"
    by (intro bit_word_eqI) (auto simp: bit_page_number)
qed

section \<open>Frames for new tables\<close>

text \<open>The allocator can serve \<open>n\<close> requests.\<close>

definition reserve :: "nat \<Rightarrow> 'z pfa_scheme \<Rightarrow> bool" where
  "reserve n s \<longleftrightarrow> n \<le> card (free_pages s) \<and>
     (oomPanics s \<longrightarrow> 12288 + n * 4096 \<le> unat (mem_freeMemory s))"

lemma reserve_mono: "reserve n s \<Longrightarrow> k \<le> n \<Longrightarrow> reserve k s"
  unfolding reserve_def by auto

lemma reserve_request:
  assumes inv: "pfa_inv s" and res: "reserve (Suc n) s"
  obtains p t where "mem_pageframeallocator_requestPage s = Inr (p, t)" and "reserve n t"
proof -
  have ne: "free_pages s \<noteq> {}" using res by (auto simp: reserve_def)
  have f: "16384 + n * 4096 \<le> unat (mem_freeMemory s)" if "oomPanics s"
    using that res by (simp add: reserve_def)
  have "\<not> (oomPanics s \<and> mem_freeMemory s < 16384)" using f by (auto simp: word_less_nat_alt)
  then obtain p t where r: "mem_pageframeallocator_requestPage s = Inr (p, t)"
    using ne requestPage_spec [OF inv] by (simp add: Let_def)
  note q = requestPage_Inr [OF inv r]
  have "card (free_pages t) = card (free_pages s) - 1" using q(2) unfolding q(5) by simp
  moreover have "oomPanics t = oomPanics s" by (simp add: q(4))
  moreover have "12288 + n * 4096 \<le> unat (mem_freeMemory t)" if o: "oomPanics s"
  proof -
    have "p div 4096 < page_count s" using q(2,3) free_pages_lt by simp
    then have "mem_freeMemory t = mem_freeMemory s - (if p div 4096 \<in> free_pages s then 4096 else 0)"
      unfolding q(4) by (simp add: lockPage_free_counter free_pages_def)
    then have "unat (mem_freeMemory t) \<ge> unat (mem_freeMemory s) - 4096"
      using f [OF o] unat_sub_le [of 4096 "mem_freeMemory s"] by (auto simp: word_le_nat_alt)
    with f [OF o] show ?thesis by simp
  qed
  ultimately have "reserve n t" using res by (auto simp: reserve_def)
  with r show thesis by (rule that)
qed

lemma descend_progress:
  assumes inv: "paging_inv P s" and u: "walk (ram s) P is = Some u" and len: "length is \<le> 2"
    and ok: "idx_ok is" "i < 512" and res: "reserve (Suc n) s"
  obtains v t where "descend report u i s = Inr (v, t)" and "reserve n t"
proof (cases "GetFlag (load64 (ram s) (entry_addr u i)) Present")
  case True
  with res show thesis by (intro that) (auto simp: descend_eq Let_def intro: reserve_mono)
next
  case False
  have pfa: "pfa_inv s" using inv by (simp add: paging_inv_def)
  obtain p t where r: "mem_pageframeallocator_requestPage s = Inr (p, t)" and t: "reserve n t"
    using reserve_request [OF pfa res] .
  let ?m = "store64 (memset (ram t) p 0 0x1000) (entry_addr u i) (linked (load64 (ram s) (entry_addr u i)) p)"
  have tu: "u \<in> tables (ram s) P" using u len ok by (intro tablesI) auto
  have "?m y = ram t y" if "in_region (Buffer (mem_pfaBitmap t)) (bitmap_len t) y" for y
    using that linked_table_memory(3) [OF inv r tu ok(2)] requestPage_frame(1) [OF pfa r] by simp
  then have "free_pages (t\<lparr>ram := ?m\<rparr>) = free_pages t"
    using pf.request_invar [OF pfa r] by (intro ram_update_agree(2)) auto
  then have "reserve n (t\<lparr>ram := ?m\<rparr>)" "reserve n (t\<lparr>ram := ?m, klog := l\<rparr>)" for l
    using t by (simp_all add: reserve_def free_pages_def)
  with False r have "\<exists>v t. descend report u i s = Inr (v, t) \<and> reserve n t"
    by (cases report) (simp_all add: descend_eq Let_def)
  then show thesis using that by blast
qed

text \<open>
  The tables that a set of paths needs and that are not there yet. Each level of a walk along one of the paths
  takes a frame only if it removes such a path, so the frames a run needs can be counted in advance.
\<close>

definition missing :: "mem \<Rightarrow> u64 \<Rightarrow> u64 list set \<Rightarrow> u64 list set" where
  "missing m P X = {is \<in> X. walk m P is = None}"

definition table_paths :: "u64 \<Rightarrow> u64 list set" where
  "table_paths v = (\<lambda>n. take n (indices v)) ` {1, 2, 3}"

lemma missing_mono:
  assumes "finite X" and "\<And>is. is \<in> X \<Longrightarrow> length is \<le> 3 \<and> idx_ok is"
    and "\<And>is w. length is \<le> 4 \<Longrightarrow> idx_ok is \<Longrightarrow> walk m P is = Some w \<Longrightarrow> walk m' P is = Some w"
  shows "missing m' P X \<subseteq> missing m P X"
proof
  fix x assume "x \<in> missing m' P X"
  then have "x \<in> X" "walk m' P x = None" by (simp_all add: missing_def)
  moreover from this(1) assms(2) have "length x \<le> 4" "idx_ok x" by fastforce+
  ultimately show "x \<in> missing m P X"
    using assms(3) [of x] by (cases "walk m P x") (simp_all add: missing_def)
qed

lemma descend_serves:
  assumes inv: "paging_inv P s" and u: "walk (ram s) P is = Some u" and len: "length is \<le> 2"
    and ok: "idx_ok is" "i < 512" and X: "finite X" "is @ [i] \<in> X" "\<And>is. is \<in> X \<Longrightarrow> length is \<le> 3 \<and> idx_ok is"
    and res: "reserve (n + card (missing (ram s) P X)) s"
  obtains v t where "descend report u i s = Inr (v, t)" and "reserve (n + card (missing (ram t) P X)) t"
proof (cases "GetFlag (load64 (ram s) (entry_addr u i)) Present")
  case True
  with res show thesis by (intro that) (auto simp: descend_eq Let_def)
next
  case False
  let ?M = "missing (ram s) P X"
  have "walk (ram s) P (is @ [i]) = None" using u False by (simp add: walk_snoc Let_def)
  then have in_M: "is @ [i] \<in> ?M" using X(2) by (simp add: missing_def)
  have fin: "finite ?M" using X(1) by (simp add: missing_def)
  then have c: "card ?M = Suc (card (?M - {is @ [i]}))" using in_M by (rule card.remove)
  then have "reserve (Suc (n + card (?M - {is @ [i]}))) s" using res by simp
  then obtain v t where d: "descend report u i s = Inr (v, t)" "reserve (n + card (?M - {is @ [i]})) t"
    using descend_progress [OF inv u len ok] by metis
  note e = descend_effect [OF inv u len ok d(1)]
  have "missing (ram t) P X \<subseteq> ?M" by (rule missing_mono [OF X(1,3) e(6)])
  then have "missing (ram t) P X \<subseteq> ?M - {is @ [i]}" using e(2) by (auto simp: missing_def)
  then have "card (missing (ram t) P X) \<le> card (?M - {is @ [i]})" using fin by (intro card_mono) auto
  with d show thesis by (intro that [of v t]) (auto intro: reserve_mono)
qed

lemma MapMemory_serves:
  assumes inv: "paging_inv P s" and X: "finite X" "table_paths virt \<subseteq> X" "\<And>is. is \<in> X \<Longrightarrow> length is \<le> 3 \<and> idx_ok is"
    and res: "reserve (n + card (missing (ram s) P X)) s"
  obtains t where "PageTable_MapMemory P virt phys debug s = Inr t" and "reserve (n + card (missing (ram t) P X)) t"
proof -
  let ?x = "PageMapIndexer_From virt"
  have ok: "PDP_i ?x < 512" "PD_i ?x < 512" "PT_i ?x < 512" "P_i ?x < 512"
    using indices_ok [of virt] by (simp_all add: indices_code Let_def)
  have paths: "[] @ [PDP_i ?x] \<in> X" "[PDP_i ?x] @ [PD_i ?x] \<in> X" "[PDP_i ?x, PD_i ?x] @ [PT_i ?x] \<in> X"
    using X(2) by (simp_all add: table_paths_def indices_code Let_def)
  define s0 where "s0 = (if debug
               then s\<lparr>klog := log_serial
                 ''Mapping virt %x to phys %x (or %x). Indexer: PDP %u | PD %u | PT %u | P %u\<newline>''
                 [Num virt, Num phys, Num (drop_bit 12 phys), Num (PDP_i ?x), Num (PD_i ?x),
                  Num (PT_i ?x), Num (P_i ?x)] (klog s)\<rparr>
               else s)"
  have s0: "paging_inv P s0" "reserve (n + card (missing (ram s0) P X)) s0"
    using inv res by (simp_all add: s0_def reserve_def free_pages_def)
  have w0: "walk (ram s0) P [] = Some P" by simp
  have l0: "length ([] :: u64 list) \<le> 2" "idx_ok []"
    and l1: "length [PDP_i ?x] \<le> 2" "idx_ok [PDP_i ?x]"
    and l2: "length [PDP_i ?x, PD_i ?x] \<le> 2" "idx_ok [PDP_i ?x, PD_i ?x]"
    and l3: "length [PDP_i ?x, PD_i ?x, PT_i ?x] = 3" "idx_ok [PDP_i ?x, PD_i ?x, PT_i ?x]"
    using ok by simp_all
  obtain a s1 where d1: "descend True P (PDP_i ?x) s0 = Inr (a, s1)" "reserve (n + card (missing (ram s1) P X)) s1"
    using descend_serves [OF s0(1) w0 l0 ok(1) X(1) paths(1) X(3) s0(2)] by blast
  note e1 = descend_effect [OF s0(1) w0 l0 ok(1) d1(1), unfolded append.simps]
  obtain b s2 where d2: "descend False a (PD_i ?x) s1 = Inr (b, s2)" "reserve (n + card (missing (ram s2) P X)) s2"
    using descend_serves [OF e1(1,2) l1 ok(2) X(1) paths(2) X(3) d1(2)] by blast
  note e2 = descend_effect [OF e1(1,2) l1 ok(2) d2(1), unfolded append.simps]
  obtain c s3 where d3: "descend False b (PT_i ?x) s2 = Inr (c, s3)" "reserve (n + card (missing (ram s3) P X)) s3"
    using descend_serves [OF e2(1,2) l2 ok(3) X(1) paths(3) X(3) d2(2)] by blast
  note e3 = descend_effect [OF e2(1,2) l2 ok(3) d3(1), unfolded append.simps]
  obtain t where t: "map_page debug c (P_i ?x) phys s3 = Inr t" by (simp add: map_page_eq Let_def)
  note e4 = map_page_effect [OF e3(1,2) l3 ok(4) t]
  have "missing (ram t) P X = missing (ram s3) P X"
  proof -
    have "walk (ram t) P is = walk (ram s3) P is" if "is \<in> X" for "is"
      using e4(2) [of "is"] X(3) [OF that] by auto
    then show ?thesis by (auto simp: missing_def)
  qed
  then have "reserve (n + card (missing (ram t) P X)) t"
    using d3(2) t e4(5) by (auto simp: reserve_def map_page_eq Let_def split: if_splits)
  moreover have "PageTable_MapMemory P virt phys debug s = Inr t"
    using d1(1) d2(1) d3(1) t by (simp add: PageTable_MapMemory_def Let_def s0_def [symmetric])
  ultimately show thesis using that by blast
qed

lemma table_paths_ok: "is \<in> table_paths v \<Longrightarrow> length is \<le> 3 \<and> idx_ok is"
  using indices_ok [of v] indices_length [of v]
  by (auto simp: table_paths_def idx_ok_def dest: in_set_takeD)

lemma MapMemory_progress:
  assumes inv: "paging_inv P s" and res: "reserve (n + 3) s"
  obtains t where "PageTable_MapMemory P virt phys debug s = Inr t" and "reserve n t"
proof -
  let ?X = "table_paths virt"
  have fin: "finite ?X" by (simp add: table_paths_def)
  have "card ?X \<le> 3" unfolding table_paths_def by (rule order_trans [OF card_image_le]) simp_all
  moreover have "card (missing (ram s) P ?X) \<le> card ?X"
    by (intro card_mono) (auto simp: missing_def table_paths_def)
  ultimately have r: "reserve (n + card (missing (ram s) P ?X)) s" using reserve_mono [OF res] by simp
  obtain t where "PageTable_MapMemory P virt phys debug s = Inr t" "reserve (n + card (missing (ram t) P ?X)) t"
    using MapMemory_serves [OF inv fin order_refl table_paths_ok [of _ virt] r] by metis
  then show thesis by (intro that) (auto intro: reserve_mono)
qed

section \<open>Properties\<close>

lemma MapMemory_translate:
  assumes "paging_inv P s" and "PageTable_MapMemory P virt phys debug s = Inr t"
  shows "paging_inv P t" and "translate (ram t) P v =
      (if page_number v = page_number virt then Some (frame_bits phys) else translate (ram s) P v)"
    and "mem_pfaBitmap t = mem_pfaBitmap s" and "pfa.more t = pfa.more s" and "area_kept P s t"
  using MapMemory_cases [OF assms(1), of virt phys debug] assms(2)
  by (auto simp: translate_def indices_ok indices_length indices_eq_iff)

text \<open>An empty top-level table satisfies the invariant.\<close>

lemma empty_page_walk:
  assumes P: "aligned P" and empty: "\<And>x. in_region P 4096 x \<Longrightarrow> m x = 0" and ok: "idx_ok is"
  shows "walk m P is = (if is = [] then Some P else None)"
proof -
  have "load64 m (entry_addr P j) = 0" if "j < 512" for j
    by (rule load64_zero) (use empty entry_in_page [OF P that] in blast)
  with ok show ?thesis by (cases "is") (simp_all add: GetFlag_bit Let_def)
qed

lemma paging_inv_empty:
  assumes inv: "pfa_inv s" "unat (Size (mem_pfaBitmap s)) * 8 \<le> 2 ^ 40"
    and empty: "\<And>x. in_region P 4096 x \<Longrightarrow> ram s x = 0" and P: "aligned P" "P \<notin> free_frames s"
    and sep: "\<And>u. u = P \<or> u \<in> managed_frames s \<Longrightarrow>
        region_disjoint u 4096 (Buffer (mem_pfaBitmap s)) (bitmap_len s)"
  shows "paging_inv P s"
proof -
  have w: "walk (ram s) P is = (if is = [] then Some P else None)" if "idx_ok is" for "is"
    using empty_page_walk [of P "ram s" "is"] P(1) empty that by blast
  have e: "is = []" if "walk (ram s) P is \<noteq> None" "idx_ok is" for "is"
    using w [OF that(2)] that(1) by (auto split: if_splits)
  have "tables (ram s) P = {P}" unfolding tables_def by (auto simp: w split: if_splits intro: exI [of _ "[]"])
  moreover from this have "pt_tree (ram s) P" using P(1) e unfolding pt_tree_def by (simp, metis)
  ultimately show ?thesis using inv P sep by (auto simp: paging_inv_def)
qed

definition paging_example :: pfa where
  "paging_example = pfa_example\<lparr>mem_freeMemory := 0x100000\<rparr>"

lemma paging_example_fields:
  "mem_pfaBitmap paging_example = \<lparr>Size = 1, Buffer = 0xffff800000100000\<rparr>"
  "in_region 0x1000 4096 x \<Longrightarrow> ram paging_example x = 0"
  by (auto simp: paging_example_def pfa_example_def in_region_no_wrap)

lemma paging_example_free: "{3, 4, 5} \<subseteq> free_pages paging_example" "1 \<notin> free_pages paging_example"
  by (simp_all add: free_pages_def paging_example_def pfa_example_def Bitmap_get_def)

lemma paging_example_inv: "paging_inv 0x1000 paging_example"
proof (rule paging_inv_empty)
  show inv: "pfa_inv paging_example"
    by (simp add: pfa_inv_def paging_example_def pfa_example_def)
  show "0x1000 \<notin> free_frames paging_example"
  proof
    assume "0x1000 \<in> free_frames paging_example"
    then obtain i where i: "i \<in> free_pages paging_example" "0x1000 = i * 4096"
      by (auto simp: free_frames_def)
    then have "0x1000 div 4096 = i" using managed_index [OF inv free_pages_lt] by metis
    with i(1) paging_example_free(2) show False by simp
  qed
  show "region_disjoint u 4096 (Buffer (mem_pfaBitmap paging_example)) (bitmap_len paging_example)"
    if "u = 0x1000 \<or> u \<in> managed_frames paging_example" for u
  proof (rule region_disjoint_no_wrap)
    have "unat u \<le> 0x7000"
    proof (cases "u = 0x1000")
      case False
      with that obtain i where "u = i * 4096" "i < 8"
        by (auto simp: managed_frames_def paging_example_fields(1))
      moreover from this have "unat i \<le> 7" by (simp add: word_less_nat_alt)
      ultimately show ?thesis using unat_mult_no_wrap [of i 4096] by simp
    qed simp
    then show "unat u + 4096 \<le> 2 ^ 64" "unat u + 4096 \<le> unat (Buffer (mem_pfaBitmap paging_example)) \<or>
       unat (Buffer (mem_pfaBitmap paging_example)) + bitmap_len paging_example \<le> unat u"
      by (simp_all add: paging_example_fields(1))
  qed (simp add: paging_example_fields(1))
qed (simp_all add: paging_example_fields aligned_def)

text \<open>C8: \<open>PageTable_MapMemory\<close> refines one update of the address space. From every state whose
  tables form a tree and are not free frames, it either halts because a page frame request found no
  memory (the "mapping failure" panics are unreachable), or it returns with the invariant kept, every
  address of the page of \<open>virt\<close> translated to the frame of \<open>phys\<close>, and every other translation as
  before.\<close>

theorem MapMemory_refines_update:
  assumes "paging_inv P s"
  shows "case PageTable_MapMemory P virt phys debug s of
      Inl e \<Rightarrow> e = Panic ''Out of memory''
    | Inr t \<Rightarrow> paging_inv P t \<and>
        (\<forall>v. translate (ram t) P v =
           (if page_number v = page_number virt then Some (frame_bits phys) else translate (ram s) P v))"
proof (cases "PageTable_MapMemory P virt phys debug s")
  case (Inl e)
  then show ?thesis using MapMemory_cases [OF assms, of virt phys debug] by simp
next
  case (Inr t)
  then show ?thesis using MapMemory_translate [OF assms Inr] by simp
qed

theorem MapMemory_refines_update_witness:
  "case PageTable_MapMemory 0x1000 0xffffa00000002abc 0x5000 True paging_example of
      Inl e \<Rightarrow> e = Panic ''Out of memory''
    | Inr t \<Rightarrow> translate (ram t) 0x1000 0xffffa00000002000 = Some 0x5000 \<and>
        translate (ram t) 0x1000 0xffffa00000003000 = None"
proof -
  have "translate (ram paging_example) 0x1000 0xffffa00000003000 = None"
    using empty_page_walk [of "0x1000" "ram paging_example" "indices 0xffffa00000003000"]
      paging_example_fields(2) indices_ok indices_length [of "0xffffa00000003000"]
    by (auto simp: translate_def aligned_def)
  moreover have "page_number 0xffffa00000002000 = page_number 0xffffa00000002abc"
    "page_number 0xffffa00000003000 \<noteq> page_number 0xffffa00000002abc" "frame_bits 0x5000 = 0x5000"
    by (simp_all add: page_number_def frame_bits_def)
  ultimately show ?thesis
    using MapMemory_refines_update [OF paging_example_inv, of "0xffffa00000002abc" "0x5000" True]
    by (auto split: sum.splits)
qed

text \<open>Mapping a page succeeds whenever the allocator can serve three more requests, one for each
  level that may be missing: three pages free and at least 24576 bytes on the free counter.\<close>

theorem MapMemory_succeeds:
  assumes "paging_inv P s" and "3 \<le> card (free_pages s)" and "24576 \<le> unat (mem_freeMemory s)"
  shows "\<exists>t. PageTable_MapMemory P virt phys debug s = Inr t \<and> translate (ram t) P virt = Some (frame_bits phys)"
proof -
  have "reserve (0 + 3) s" using assms(2,3) by (simp add: reserve_def)
  then obtain t where "PageTable_MapMemory P virt phys debug s = Inr t"
    using MapMemory_progress [OF assms(1)] by blast
  with MapMemory_translate [OF assms(1) this] show ?thesis by simp
qed

theorem MapMemory_succeeds_witness:
  "\<exists>t. PageTable_MapMemory 0x1000 0xffffa00000002abc 0x5000 True paging_example = Inr t \<and>
       translate (ram t) 0x1000 0xffffa00000002abc = Some (frame_bits 0x5000)"
proof (rule MapMemory_succeeds [OF paging_example_inv])
  have "card {3, 4, 5 :: u64} \<le> card (free_pages paging_example)"
    by (rule card_mono [OF _ paging_example_free(1)]) simp
  then show "3 \<le> card (free_pages paging_example)" by simp
  show "24576 \<le> unat (mem_freeMemory paging_example)" by (simp add: paging_example_def)
qed

text \<open>The fields of a page table entry are independent: setting a flag or the address reads back
  (40 bits of the frame number) and changes no other flag and no other field.\<close>

theorem entry_fields_independent:
  "GetFlag (SetFlag e f b) g = (if g = f then b else GetFlag e g) \<and>
   GetAddress (SetFlag e f b) = GetAddress e \<and>
   GetAddress (SetAddress e a) = take_bit 40 a \<and>
   GetFlag (SetAddress e a) f = GetFlag e f"
proof (intro conjI)
  have f: "flag_bit f < 12 \<or> flag_bit f = 63" for f by (cases f) simp_all
  have inj: "flag_bit g = flag_bit f \<Longrightarrow> g = f" by (cases f; cases g) simp_all
  then show "GetFlag (SetFlag e f b) g = (if g = f then b else GetFlag e g)"
    by (auto simp: entry_bits)
  show "GetAddress (SetFlag e f b) = GetAddress e"
    by (rule bit_word_eqI) (use f [of f] in \<open>auto simp: entry_bits\<close>)
  show "GetAddress (SetAddress e a) = take_bit 40 a"
    by (rule bit_word_eqI) (auto simp: entry_bits bit_take_bit_iff)
  show "GetFlag (SetAddress e a) f = GetFlag e f"
    using f [of f] by (auto simp: entry_bits)
qed

end
