(* ===== verification/Heap.thy ===== *)
theory Heap
  imports Address_Space
begin

text \<open>
  \<^verbatim>\<open>kernel/mem/heap.cpp\<close> and \<^verbatim>\<open>heap.h\<close>: the kernel heap, a doubly linked list of segments whose headers
  lie in the memory they describe. The definitions follow the code store by store; the header is
  packed, so its fields are at offsets 4, 12, 20 and 28 of 29 bytes. A null \<open>next\<close> is not checked
  by \<open>split\<close>: the store then goes to address 20, which the boot code has mapped.
\<close>

section \<open>Segment headers\<close>

abbreviation (input) HeapSegHdr_size :: u64 where
  "HeapSegHdr_size \<equiv> 29"

definition hdr_length :: "mem \<Rightarrow> u64 \<Rightarrow> u64" where
  "hdr_length m h = load64 m (h + 4)"

definition hdr_next :: "mem \<Rightarrow> u64 \<Rightarrow> u64" where
  "hdr_next m h = load64 m (h + 12)"

definition hdr_last :: "mem \<Rightarrow> u64 \<Rightarrow> u64" where
  "hdr_last m h = load64 m (h + 20)"

definition hdr_free :: "mem \<Rightarrow> u64 \<Rightarrow> bool" where
  "hdr_free m h \<longleftrightarrow> m (h + 28) \<noteq> 0"

definition set_length :: "u64 \<Rightarrow> u64 \<Rightarrow> mem \<Rightarrow> mem" where
  "set_length h v m = store64 m (h + 4) v"

definition set_next :: "u64 \<Rightarrow> u64 \<Rightarrow> mem \<Rightarrow> mem" where
  "set_next h v m = store64 m (h + 12) v"

definition set_last :: "u64 \<Rightarrow> u64 \<Rightarrow> mem \<Rightarrow> mem" where
  "set_last h v m = store64 m (h + 20) v"

definition set_free :: "u64 \<Rightarrow> bool \<Rightarrow> mem \<Rightarrow> mem" where
  "set_free h b m = m(h + 28 := (if b then 1 else 0))"

section \<open>Operations\<close>

record heap = pfa +
  globalPageTable :: u64
  heapStart :: u64
  heapEnd :: u64
  LastHdr :: u64

definition combineForward :: "u64 \<Rightarrow> 'z heap_scheme \<Rightarrow> 'z heap_scheme" where
  "combineForward this s =
     (let m = ram s in
      if hdr_next m this = 0 then s
      else if \<not> hdr_free m (hdr_next m this) then s
      else
        let s = (if hdr_next m this = LastHdr s then s\<lparr>LastHdr := this\<rparr> else s);
            m = (if hdr_next m (hdr_next m this) \<noteq> 0
                 then set_last (hdr_next m (hdr_next m this)) this m else m);
            m = set_length this (hdr_length m this + hdr_length m (hdr_next m this) + HeapSegHdr_size) m;
            m = set_next this (hdr_next m (hdr_next m this)) m
        in s\<lparr>ram := m\<rparr>)"

definition combineBackward :: "u64 \<Rightarrow> 'z heap_scheme \<Rightarrow> 'z heap_scheme" where
  "combineBackward this s =
     (let last = hdr_last (ram s) this in
      if last \<noteq> 0 \<and> hdr_free (ram s) last then combineForward last s else s)"

text \<open>\<open>splitSegLength\<close> is an \<open>int64_t\<close>, so the second guard is a signed comparison.\<close>

definition split_hdr :: "u64 \<Rightarrow> u64 \<Rightarrow> 'z heap_scheme \<Rightarrow> u64 \<times> 'z heap_scheme" where
  "split_hdr this splitLength s =
     (if splitLength < 0x10 then (0, s)
      else
        let m = ram s;
            splitSegLength = hdr_length m this - splitLength - HeapSegHdr_size
        in if sint splitSegLength < 0x10 then (0, s)
        else
          let newSplitHdr = this + splitLength + HeapSegHdr_size;
              m = set_last (hdr_next m this) newSplitHdr m;
              m = set_next newSplitHdr (hdr_next m this) m;
              m = set_next this newSplitHdr m;
              m = set_last newSplitHdr this m;
              m = set_length newSplitHdr splitSegLength m;
              m = set_free newSplitHdr (hdr_free m this) m;
              m = set_length this splitLength m
          in (newSplitHdr, s\<lparr>ram := m, LastHdr := (if LastHdr s = this then newSplitHdr else LastHdr s)\<rparr>))"

definition free :: "u64 \<Rightarrow> 'z heap_scheme \<Rightarrow> 'z heap_scheme" where
  "free address s =
     (let segment = address - HeapSegHdr_size;
          s = s\<lparr>ram := set_free segment True (ram s)\<rparr>;
          s = combineForward segment s
      in combineBackward segment s)"

definition sfree :: "u64 \<Rightarrow> u64 \<Rightarrow> 'z heap_scheme \<Rightarrow> 'z heap_scheme" where
  "sfree address sz s =
     (let segment = address - HeapSegHdr_size;
          s = s\<lparr>ram := set_free segment True (ram s)\<rparr>;
          s = combineForward segment s;
          s = combineBackward segment s
      in s\<lparr>ram := memset (ram s) address 0 sz\<rparr>)"

text \<open>
  One page of the heap window: \<open>PageTable_MapMemory(globalPageTable, virt, requestPage(), debug)\<close>.
\<close>

definition map_heap_page :: "bool \<Rightarrow> u64 \<Rightarrow> 'z heap_scheme \<Rightarrow> 'z heap_scheme res" where
  "map_heap_page debug virt s =
     bind_r (mem_pageframeallocator_requestPage s) (\<lambda>(phys, s).
       PageTable_MapMemory (globalPageTable s) virt phys debug s)"

text \<open>The default initialiser of \<open>magic\<close> does not run: headers are only cast from memory.\<close>

definition initHeap :: "u64 \<Rightarrow> u64 \<Rightarrow> 'z heap_scheme \<Rightarrow> 'z heap_scheme res" where
  "initHeap heapAddress pageCount s =
     bind_r (for_each (\<lambda>i (pos, s). bind_r (map_heap_page True pos s) (\<lambda>s. Inr (pos + 0x1000, s)))
               (count_upto pageCount) (heapAddress, s)) (\<lambda>(pos, s).
       let heapLength = pageCount * 0x1000;
           s = s\<lparr>heapStart := heapAddress, heapEnd := heapAddress + heapLength\<rparr>;
           m = set_length heapAddress (heapLength - HeapSegHdr_size) (ram s);
           m = set_next heapAddress 0 m;
           m = set_last heapAddress 0 m;
           m = set_free heapAddress True m
       in Inr (s\<lparr>ram := m, LastHdr := heapAddress\<rparr>))"

definition expandHeap :: "u64 \<Rightarrow> 'z heap_scheme \<Rightarrow> 'z heap_scheme res" where
  "expandHeap len s =
     (let len = (if len mod 0x1000 \<noteq> 0 then len - len mod 0x1000 + 0x1000 else len);
          pageCount = len div 0x1000;
          align = heapEnd s mod 0x1000;
          s = (if align > 0 then s\<lparr>heapEnd := heapEnd s + (0x1000 - align)\<rparr> else s);
          newSegment = heapEnd s
      in bind_r (for_each (\<lambda>i s. bind_r (map_heap_page False (heapEnd s) s)
                    (\<lambda>s. Inr (s\<lparr>heapEnd := heapEnd s + 0x1000\<rparr>)))
                  (count_upto pageCount) s) (\<lambda>s.
         let m = set_free newSegment True (ram s);
             m = set_last newSegment (LastHdr s) m;
             m = set_next (LastHdr s) newSegment m;
             s = s\<lparr>LastHdr := newSegment\<rparr>;
             m = set_next newSegment 0 m;
             m = set_length newSegment (len - HeapSegHdr_size) m
         in Inr (combineBackward newSegment (s\<lparr>ram := m\<rparr>))))"

text \<open>
  The loop of \<open>malloc\<close>: the first segment that fits, or \<open>Some None\<close> at the end of the list. On a cyclic list
  it never ends (\<open>None\<close>).
\<close>

partial_function (option) find_fit :: "mem \<Rightarrow> u64 \<Rightarrow> u64 \<Rightarrow> u64 option option" where
  "find_fit m sz currentSeg =
     (if hdr_free m currentSeg \<and> (hdr_length m currentSeg > sz \<or> hdr_length m currentSeg = sz)
      then Some (Some currentSeg)
      else if hdr_next m currentSeg = 0 then Some None
      else find_fit m sz (hdr_next m currentSeg))"

text \<open>The body for a segment that fits. \<open>memset(addr, size, 0)\<close> writes zero bytes: \<open>size\<close> is the
  value and \<open>0\<close> the count.\<close>

definition take_segment :: "u64 \<Rightarrow> u64 \<Rightarrow> 'z heap_scheme \<Rightarrow> u64 \<times> 'z heap_scheme" where
  "take_segment currentSeg sz s =
     (let s = (if hdr_length (ram s) currentSeg > sz then snd (split_hdr currentSeg sz s) else s);
          s = s\<lparr>ram := set_free currentSeg False (ram s)\<rparr>;
          addr = currentSeg + HeapSegHdr_size
      in (addr, s\<lparr>ram := memset (ram s) addr (ucast sz) 0\<rparr>))"

definition align16 :: "u64 \<Rightarrow> u64" where
  "align16 sz = (if sz mod 0x10 > 0 then sz - sz mod 0x10 + 0x10 else sz)"

partial_function (option) malloc :: "u64 \<Rightarrow> 'z heap_scheme \<Rightarrow> (u64 \<times> 'z heap_scheme) res option" where
  "malloc sz s =
     (if align16 sz = 0 then Some (Inr (0, s))
      else case find_fit (ram s) (align16 sz) (heapStart s) of
        None \<Rightarrow> None
      | Some (Some seg) \<Rightarrow> Some (Inr (take_segment seg (align16 sz) s))
      | Some None \<Rightarrow> (case expandHeap (align16 sz) s of
              Inl e \<Rightarrow> Some (Inl e)
            | Inr t \<Rightarrow> malloc (align16 sz) t))"

partial_function (option) used_loop :: "mem \<Rightarrow> u64 \<Rightarrow> u64 \<Rightarrow> u64 option" where
  "used_loop m used currentSeg =
     (let used = (if \<not> hdr_free m currentSeg then used + (hdr_length m currentSeg + HeapSegHdr_size) else used)
      in if hdr_next m currentSeg = 0 then Some used else used_loop m used (hdr_next m currentSeg))"

definition getUsedMem :: "'z heap_scheme \<Rightarrow> u64 option" where
  "getUsedMem s = used_loop (ram s) 0 (heapStart s)"

end
