(* ===== verification/Heap_Segments.thy ===== *)
theory Heap_Segments
  imports Heap
begin

text \<open>
  The abstract heap: a list of segments that tile the heap window, and when a memory holds it. The
  header fields are instances of one interface, so that a store to one header is known not to
  change any other.
\<close>

section \<open>Header fields\<close>

locale header_field =
  fixes get :: "mem \<Rightarrow> u64 \<Rightarrow> 'v" and set :: "u64 \<Rightarrow> 'v \<Rightarrow> mem \<Rightarrow> mem"
  assumes get_set: "get (set h v m) h = v"
    and set_frame: "\<not> in_region h 29 x \<Longrightarrow> set h v m x = m x"
    and get_cong: "(\<And>x. in_region h 29 x \<Longrightarrow> m x = m' x) \<Longrightarrow> get m h = get m' h"

lemma in_field:
  assumes "in_region (h + of_nat k) w x" and "k + w \<le> 29"
  shows "k \<le> unat (x - h)" and "unat (x - h) < k + w"
proof -
  have k: "unat (of_nat k :: u64) = k" using assms(2) by (simp add: unat_of_nat_small)
  let ?d = "x - (h + of_nat k)"
  have "unat ?d < w" using assms(1) by (simp add: in_region_def)
  then have "unat (?d + of_nat k) = unat ?d + k"
    using assms(2) k unat_add_no_wrap [of ?d "of_nat k"] by simp
  moreover have "?d + of_nat k = x - h" by simp
  ultimately show "k \<le> unat (x - h)" "unat (x - h) < k + w" using \<open>unat ?d < w\<close> by simp_all
qed

lemma in_header:
  "in_region (h + 4) 8 x \<Longrightarrow> in_region h 29 x" "in_region (h + 12) 8 x \<Longrightarrow> in_region h 29 x"
  "in_region (h + 20) 8 x \<Longrightarrow> in_region h 29 x" "x = h + 28 \<Longrightarrow> in_region h 29 x"
  using in_field [of h 4 8 x] in_field [of h 12 8 x] in_field [of h 20 8 x] in_field [of h 28 1 x]
  by (auto simp: in_region_def)

lemma fields_disjoint:
  "region_disjoint (h + 4) 8 (h + 12) 8" "region_disjoint (h + 4) 8 (h + 20) 8"
  "region_disjoint (h + 12) 8 (h + 20) 8" "\<not> in_region (h + 4) 8 (h + 28)"
  "\<not> in_region (h + 12) 8 (h + 28)" "\<not> in_region (h + 20) 8 (h + 28)"
  using in_field [of h 4 8] in_field [of h 12 8] in_field [of h 20 8]
  unfolding region_disjoint_def by (fastforce simp: in_region_def)+

lemmas hdr_defs = hdr_length_def hdr_next_def hdr_last_def hdr_free_def
  set_length_def set_next_def set_last_def set_free_def

interpretation fl: header_field hdr_length set_length
  by unfold_locales (auto simp: hdr_defs c64.load_store intro!: c64.store_frame c64.load_cong dest: in_header)

interpretation fn: header_field hdr_next set_next
  by unfold_locales (auto simp: hdr_defs c64.load_store intro!: c64.store_frame c64.load_cong dest: in_header)

interpretation fp: header_field hdr_last set_last
  by unfold_locales (auto simp: hdr_defs c64.load_store intro!: c64.store_frame c64.load_cong dest: in_header)

interpretation ff: header_field hdr_free set_free
  by unfold_locales (auto simp: hdr_defs in_header)

lemmas hdr_get_set [simp] = fl.get_set fn.get_set fp.get_set ff.get_set
lemmas hdr_frame = fl.set_frame fn.set_frame fp.set_frame ff.set_frame
lemmas hdr_cong = fl.get_cong fn.get_cong fp.get_cong ff.get_cong

lemma load64_upd: "\<not> in_region a 8 b \<Longrightarrow> load64 (m(b := v)) a = load64 m a"
  by (rule c64.load_cong) auto

lemma hdr_cross [simp]:
  "hdr_length (set_next h v m) h = hdr_length m h" "hdr_length (set_last h v m) h = hdr_length m h"
  "hdr_length (set_free h b m) h = hdr_length m h" "hdr_next (set_length h v m) h = hdr_next m h"
  "hdr_next (set_last h v m) h = hdr_next m h" "hdr_next (set_free h b m) h = hdr_next m h"
  "hdr_last (set_length h v m) h = hdr_last m h" "hdr_last (set_next h v m) h = hdr_last m h"
  "hdr_last (set_free h b m) h = hdr_last m h" "hdr_free (set_length h v m) h = hdr_free m h"
  "hdr_free (set_next h v m) h = hdr_free m h" "hdr_free (set_last h v m) h = hdr_free m h"
  using fields_disjoint [of h] fields_disjoint(1-3) [THEN region_disjoint_sym, of h]
  by (simp_all add: hdr_defs c64.load_store_other c64.store_frame load64_upd)

section \<open>Segments\<close>

datatype seg = Seg (sg_addr: u64) (sg_len: u64) (sg_free: bool)

definition hdr_holds :: "mem \<Rightarrow> seg \<Rightarrow> u64 \<Rightarrow> u64 \<Rightarrow> bool" where
  "hdr_holds m s prev nxt \<longleftrightarrow> hdr_length m (sg_addr s) = sg_len s \<and> hdr_free m (sg_addr s) = sg_free s \<and>
     hdr_last m (sg_addr s) = prev \<and> hdr_next m (sg_addr s) = nxt"

fun first_addr :: "seg list \<Rightarrow> u64 \<Rightarrow> u64" where
  "first_addr [] d = d"
| "first_addr (s # ss) d = sg_addr s"

fun last_addr :: "u64 \<Rightarrow> seg list \<Rightarrow> u64" where
  "last_addr d [] = d"
| "last_addr d (s # ss) = last_addr (sg_addr s) ss"

text \<open>The headers of \<open>ss\<close> are linked in both directions, between \<open>prev\<close> and \<open>nxt\<close>.\<close>

fun chain :: "mem \<Rightarrow> u64 \<Rightarrow> seg list \<Rightarrow> u64 \<Rightarrow> bool" where
  "chain m prev [] nxt \<longleftrightarrow> True"
| "chain m prev (s # ss) nxt \<longleftrightarrow> hdr_holds m s prev (first_addr ss nxt) \<and> chain m (sg_addr s) ss nxt"

lemma first_addr_append [simp]: "first_addr (xs @ ys) d = first_addr xs (first_addr ys d)"
  by (cases xs) simp_all

lemma last_addr_append [simp]: "last_addr d (xs @ ys) = last_addr (last_addr d xs) ys"
  by (induction xs arbitrary: d) simp_all

lemma chain_append [simp]:
  "chain m prev (xs @ ys) nxt \<longleftrightarrow> chain m prev xs (first_addr ys nxt) \<and> chain m (last_addr prev xs) ys nxt"
  by (induction xs arbitrary: prev) auto

lemma hdr_holds_cong:
  "(\<And>x. in_region (sg_addr s) 29 x \<Longrightarrow> m' x = m x) \<Longrightarrow> hdr_holds m' s p n = hdr_holds m s p n"
  using hdr_cong [of "sg_addr s" m' m] unfolding hdr_holds_def by presburger

lemma chain_cong:
  "(\<And>s x. s \<in> set ss \<Longrightarrow> in_region (sg_addr s) 29 x \<Longrightarrow> m' x = m x) \<Longrightarrow>
   chain m' prev ss nxt = chain m prev ss nxt"
proof (induction ss arbitrary: prev)
  case (Cons t ss)
  then have "hdr_holds m' t prev (first_addr ss nxt) = hdr_holds m t prev (first_addr ss nxt)"
    by (intro hdr_holds_cong) (metis list.set_intros(1))
  moreover have "chain m' (sg_addr t) ss nxt = chain m (sg_addr t) ss nxt"
    by (rule Cons.IH) (metis Cons.prems list.set_intros(2))
  ultimately show ?case by simp
qed simp

text \<open>The segments tile the addresses from \<open>lo\<close> to \<open>hi\<close>.\<close>

abbreviation seg_end :: "seg \<Rightarrow> nat" where
  "seg_end s \<equiv> unat (sg_addr s) + 29 + unat (sg_len s)"

fun tiles :: "nat \<Rightarrow> seg list \<Rightarrow> nat \<Rightarrow> bool" where
  "tiles lo [] hi \<longleftrightarrow> lo = hi"
| "tiles lo (s # ss) hi \<longleftrightarrow> unat (sg_addr s) = lo \<and> tiles (seg_end s) ss hi"

lemma tiles_append: "tiles lo (xs @ ys) hi \<longleftrightarrow> (\<exists>mid. tiles lo xs mid \<and> tiles mid ys hi)"
  by (induction xs arbitrary: lo) auto

lemma tiles_le: "tiles lo ss hi \<Longrightarrow> lo \<le> hi"
  by (induction ss arbitrary: lo) force+

lemma tiles_in: "tiles lo ss hi \<Longrightarrow> s \<in> set ss \<Longrightarrow> lo \<le> unat (sg_addr s) \<and> seg_end s \<le> hi"
proof (induction ss arbitrary: lo)
  case (Cons t ss)
  then show ?case using tiles_le [of "seg_end t" ss hi] by fastforce
qed simp

text \<open>What lies outside \<open>[lo, hi)\<close> does not matter for the headers of a tiling.\<close>

lemma chain_outside:
  assumes "tiles lo ss hi" and "hi \<le> 2 ^ 64"
    and "\<And>x. lo \<le> unat x \<Longrightarrow> unat x < hi \<Longrightarrow> m' x = m x"
  shows "chain m' prev ss nxt = chain m prev ss nxt"
proof (rule chain_cong)
  fix s x assume s: "s \<in> set ss" and x: "in_region (sg_addr s) 29 x"
  note b = tiles_in [OF assms(1) s]
  have "in_region (sg_addr s) 29 x \<longleftrightarrow> unat (sg_addr s) \<le> unat x \<and> unat x < unat (sg_addr s) + 29"
    by (rule in_region_no_wrap) (use b assms(2) in simp)
  with x b show "m' x = m x" by (intro assms(3)) auto
qed

lemma hdr_other:
  assumes "region_disjoint h 29 h' 29"
  shows "hdr_length (set_length h v m) h' = hdr_length m h'" "hdr_length (set_next h v m) h' = hdr_length m h'"
    "hdr_length (set_last h v m) h' = hdr_length m h'" "hdr_length (set_free h b m) h' = hdr_length m h'"
    "hdr_next (set_length h v m) h' = hdr_next m h'" "hdr_next (set_next h v m) h' = hdr_next m h'"
    "hdr_next (set_last h v m) h' = hdr_next m h'" "hdr_next (set_free h b m) h' = hdr_next m h'"
    "hdr_last (set_length h v m) h' = hdr_last m h'" "hdr_last (set_next h v m) h' = hdr_last m h'"
    "hdr_last (set_last h v m) h' = hdr_last m h'" "hdr_last (set_free h b m) h' = hdr_last m h'"
    "hdr_free (set_length h v m) h' = hdr_free m h'" "hdr_free (set_next h v m) h' = hdr_free m h'"
    "hdr_free (set_last h v m) h' = hdr_free m h'" "hdr_free (set_free h b m) h' = hdr_free m h'"
  using region_disjointD [OF region_disjoint_sym [OF assms]]
  by (auto intro!: hdr_cong hdr_frame)

lemma hdr_range:
  "unat a + 29 \<le> 2 ^ 64 \<Longrightarrow> in_region a 29 x \<longleftrightarrow> unat a \<le> unat x \<and> unat x < unat a + 29"
  by (rule in_region_no_wrap)

lemma hdr_before:
  assumes "unat a + 29 \<le> unat b" and "unat b + 29 \<le> 2 ^ 64"
  shows "region_disjoint a 29 b 29" and "region_disjoint b 29 a 29"
  using assms by (auto intro!: region_disjoint_no_wrap)

section \<open>Well-formed heaps\<close>

fun no_adjacent_free :: "seg list \<Rightarrow> bool" where
  "no_adjacent_free (s # t # ss) \<longleftrightarrow> \<not> (sg_free s \<and> sg_free t) \<and> no_adjacent_free (t # ss)"
| "no_adjacent_free ss \<longleftrightarrow> True"

lemma no_adjacent_free_append:
  "no_adjacent_free (xs @ ys) \<longleftrightarrow> no_adjacent_free xs \<and> no_adjacent_free ys \<and>
     (xs \<noteq> [] \<and> ys \<noteq> [] \<longrightarrow> \<not> (sg_free (last xs) \<and> sg_free (hd ys)))"
  by (induction xs rule: no_adjacent_free.induct) (cases ys; auto)+

definition heap_ok :: "'z heap_scheme \<Rightarrow> seg list \<Rightarrow> bool" where
  "heap_ok s ss \<longleftrightarrow> ss \<noteq> [] \<and> chain (ram s) 0 ss 0 \<and>
     tiles (unat (heapStart s)) ss (unat (heapEnd s)) \<and> LastHdr s = last_addr 0 ss \<and>
     28 \<le> unat (heapStart s) \<and> unat (heapEnd s) \<le> 2 ^ 63"

definition heap_inv :: "'z heap_scheme \<Rightarrow> seg list \<Rightarrow> bool" where
  "heap_inv s ss \<longleftrightarrow> heap_ok s ss \<and> no_adjacent_free ss"

text \<open>Only bytes of headers differ.\<close>

definition hdrs_only :: "seg list \<Rightarrow> mem \<Rightarrow> mem \<Rightarrow> bool" where
  "hdrs_only ss m m' \<longleftrightarrow> (\<forall>x. (\<forall>u\<in>set ss. \<not> in_region (sg_addr u) 29 x) \<longrightarrow> m' x = m x)"

lemma heap_ok_bounds:
  assumes "heap_ok s ss" and "u \<in> set ss"
  shows "28 \<le> unat (sg_addr u)" and "unat (heapStart s) \<le> unat (sg_addr u)"
    and "seg_end u \<le> unat (heapEnd s)" and "seg_end u \<le> 2 ^ 63" and "sg_addr u \<noteq> 0"
  using assms tiles_in [of "unat (heapStart s)" ss "unat (heapEnd s)" u] by (auto simp: heap_ok_def)

end
