(* ===== verification/Heap_Ops.thy ===== *)
theory Heap_Ops
  imports Heap_Segments
begin

text \<open>
  What the header operations do to the segment list: merging with the next or previous segment,
  splitting, freeing and first-fit search.
\<close>

section \<open>Relinking\<close>

definition relink :: "seg list \<Rightarrow> u64 \<Rightarrow> mem \<Rightarrow> mem" where
  "relink ys q m = (if ys = [] then m else set_last (sg_addr (hd ys)) q m)"

lemma relink_frame: "(\<And>u. u \<in> set ys \<Longrightarrow> \<not> in_region (sg_addr u) 29 x) \<Longrightarrow> relink ys q m x = m x"
  by (cases ys) (simp_all add: relink_def hdr_frame)

lemma relink_hdr:
  assumes "tiles b ys hi" and "hi \<le> 2 ^ 64" and "unat h + 29 \<le> b"
  shows "hdr_length (relink ys q m) h = hdr_length m h" "hdr_next (relink ys q m) h = hdr_next m h"
    "hdr_last (relink ys q m) h = hdr_last m h" "hdr_free (relink ys q m) h = hdr_free m h"
proof -
  have "region_disjoint (sg_addr (hd ys)) 29 h 29" if "ys \<noteq> []"
    using assms tiles_in [OF assms(1), of "hd ys"] that by (intro hdr_before) auto
  then show "hdr_length (relink ys q m) h = hdr_length m h" "hdr_next (relink ys q m) h = hdr_next m h"
    "hdr_last (relink ys q m) h = hdr_last m h" "hdr_free (relink ys q m) h = hdr_free m h"
    by (auto simp: relink_def hdr_other)
qed

lemma chain_relink:
  assumes "chain m p ys nxt" and "tiles b ys hi" and "hi \<le> 2 ^ 64"
    and "\<And>x. b \<le> unat x \<Longrightarrow> unat x < hi \<Longrightarrow> m' x = relink ys q m x"
  shows "chain m' q ys nxt"
proof -
  have "chain (relink ys q m) q ys nxt"
  proof (cases ys)
    case (Cons u us)
    have us: "tiles (seg_end u) us hi" and u: "seg_end u \<le> 2 ^ 64"
      using assms(2,3) tiles_le Cons by fastforce+
    have "chain (set_last (sg_addr u) q m) (sg_addr u) us nxt = chain m (sg_addr u) us nxt"
      using u by (intro chain_outside [OF us assms(3)] hdr_frame) (simp add: hdr_range)
    with assms(1) show ?thesis by (auto simp: Cons relink_def hdr_holds_def)
  qed simp
  moreover have "chain m' q ys nxt = chain (relink ys q m) q ys nxt"
    by (rule chain_outside [OF assms(2,3,4)])
  ultimately show ?thesis by simp
qed

section \<open>Merging\<close>

definition merged :: "seg \<Rightarrow> seg \<Rightarrow> seg" where
  "merged s t = Seg (sg_addr s) (sg_len s + sg_len t + 29) (sg_free s)"

lemma tiles_3:
  assumes "tiles lo (xs @ s # t # ys) hi"
  shows "tiles lo xs (unat (sg_addr s))" and "unat (sg_addr t) = seg_end s" and "tiles (seg_end t) ys hi"
    and "seg_end t \<le> hi"
  using assms tiles_le [of "seg_end t" ys hi] by (auto simp: tiles_append)

lemma merged_end:
  assumes "seg_end t \<le> 2 ^ 63" and "unat (sg_addr t) = seg_end s"
  shows "seg_end (merged s t) = seg_end t" and "unat (sg_len (merged s t)) = unat (sg_len s) + unat (sg_len t) + 29"
proof -
  have "unat (sg_len s + sg_len t) = unat (sg_len s) + unat (sg_len t)"
    using assms by (intro unat_add_no_wrap) simp
  then have l: "unat (sg_len s + sg_len t + 29) = unat (sg_len s) + unat (sg_len t) + 29"
    using assms unat_add_no_wrap [of "sg_len s + sg_len t" 29] by simp
  then show "seg_end (merged s t) = seg_end t" "unat (sg_len (merged s t)) = unat (sg_len s) + unat (sg_len t) + 29"
    using assms(2) by (simp_all add: merged_def)
qed

lemma last_addr_swap:
  assumes "tiles e ys hi" and "unat a < e"
  shows "(if last_addr a ys = a then n else last_addr a ys) = last_addr n ys"
proof (cases ys rule: rev_cases)
  case (snoc us u)
  have "unat a < unat (sg_addr u)" using tiles_in [OF assms(1), of u] assms(2) snoc by simp
  then have "sg_addr u \<noteq> a" by auto
  with snoc show ?thesis by simp
qed simp

lemma combineForward_eq:
  assumes ok: "heap_ok st (xs @ s # t # ys)" and free: "sg_free t"
  shows "combineForward (sg_addr s) st =
     st\<lparr>ram := set_next (sg_addr s) (first_addr ys 0)
            (set_length (sg_addr s) (sg_len (merged s t)) (relink ys (sg_addr s) (ram st))),
        LastHdr := last_addr (sg_addr s) ys\<rparr>"
proof -
  let ?m = "ram st"
  have ti: "tiles (unat (heapStart st)) (xs @ s # t # ys) (unat (heapEnd st))"
    and ch: "chain ?m 0 (xs @ s # t # ys) 0" and hi: "unat (heapEnd st) \<le> 2 ^ 63"
    and lst: "LastHdr st = last_addr (sg_addr t) ys"
    using ok by (simp_all add: heap_ok_def)
  note t3 = tiles_3 [OF ti]
  have hi': "unat (heapEnd st) \<le> 2 ^ 64" using hi by simp
  have nz: "sg_addr t \<noteq> 0" using heap_ok_bounds(5) [OF ok, of t] by simp
  have h: "hdr_next ?m (sg_addr s) = sg_addr t" "hdr_length ?m (sg_addr s) = sg_len s"
    "hdr_next ?m (sg_addr t) = first_addr ys 0" "hdr_length ?m (sg_addr t) = sg_len t" "hdr_free ?m (sg_addr t)"
    using ch free by (auto simp: hdr_holds_def)
  have dis: "region_disjoint (sg_addr s) 29 (sg_addr t) 29"
    using t3(2,4) hi by (intro hdr_before) simp_all
  have fz: "first_addr ys 0 \<noteq> 0 \<longleftrightarrow> ys \<noteq> []" and fa: "ys \<noteq> [] \<Longrightarrow> first_addr ys 0 = sg_addr (hd ys)"
    using heap_ok_bounds(5) [OF ok, of "hd ys"] by (cases ys; simp)+
  have re: "(if first_addr ys 0 \<noteq> 0 then set_last (first_addr ys 0) (sg_addr s) ?m else ?m) = relink ys (sg_addr s) ?m"
    using fz fa by (simp add: relink_def)
  have r: "hdr_length (relink ys (sg_addr s) ?m) (sg_addr s) = sg_len s"
    "hdr_next (relink ys (sg_addr s) ?m) (sg_addr s) = sg_addr t"
    "hdr_length (relink ys (sg_addr s) ?m) (sg_addr t) = sg_len t"
    "hdr_next (relink ys (sg_addr s) ?m) (sg_addr t) = first_addr ys 0"
    using relink_hdr [OF t3(3) hi'] t3(2) h by simp_all
  have last: "(if sg_addr t = LastHdr st then sg_addr s else LastHdr st) = last_addr (sg_addr s) ys"
    using last_addr_swap [OF t3(3), of "sg_addr t" "sg_addr s"] lst by auto
  have "combineForward (sg_addr s) st =
     (if sg_addr t = LastHdr st then st\<lparr>LastHdr := sg_addr s\<rparr> else st)\<lparr>ram :=
        set_next (sg_addr s) (first_addr ys 0)
            (set_length (sg_addr s) (sg_len s + sg_len t + 29) (relink ys (sg_addr s) ?m))\<rparr>"
    unfolding combineForward_def Let_def h re
    using nz h(5) by (simp add: r hdr_other [OF dis])
  then show ?thesis using last by (auto simp: merged_def split: if_splits)
qed

lemma hdrs_only_trans:
  assumes "hdrs_only ss m m'" and "hdrs_only ts m' m''" and "sg_addr ` set ts \<subseteq> sg_addr ` set ss"
  shows "hdrs_only ss m m''"
  unfolding hdrs_only_def
proof (intro allI impI)
  fix x assume x: "\<forall>u\<in>set ss. \<not> in_region (sg_addr u) 29 x"
  then have "\<forall>a\<in>sg_addr ` set ss. \<not> in_region a 29 x" by simp
  with assms(3) have "\<forall>u\<in>set ts. \<not> in_region (sg_addr u) 29 x" by blast
  with x assms(1,2) show "m'' x = m x" by (simp add: hdrs_only_def)
qed

lemma combineForward_merges:
  assumes ok: "heap_ok st (xs @ s # t # ys)" and free: "sg_free t"
  defines "st' \<equiv> combineForward (sg_addr s) st"
  shows "heap_ok st' (xs @ merged s t # ys)" and "hdrs_only (xs @ s # t # ys) (ram st) (ram st')"
    and "st' = st\<lparr>ram := ram st', LastHdr := LastHdr st'\<rparr>"
proof -
  have ti: "tiles (unat (heapStart st)) (xs @ s # t # ys) (unat (heapEnd st))"
    and ch: "chain (ram st) 0 (xs @ s # t # ys) 0" and hi: "unat (heapEnd st) \<le> 2 ^ 64"
    using ok by (simp_all add: heap_ok_def)
  note t3 = tiles_3 [OF ti]
  note eq = combineForward_eq [OF ok free, folded st'_def]
  note me = merged_end [of t s]
  let ?m = "ram st'"
  have m: "?m = set_next (sg_addr s) (first_addr ys 0)
            (set_length (sg_addr s) (sg_len (merged s t)) (relink ys (sg_addr s) (ram st)))"
    by (simp add: eq)
  have out: "?m x = relink ys (sg_addr s) (ram st) x" if "\<not> in_region (sg_addr s) 29 x" for x
    using that by (simp add: m hdr_frame)
  have s_range: "in_region (sg_addr s) 29 x \<longleftrightarrow> unat (sg_addr s) \<le> unat x \<and> unat x < unat (sg_addr s) + 29" for x
    using t3(2,4) hi by (intro hdr_range) simp
  have ys_range: "\<not> in_region (sg_addr u) 29 x" if "u \<in> set ys" "unat x < seg_end t" for u x
    using tiles_in [OF t3(3) that(1)] that(2) hi by (subst hdr_range) auto
  have "chain ?m 0 xs (sg_addr s)"
  proof -
    have "chain ?m 0 xs (sg_addr s) = chain (ram st) 0 xs (sg_addr s)"
    proof (rule chain_outside [OF t3(1)])
      show "unat (sg_addr s) \<le> 2 ^ 64" using t3(2,4) hi by simp
      show "?m x = ram st x" if "unat x < unat (sg_addr s)" for x
        using that t3(2) ys_range [of _ x] by (simp add: out s_range relink_frame)
    qed
    with ch show ?thesis by simp
  qed
  moreover have "chain ?m (sg_addr s) ys 0"
    by (rule chain_relink [OF _ t3(3) hi]) (use ch out s_range t3(2) in auto)
  moreover have "hdr_holds ?m (merged s t) (last_addr 0 xs) (first_addr ys 0)"
    using ch relink_hdr [OF t3(3) hi, of "sg_addr s"] t3(2)
    by (simp add: m hdr_holds_def merged_def)
  moreover have "tiles (unat (heapStart st)) (xs @ merged s t # ys) (unat (heapEnd st))"
  proof -
    have e: "seg_end (merged s t) = seg_end t" using t3(2,4) ok by (intro me) (simp_all add: heap_ok_def)
    have "tiles (unat (sg_addr s)) (merged s t # ys) (unat (heapEnd st))"
      using t3(3) by (simp only: tiles.simps e) (simp add: merged_def)
    with t3(1) show ?thesis by (auto simp only: tiles_append)
  qed
  ultimately show "heap_ok st' (xs @ merged s t # ys)"
    using ok by (simp add: heap_ok_def eq merged_def)
  show "hdrs_only (xs @ s # t # ys) (ram st) (ram st')"
    unfolding hdrs_only_def by (simp add: out relink_frame)
  show "st' = st\<lparr>ram := ram st', LastHdr := LastHdr st'\<rparr>" by (simp add: eq)
qed

lemma combineForward_id:
  assumes "heap_ok st (xs @ s # ys)" and "ys = [] \<or> \<not> sg_free (hd ys)"
  shows "combineForward (sg_addr s) st = st"
proof (cases ys)
  case Nil
  then have "hdr_next (ram st) (sg_addr s) = 0" using assms(1) by (simp add: heap_ok_def hdr_holds_def)
  then show ?thesis by (simp add: combineForward_def)
next
  case (Cons u us)
  then have "hdr_next (ram st) (sg_addr s) = sg_addr u" "\<not> hdr_free (ram st) (sg_addr u)"
    using assms by (simp_all add: heap_ok_def hdr_holds_def)
  then show ?thesis by (simp add: combineForward_def Let_def)
qed

text \<open>Marking one segment.\<close>

lemma set_free_ok:
  assumes ok: "heap_ok st (xs @ s # ys)"
  shows "heap_ok (st\<lparr>ram := set_free (sg_addr s) b (ram st)\<rparr>) (xs @ Seg (sg_addr s) (sg_len s) b # ys)"
    and "hdrs_only (xs @ s # ys) (ram st) (set_free (sg_addr s) b (ram st))"
proof -
  let ?m = "set_free (sg_addr s) b (ram st)"
  have ti: "tiles (unat (heapStart st)) xs (unat (sg_addr s))" "tiles (seg_end s) ys (unat (heapEnd st))"
    and ch: "chain (ram st) 0 (xs @ s # ys) 0" and hi: "unat (heapEnd st) \<le> 2 ^ 64"
    using ok by (auto simp: heap_ok_def tiles_append)
  have s: "seg_end s \<le> 2 ^ 63" using heap_ok_bounds(4) [OF ok, of s] by simp
  have out: "?m x = ram st x" if "unat x < unat (sg_addr s) \<or> seg_end s \<le> unat x" for x
    using that s by (intro hdr_frame) (auto simp: hdr_range)
  have "chain ?m 0 xs (sg_addr s)" "chain ?m (sg_addr s) ys 0"
    using chain_outside [OF ti(1), of ?m "ram st" 0 "sg_addr s"] chain_outside [OF ti(2) hi, of ?m "ram st" "sg_addr s" 0]
      ch out s by auto
  moreover have "hdr_holds ?m (Seg (sg_addr s) (sg_len s) b) (last_addr 0 xs) (first_addr ys 0)"
    using ch by (simp add: hdr_holds_def)
  ultimately show "heap_ok (st\<lparr>ram := ?m\<rparr>) (xs @ Seg (sg_addr s) (sg_len s) b # ys)"
    using ok by (simp add: heap_ok_def tiles_append)
  show "hdrs_only (xs @ s # ys) (ram st) ?m" by (auto simp: hdrs_only_def hdr_frame)
qed

section \<open>Freeing\<close>

text \<open>The specification: every run of free segments becomes one.\<close>

fun merge_free :: "seg list \<Rightarrow> seg list" where
  "merge_free [] = []"
| "merge_free (s # ss) =
     (case merge_free ss of [] \<Rightarrow> [s]
      | t # ts \<Rightarrow> if sg_free s \<and> sg_free t then merged s t # ts else s # t # ts)"

lemma merged_sels [simp]: "sg_free (merged s t) = sg_free s" "sg_addr (merged s t) = sg_addr s"
  by (simp_all add: merged_def)

lemma merge_free_id: "no_adjacent_free ss \<Longrightarrow> merge_free ss = ss"
  by (induction ss rule: no_adjacent_free.induct) simp_all

lemma merge_free_no_adjacent: "no_adjacent_free (merge_free ss)"
proof (induction ss)
  case (Cons s ss)
  show ?case
  proof (cases "merge_free ss")
    case (Cons t ts)
    with Cons.IH show ?thesis by (cases ts) auto
  qed simp
qed simp

lemma merge_free_append:
  assumes "no_adjacent_free xs" and "merge_free zs = z # zs'"
  shows "merge_free (xs @ zs) =
     (if xs \<noteq> [] \<and> sg_free (last xs) \<and> sg_free z then butlast xs @ merged (last xs) z # zs' else xs @ z # zs')"
  using assms by (induction xs rule: no_adjacent_free.induct) auto

lemma merge_free_middle:
  assumes "no_adjacent_free (xs @ s # ys)" and "sg_free s'"
  shows "merge_free (s' # ys) =
    (if ys \<noteq> [] \<and> sg_free (hd ys) then merged s' (hd ys) # tl ys else s' # ys)"
  using assms merge_free_id [of ys] by (cases ys) (auto simp: no_adjacent_free_append split: if_splits list.splits)

lemma combine_refines:
  assumes ok: "heap_ok st (xs @ s # ys)" and s: "sg_free s" and adj: "no_adjacent_free (xs @ s0 # ys)"
  defines "st' \<equiv> combineBackward (sg_addr s) (combineForward (sg_addr s) st)"
  shows "heap_ok st' (merge_free (xs @ s # ys))" and "hdrs_only (xs @ s # ys) (ram st) (ram st')"
    and "st' = st\<lparr>ram := ram st', LastHdr := LastHdr st'\<rparr>"
proof -
  have adjx: "no_adjacent_free xs" using adj by (simp add: no_adjacent_free_append)
  let ?st1 = "combineForward (sg_addr s) st"
  obtain z zs where z: "merge_free (s # ys) = z # zs" "sg_addr z = sg_addr s" "sg_free z"
    and ok1: "heap_ok ?st1 (xs @ z # zs)" and h1: "hdrs_only (xs @ s # ys) (ram st) (ram ?st1)"
    and st1: "?st1 = st\<lparr>ram := ram ?st1, LastHdr := LastHdr ?st1\<rparr>"
    and sub: "set zs \<subseteq> set ys"
  proof (cases "ys \<noteq> [] \<and> sg_free (hd ys)")
    case True
    then obtain t ts where ys: "ys = t # ts" "sg_free t" by (cases ys) auto
    show thesis
      by (rule that [of "merged s t" ts])
         (use combineForward_merges [OF ok [unfolded ys(1)] ys(2)] merge_free_middle [OF adj s] s in \<open>auto simp: ys\<close>)
  next
    case False
    then have id: "?st1 = st" using combineForward_id [OF ok] by blast
    show thesis
      by (rule that [of s ys]) (use id ok merge_free_middle [OF adj s] s False in \<open>auto simp: hdrs_only_def\<close>)
  qed
  have last: "hdr_last (ram ?st1) (sg_addr s) = last_addr 0 xs"
    using ok1 z(2) by (simp add: heap_ok_def hdr_holds_def)
  note mf = merge_free_append [OF adjx z(1)]
  have "heap_ok st' (merge_free (xs @ s # ys)) \<and> hdrs_only (xs @ s # ys) (ram st) (ram st') \<and>
     st' = st\<lparr>ram := ram st', LastHdr := LastHdr st'\<rparr>"
  proof (cases "xs \<noteq> [] \<and> sg_free (List.last xs)")
    case True
    define xs' p where "xs' = butlast xs" and "p = List.last xs"
    have xs: "xs = xs' @ [p]" "sg_free p" using True by (simp_all add: xs'_def p_def)
    have ok1': "heap_ok ?st1 (xs' @ p # z # zs)" using ok1 by (simp add: xs)
    have "sg_addr p \<noteq> 0" using heap_ok_bounds(5) [OF ok1', of p] by simp
    moreover have "hdr_free (ram ?st1) (sg_addr p)"
      using ok1' xs(2) by (simp add: heap_ok_def hdr_holds_def)
    ultimately have st': "st' = combineForward (sg_addr p) ?st1"
      using last by (simp add: st'_def combineBackward_def xs)
    note c = combineForward_merges [OF ok1' z(3), folded st']
    have "hdrs_only (xs @ s # ys) (ram st) (ram st')"
      by (rule hdrs_only_trans [OF h1 c(2)]) (use sub z(2) in \<open>auto simp: xs\<close>)
    moreover have "st' = st\<lparr>ram := ram st', LastHdr := LastHdr st'\<rparr>"
      using c(3) by (subst (asm) st1) simp
    ultimately show ?thesis using c(1) mf True z(3) xs by simp
  next
    case False
    have "st' = ?st1"
    proof (cases xs rule: rev_cases)
      case (snoc us u)
      then have "\<not> hdr_free (ram ?st1) (sg_addr u)"
        using False ok1 by (simp add: heap_ok_def hdr_holds_def)
      with snoc last show ?thesis by (simp add: st'_def combineBackward_def)
    qed (use last in \<open>simp add: st'_def combineBackward_def\<close>)
    with ok1 h1 st1 mf False show ?thesis by auto
  qed
  then show "heap_ok st' (merge_free (xs @ s # ys))" "hdrs_only (xs @ s # ys) (ram st) (ram st')"
    "st' = st\<lparr>ram := ram st', LastHdr := LastHdr st'\<rparr>" by blast+
qed

lemma free_refines:
  assumes inv: "heap_inv st (xs @ s # ys)"
  defines "st' \<equiv> free (sg_addr s + 29) st"
  shows "heap_inv st' (merge_free (xs @ Seg (sg_addr s) (sg_len s) True # ys))"
    and "hdrs_only (xs @ s # ys) (ram st) (ram st')"
    and "st' = st\<lparr>ram := ram st', LastHdr := LastHdr st'\<rparr>"
proof -
  have ok: "heap_ok st (xs @ s # ys)" and adj: "no_adjacent_free (xs @ s # ys)"
    using inv by (simp_all add: heap_inv_def)
  let ?s = "Seg (sg_addr s) (sg_len s) True"
  let ?st1 = "st\<lparr>ram := set_free (sg_addr s) True (ram st)\<rparr>"
  note f = set_free_ok [OF ok, of True]
  note c = combine_refines [OF f(1) _ adj]
  have st': "st' = combineBackward (sg_addr ?s) (combineForward (sg_addr ?s) ?st1)"
    by (simp add: st'_def free_def Let_def)
  show "heap_inv st' (merge_free (xs @ ?s # ys))"
    using c(1) merge_free_no_adjacent unfolding st' heap_inv_def by simp
  have "hdrs_only (xs @ ?s # ys) (ram ?st1) (ram st')" using c(2) unfolding st' by simp
  then show "hdrs_only (xs @ s # ys) (ram st) (ram st')"
    by (intro hdrs_only_trans [OF f(2)]) auto
  have "st' = ?st1\<lparr>ram := ram st', LastHdr := LastHdr st'\<rparr>" using c(3) unfolding st' by simp
  then show "st' = st\<lparr>ram := ram st', LastHdr := LastHdr st'\<rparr>" by simp
qed

section \<open>Splitting\<close>

definition split_point :: "seg \<Rightarrow> u64 \<Rightarrow> u64" where
  "split_point s sz = sg_addr s + sz + 29"

definition rest_seg :: "seg \<Rightarrow> u64 \<Rightarrow> seg" where
  "rest_seg s sz = Seg (split_point s sz) (sg_len s - sz - 29) (sg_free s)"

lemma split_arith:
  assumes "seg_end s \<le> 2 ^ 63" and "unat sz + 45 \<le> unat (sg_len s)"
  shows "unat (split_point s sz) = unat (sg_addr s) + unat sz + 29"
    and "unat (sg_len s - sz - 29) = unat (sg_len s) - unat sz - 29"
    and "seg_end (rest_seg s sz) = seg_end s"
proof -
  have "unat (sg_addr s + sz) = unat (sg_addr s) + unat sz"
    using assms by (intro unat_add_no_wrap) simp
  then show 1: "unat (split_point s sz) = unat (sg_addr s) + unat sz + 29"
    using assms unat_add_no_wrap [of "sg_addr s + sz" 29] by (simp add: split_point_def)
  have "unat (sg_len s - sz) = unat (sg_len s) - unat sz" using assms(2) by (intro unat_sub_le) simp
  then show 2: "unat (sg_len s - sz - 29) = unat (sg_len s) - unat sz - 29"
    using assms(2) unat_sub_le [of 29 "sg_len s - sz"] by simp
  show "seg_end (rest_seg s sz) = seg_end s"
    using 1 2 assms(2) by (simp add: rest_seg_def)
qed

text \<open>The signed guard of \<open>split\<close> is the intended one for segments below \<open>2^63\<close> bytes.\<close>

lemma sint_of_int_u64:
  assumes "- 9223372036854775808 \<le> k" and "k < 9223372036854775808"
  shows "sint (of_int k :: u64) = k"
  using assms by (simp add: signed_of_int signed_take_bit_int_eq_self)

lemma split_guard:
  fixes len sz :: u64
  assumes "unat len < 2 ^ 63" and "sz < len"
  shows "sint (len - sz - 29) < 16 \<longleftrightarrow> unat len < unat sz + 45"
proof -
  let ?k = "int (unat len) - int (unat sz) - 29"
  have lt: "unat sz < unat len" using assms(2) by (simp add: word_less_nat_alt)
  have "unat len < 9223372036854775808" using assms(1) by simp
  then have r: "- 9223372036854775808 \<le> ?k" "?k < 9223372036854775808" using lt by linarith+
  have "len - sz - 29 = of_int ?k" by simp
  then have "sint (len - sz - 29) = ?k" by (simp only: sint_of_int_u64 [OF r])
  then show ?thesis by linarith
qed

text \<open>The store through \<open>next\<close> reaches the next header, or address 20 when there is none.\<close>

lemma low_address: "28 \<le> unat x \<Longrightarrow> \<not> in_region 20 8 x"
  by (simp add: in_region_no_wrap)

lemma set_last_next:
  assumes "\<not> in_region 20 8 x"
  shows "set_last (first_addr ys 0) q m x = relink ys q m x"
proof (cases ys)
  case Nil
  then show ?thesis using assms by (simp add: relink_def set_last_def c64.store_frame)
qed (simp add: relink_def)

lemma split_hdr_effect:
  assumes ok: "heap_ok st (xs @ s # ys)" and sz: "16 \<le> unat sz" "unat sz + 45 \<le> unat (sg_len s)"
  defines "st' \<equiv> snd (split_hdr (sg_addr s) sz st)"
  shows "heap_ok st' (xs @ Seg (sg_addr s) sz (sg_free s) # rest_seg s sz # ys)"
    and "\<And>x. \<not> in_region 20 8 x \<Longrightarrow> \<forall>u\<in>set (xs @ s # ys). \<not> in_region (sg_addr u) 29 x \<Longrightarrow>
       \<not> in_region (split_point s sz) 29 x \<Longrightarrow> ram st' x = ram st x"
    and "st' = st\<lparr>ram := ram st', LastHdr := LastHdr st'\<rparr>"
proof -
  let ?m = "ram st" and ?a = "sg_addr s" and ?n = "split_point s sz"
  have ti: "tiles (unat (heapStart st)) xs (unat ?a)" "tiles (seg_end s) ys (unat (heapEnd st))"
    and ch: "chain ?m 0 (xs @ s # ys) 0" and hi: "unat (heapEnd st) \<le> 2 ^ 64" and lo: "28 \<le> unat (heapStart st)"
    using ok by (auto simp: heap_ok_def tiles_append)
  have b: "28 \<le> unat ?a" "seg_end s \<le> 2 ^ 63" using heap_ok_bounds [OF ok, of s] by simp_all
  note ar = split_arith [OF b(2) sz(2)]
  have h: "hdr_length ?m ?a = sg_len s" "hdr_free ?m ?a = sg_free s" "hdr_next ?m ?a = first_addr ys 0"
    using ch by (auto simp: hdr_holds_def)
  have ys_out: "\<not> in_region (sg_addr u) 29 x" if "u \<in> set ys" "unat x < seg_end s" for u x
    using tiles_in [OF ti(2) that(1)] that(2) hi by (subst hdr_range) auto
  define m1 where "m1 = set_last (first_addr ys 0) ?n ?m"
  have m1': "m1 x = relink ys ?n ?m x" if "\<not> in_region 20 8 x" for x
    using that by (simp add: m1_def set_last_next)
  have m1: "m1 x = relink ys ?n ?m x" if "28 \<le> unat x" for x
    using m1' low_address [OF that] .
  have m1_lo: "m1 x = ?m x" if "28 \<le> unat x" "unat x < seg_end s" for x
    using that ys_out by (simp add: m1 relink_frame)
  have rng: "in_region ?a 29 x \<longleftrightarrow> unat ?a \<le> unat x \<and> unat x < unat ?a + 29"
     "in_region ?n 29 x \<longleftrightarrow> unat ?n \<le> unat x \<and> unat x < unat ?n + 29" for x
    using b ar sz by (simp_all add: hdr_range)
  have dis: "region_disjoint ?a 29 ?n 29" "region_disjoint ?n 29 ?a 29"
    using hdr_before [of ?a ?n] ar(1) b(2) sz by simp_all
  have h1: "hdr_length m1 ?a = sg_len s" "hdr_free m1 ?a = sg_free s" "hdr_next m1 ?a = first_addr ys 0"
     "hdr_last m1 ?a = last_addr 0 xs"
    using hdr_cong [of ?a m1 ?m] m1_lo b(1) rng(1) ch h by (simp_all add: hdr_holds_def)
  define m' where "m' = set_length ?a sz (set_free ?n (sg_free s) (set_length ?n (sg_len s - sz - 29)
     (set_last ?n ?a (set_next ?a ?n (set_next ?n (first_addr ys 0) m1)))))"
  have lt: "sz < sg_len s" "unat (sg_len s) < 2 ^ 63" using sz(2) b(2) by (simp_all add: word_less_nat_alt)
  have g: "\<not> sint (sg_len s - sz - 29) < 16" using split_guard [OF lt(2,1)] sz(2) by simp
  have g': "\<not> sz < 16" using sz(1) by (simp add: word_less_nat_alt)
  have st': "st' = st\<lparr>ram := m', LastHdr := (if LastHdr st = ?a then ?n else LastHdr st)\<rparr>"
    unfolding st'_def split_hdr_def Let_def h
    using g g' by (simp add: split_point_def [symmetric] m1_def [symmetric] h1 hdr_other [OF dis(1)] hdr_other [OF dis(2)] m'_def)
  show "st' = st\<lparr>ram := ram st', LastHdr := LastHdr st'\<rparr>" by (simp add: st')
  have out: "m' x = m1 x" if "\<not> in_region ?a 29 x" "\<not> in_region ?n 29 x" for x
    using that by (simp add: m'_def hdr_frame)
  show "ram st' x = ram st x" if "\<not> in_region 20 8 x" "\<forall>u\<in>set (xs @ s # ys). \<not> in_region (sg_addr u) 29 x"
    "\<not> in_region ?n 29 x" for x
    using that by (simp add: st' out m1' relink_frame)
  have "chain m' 0 xs ?a = chain ?m 0 xs ?a"
    by (rule chain_outside [OF ti(1)]) (use lo b ar m1_lo out rng in auto)
  moreover have "chain m' ?n ys 0"
    by (rule chain_relink [OF _ ti(2) hi, where m = ?m and p = ?a]) (use ch out rng m1 ar b sz in auto)
  moreover have "hdr_holds m' (Seg ?a sz (sg_free s)) (last_addr 0 xs) ?n"
    using h1 by (simp add: hdr_holds_def m'_def hdr_other [OF dis(2)])
  moreover have "hdr_holds m' (rest_seg s sz) ?a (first_addr ys 0)"
    by (simp add: hdr_holds_def m'_def rest_seg_def hdr_other [OF dis(1)])
  moreover have "tiles (unat (heapStart st)) (xs @ Seg ?a sz (sg_free s) # rest_seg s sz # ys) (unat (heapEnd st))"
  proof -
    have "unat (sg_addr (rest_seg s sz)) = seg_end (Seg ?a sz (sg_free s))"
      using ar(1) by (simp add: rest_seg_def)
    moreover have "tiles (seg_end (rest_seg s sz)) ys (unat (heapEnd st))"
      using ti(2) by (simp only: ar(3))
    ultimately have "tiles (unat ?a) (Seg ?a sz (sg_free s) # rest_seg s sz # ys) (unat (heapEnd st))"
      unfolding tiles.simps by (intro conjI) (rule arg_cong [OF seg.sel(1)], assumption+)
    with ti(1) show ?thesis by (auto simp only: tiles_append)
  qed
  moreover have "(if LastHdr st = ?a then ?n else LastHdr st) = last_addr ?n ys"
  proof -
    have l: "LastHdr st = last_addr ?a ys" using ok by (simp add: heap_ok_def)
    show ?thesis unfolding l by (rule last_addr_swap [OF ti(2)]) simp
  qed
  ultimately show "heap_ok st' (xs @ Seg ?a sz (sg_free s) # rest_seg s sz # ys)"
    using ok ch by (simp add: heap_ok_def st' rest_seg_def)
qed

lemma split_hdr_none:
  assumes ok: "heap_ok st (xs @ s # ys)" and "sz < sg_len s" and "unat (sg_len s) < unat sz + 45"
  shows "snd (split_hdr (sg_addr s) sz st) = st"
proof -
  have "hdr_length (ram st) (sg_addr s) = sg_len s" using ok by (simp add: heap_ok_def hdr_holds_def)
  moreover have "unat (sg_len s) < 2 ^ 63" using heap_ok_bounds(4) [OF ok, of s] by simp
  ultimately show ?thesis
    using split_guard [of "sg_len s" sz] assms(2,3) by (simp add: split_hdr_def Let_def)
qed

section \<open>First fit\<close>

text \<open>The specification of an allocation: take the first free segment that is long enough.\<close>

definition take_seg :: "u64 \<Rightarrow> seg \<Rightarrow> seg list" where
  "take_seg sz s =
     (if unat sz + 45 \<le> unat (sg_len s) then [Seg (sg_addr s) sz False, rest_seg s sz]
      else [Seg (sg_addr s) (sg_len s) False])"

definition fits :: "u64 \<Rightarrow> seg \<Rightarrow> bool" where
  "fits sz s \<longleftrightarrow> sg_free s \<and> sz \<le> sg_len s"

fun place :: "u64 \<Rightarrow> seg list \<Rightarrow> (u64 \<times> seg list) option" where
  "place sz [] = None"
| "place sz (s # ss) =
     (if fits sz s then Some (sg_addr s, take_seg sz s @ ss)
      else map_option (\<lambda>(a, ts). (a, s # ts)) (place sz ss))"

lemma place_Some:
  "place sz ss = Some (a, ts) \<longleftrightarrow>
     (\<exists>xs s ys. ss = xs @ s # ys \<and> a = sg_addr s \<and> ts = xs @ take_seg sz s @ ys \<and> fits sz s \<and>
        (\<forall>x\<in>set xs. \<not> fits sz x))"
proof (induction ss arbitrary: a ts)
  case (Cons u us)
  show ?case
  proof
    assume p: "place sz (u # us) = Some (a, ts)"
    show "\<exists>xs s ys. u # us = xs @ s # ys \<and> a = sg_addr s \<and> ts = xs @ take_seg sz s @ ys \<and> fits sz s \<and>
        (\<forall>x\<in>set xs. \<not> fits sz x)"
    proof (cases "fits sz u")
      case True
      with p show ?thesis by (intro exI [of _ "[]"]) auto
    next
      case False
      with p obtain ts' where "place sz us = Some (a, ts')" "ts = u # ts'" by auto
      with Cons.IH [of a ts'] obtain xs s ys where "us = xs @ s # ys" "a = sg_addr s" "ts' = xs @ take_seg sz s @ ys"
        "fits sz s" "\<forall>x\<in>set xs. \<not> fits sz x" by blast
      with False \<open>ts = u # ts'\<close> show ?thesis by (intro exI [of _ "u # xs"] exI [of _ s] exI [of _ ys]) simp
    qed
  next
    assume "\<exists>xs s ys. u # us = xs @ s # ys \<and> a = sg_addr s \<and> ts = xs @ take_seg sz s @ ys \<and> fits sz s \<and>
        (\<forall>x\<in>set xs. \<not> fits sz x)"
    then obtain xs s ys where x: "u # us = xs @ s # ys" "a = sg_addr s" "ts = xs @ take_seg sz s @ ys"
        "fits sz s" "\<forall>x\<in>set xs. \<not> fits sz x" by blast
    show "place sz (u # us) = Some (a, ts)"
    proof (cases xs)
      case (Cons v vs)
      with x have "us = vs @ s # ys" "\<not> fits sz u" "u = v" by auto
      moreover have "place sz us = Some (a, vs @ take_seg sz s @ ys)"
        using Cons.IH [of a] x Cons \<open>us = vs @ s # ys\<close> by auto
      ultimately show ?thesis using x Cons by simp
    qed (use x in simp)
  qed
qed simp

lemma place_None: "place sz ss = None \<longleftrightarrow> (\<forall>s\<in>set ss. \<not> fits sz s)"
  by (induction ss) auto

lemma find_fit_place:
  assumes "chain m prev ss 0" and "ss \<noteq> []" and "\<And>s. s \<in> set ss \<Longrightarrow> sg_addr s \<noteq> 0"
  shows "find_fit m sz (first_addr ss 0) = Some (map_option fst (place sz ss))"
  using assms
proof (induction ss arbitrary: prev)
  case (Cons s ss)
  then have h: "hdr_free m (sg_addr s) = sg_free s" "hdr_length m (sg_addr s) = sg_len s"
    "hdr_next m (sg_addr s) = first_addr ss 0" by (auto simp: hdr_holds_def)
  have f: "(sg_free s \<and> (sz < sg_len s \<or> sg_len s = sz)) = fits sz s"
    by (auto simp: fits_def)
  show ?case
  proof (cases "ss = []")
    case True
    then show ?thesis using h f by (subst find_fit.simps) simp
  next
    case False
    then have "first_addr ss 0 \<noteq> 0" using Cons.prems(3) by (cases ss) auto
    moreover have "find_fit m sz (first_addr ss 0) = Some (map_option fst (place sz ss))"
      using Cons False by auto
    ultimately show ?thesis
      using h f by (subst find_fit.simps) (auto simp: option.map_comp comp_def split_beta)
  qed
qed simp

end
