(* ===== verification/Heap_Alloc.thy ===== *)
theory Heap_Alloc
  imports Heap_Ops
begin

text \<open>
  \<open>malloc\<close> and \<open>expandHeap\<close>: taking a segment, growing the heap window page by page, and the loop
  of the two. The heap stays apart from the bytes that the page tables and the page frame allocator
  use.
\<close>

section \<open>Taking a segment\<close>

lemma tiles_apart:
  "tiles lo ss hi \<Longrightarrow> s \<in> set ss \<Longrightarrow> u \<in> set ss \<Longrightarrow>
   s = u \<or> seg_end s \<le> unat (sg_addr u) \<or> seg_end u \<le> unat (sg_addr s)"
proof (induction ss arbitrary: lo)
  case (Cons t ss)
  have ti: "tiles (seg_end t) ss hi" using Cons.prems(1) unfolding tiles.simps by blast
  have "seg_end t \<le> unat (sg_addr v)" if "v \<in> set ss" for v
    using tiles_in [OF ti that] by (rule conjunct1)
  with Cons show ?case by auto
qed simp

definition in_payload :: "seg \<Rightarrow> u64 \<Rightarrow> bool" where
  "in_payload s x \<longleftrightarrow> unat (sg_addr s) + 29 \<le> unat x \<and> unat x < seg_end s"

lemma payload_no_header:
  assumes ok: "heap_ok st ss" and "s \<in> set ss" and "u \<in> set ss" and "in_payload s x"
  shows "\<not> in_region (sg_addr u) 29 x"
proof -
  have "tiles (unat (heapStart st)) ss (unat (heapEnd st))" using ok by (simp add: heap_ok_def)
  from tiles_apart [OF this assms(2,3)] assms(4) heap_ok_bounds(4) [OF ok assms(3)]
  show ?thesis by (auto simp: in_payload_def hdr_range)
qed

lemma round_up_nat:
  fixes n k :: nat
  assumes "0 < k"
  shows "(n + (k - 1)) div k * k = (if n mod k > 0 then n - n mod k + k else n)"
proof -
  define q r where "q = n div k" and "r = n mod k"
  have n: "n = q * k + r" and r: "r < k" using assms by (simp_all add: q_def r_def)
  have "(n + (k - 1)) div k = (if r > 0 then q + 1 else q)"
  proof (cases "r > 0")
    case True
    have "(n + (k - 1)) div k = ((q + 1) * k + (r - 1)) div k" using n True assms by (simp add: algebra_simps)
    also have "\<dots> = q + 1" using r by (simp add: div_add1_eq)
    finally show ?thesis using True by simp
  next
    case False
    then have "(n + (k - 1)) div k = ((k - 1) + q * k) div k" using n by (simp add: add.commute)
    also have "\<dots> = q" using assms by (simp only: div_mult_self1) simp
    finally show ?thesis using False by simp
  qed
  then show ?thesis using n r assms by (auto simp: r_def [symmetric])
qed

lemma round_up_word:
  fixes sz k :: u64
  assumes "unat sz \<le> 2 ^ 63" and "unat k < 2 ^ 63" and "0 < unat k"
  shows "unat (if sz mod k \<noteq> 0 then sz - sz mod k + k else sz) = (unat sz + (unat k - 1)) div unat k * unat k"
proof -
  have m: "unat (sz mod k) = unat sz mod unat k" by (simp add: unat_mod)
  have "unat (sz - sz mod k) = unat sz - unat sz mod unat k"
    using unat_sub_le [of "sz mod k" sz] m by simp
  then have "unat (sz - sz mod k + k) = unat sz - unat sz mod unat k + unat k"
    using assms unat_add_no_wrap [of "sz - sz mod k" k] by simp
  moreover have "sz mod k \<noteq> 0 \<longleftrightarrow> unat sz mod unat k > 0" using m by (metis bot_nat_0.not_eq_extremum unat_eq_zero)
  ultimately show ?thesis using round_up_nat [OF assms(3), of "unat sz"] by simp
qed

lemma align16:
  assumes "unat sz \<le> 2 ^ 63"
  shows "unat (align16 sz) = (unat sz + 15) div 16 * 16" and "align16 (align16 sz) = align16 sz"
proof -
  show 1: "unat (align16 sz) = (unat sz + 15) div 16 * 16"
    using round_up_word [OF assms, of 16] by (simp add: align16_def word_neq_0_conv)
  have "unat (align16 sz mod 16) = 0" unfolding unat_mod 1 by simp
  then have "align16 sz mod 16 = 0" by (simp add: unat_eq_zero)
  then show "align16 (align16 sz) = align16 sz" unfolding align16_def [of "align16 sz"] by simp
qed

lemma take_segment_effect:
  assumes inv: "heap_inv st (xs @ s # ys)" and fits: "fits sz s" and sz: "16 \<le> unat sz"
  defines "st' \<equiv> snd (take_segment (sg_addr s) sz st)"
  shows "fst (take_segment (sg_addr s) sz st) = sg_addr s + 29"
    and "heap_inv st' (xs @ take_seg sz s @ ys)"
    and "\<And>x. \<not> in_region 20 8 x \<Longrightarrow> \<forall>u\<in>set (xs @ s # ys). \<not> in_region (sg_addr u) 29 x \<Longrightarrow>
       \<not> in_payload s x \<Longrightarrow> ram st' x = ram st x"
    and "st' = st\<lparr>ram := ram st', LastHdr := LastHdr st'\<rparr>"
proof -
  have ok: "heap_ok st (xs @ s # ys)" and adj: "no_adjacent_free (xs @ s # ys)"
    using inv by (simp_all add: heap_inv_def)
  have b: "seg_end s \<le> 2 ^ 63" using heap_ok_bounds(4) [OF ok, of s] by simp
  have len: "hdr_length (ram st) (sg_addr s) = sg_len s" using ok by (simp add: heap_ok_def hdr_holds_def)
  have fr: "sg_free s" "unat sz \<le> unat (sg_len s)" using fits by (simp_all add: fits_def word_le_nat_alt)
  define st1 where "st1 = (if sz < sg_len s then snd (split_hdr (sg_addr s) sz st) else st)"
  show "fst (take_segment (sg_addr s) sz st) = sg_addr s + 29" by (simp add: take_segment_def Let_def)
  have st': "st' = st1\<lparr>ram := set_free (sg_addr s) False (ram st1)\<rparr>"
    unfolding st'_def take_segment_def Let_def len st1_def [symmetric] by (simp add: memset_def)
  have key: "heap_ok st' (xs @ take_seg sz s @ ys) \<and>
     (\<forall>x. \<not> in_region 20 8 x \<longrightarrow> (\<forall>u\<in>set (xs @ s # ys). \<not> in_region (sg_addr u) 29 x) \<longrightarrow>
       \<not> in_payload s x \<longrightarrow> ram st' x = ram st x) \<and> st' = st\<lparr>ram := ram st', LastHdr := LastHdr st'\<rparr>"
  proof (cases "unat sz + 45 \<le> unat (sg_len s)")
    case True
    note e = split_hdr_effect [OF ok sz True]
    have st1: "st1 = snd (split_hdr (sg_addr s) sz st)" using True by (simp add: st1_def word_less_nat_alt)
    note f = set_free_ok [OF e(1) [folded st1], of False, unfolded seg.sel, folded st']
    have "ram st' x = ram st x" if x: "\<not> in_region 20 8 x" "\<forall>u\<in>set (xs @ s # ys). \<not> in_region (sg_addr u) 29 x" "\<not> in_payload s x" for x
    proof -
      have "\<not> in_region (split_point s sz) 29 x"
        using split_arith(1) [OF b True] True b x(3) by (auto simp: hdr_range in_payload_def)
      then have "ram st1 x = ram st x" using e(2) x st1 by simp
      with x(2) show ?thesis by (simp add: st' hdr_frame)
    qed
    moreover have "st' = st\<lparr>ram := ram st', LastHdr := LastHdr st'\<rparr>"
    proof -
      obtain a b where "st1 = st\<lparr>ram := a, LastHdr := b\<rparr>" using e(3) unfolding st1 by blast
      then show ?thesis by (simp add: st')
    qed
    ultimately show ?thesis using f(1) True by (simp add: take_seg_def)
  next
    case False
    have st1: "st1 = st" using split_hdr_none [OF ok, of sz] False by (auto simp: st1_def)
    have "take_seg sz s = [Seg (sg_addr s) (sg_len s) False]" using False by (simp add: take_seg_def)
    then show ?thesis using set_free_ok(1) [OF ok, of False] unfolding st' st1 by (auto simp: hdr_frame)
  qed
  then show "heap_inv st' (xs @ take_seg sz s @ ys)"
    using adj fr(1) by (cases ys) (auto simp: heap_inv_def no_adjacent_free_append take_seg_def rest_seg_def)
  show "ram st' x = ram st x" if "\<not> in_region 20 8 x" "\<forall>u\<in>set (xs @ s # ys). \<not> in_region (sg_addr u) 29 x" "\<not> in_payload s x" for x
    using key that by blast
  show "st' = st\<lparr>ram := ram st', LastHdr := LastHdr st'\<rparr>" using key by blast
qed

section \<open>The heap window\<close>

lemma heap_more:
  fixes s t :: "'z heap_scheme"
  assumes "pfa.more t = pfa.more s"
  shows "globalPageTable t = globalPageTable s" "heapStart t = heapStart s" "heapEnd t = heapEnd s"
    "LastHdr t = LastHdr s" "heap.more t = heap.more s"
  using assms by (cases s; cases t; simp)+

lemma requestPage_more:
  "pfa_inv s \<Longrightarrow> mem_pageframeallocator_requestPage s = Inr (p, t) \<Longrightarrow> pfa.more t = pfa.more s"
  by (rule requestPage_frame(2))

lemma map_heap_page_effect:
  fixes s :: "'z heap_scheme"
  assumes inv: "paging_inv (globalPageTable s) s" and r: "map_heap_page debug virt s = Inr t"
  obtains p where "p \<in> free_frames s" and "paging_inv (globalPageTable s) t"
    and "area_kept (globalPageTable s) s t" and "pfa.more t = pfa.more s" and "p \<notin> free_frames t"
    and "free_frames t \<subseteq> free_frames s"
    and "\<And>v. translate (ram t) (globalPageTable s) v =
      (if page_number v = page_number virt then Some p else translate (ram s) (globalPageTable s) v)"
proof -
  obtain p s1 where q: "mem_pageframeallocator_requestPage s = Inr (p, s1)"
    and m: "PageTable_MapMemory (globalPageTable s1) virt p debug s1 = Inr t"
    using r by (auto simp: map_heap_page_def bind_r_eq_Inr)
  let ?P = "globalPageTable s"
  have pfa: "pfa_inv s" using inv by (simp add: paging_inv_def)
  have more1: "pfa.more s1 = pfa.more s" using requestPage_frame(2) [OF pfa q] .
  note P1 = heap_more(1) [OF more1]
  note rp = requestPage_paging [OF inv q] and fr = fresh_frame [OF inv q]
  note mm = MapMemory_translate [OF rp(1) m [unfolded P1]]
  show thesis
  proof (rule that)
    show "p \<in> free_frames s" by (rule fr(7))
    show "paging_inv ?P t" by (rule mm(1))
    show "area_kept ?P s t" by (rule area_kept_trans [OF rp(2) mm(5)])
    show "pfa.more t = pfa.more s" using mm(4) more1 by simp
    show "translate (ram t) ?P v = (if page_number v = page_number virt then Some p else translate (ram s) ?P v)" for v
      using mm(2) [of v] rp(3) [of "indices v"] fr(3) by (simp add: translate_def indices_ok indices_length)
    have "free_frames t \<subseteq> free_frames s1" using mm(5) by (simp add: area_kept_def)
    then show "free_frames t \<subseteq> free_frames s" "p \<notin> free_frames t" using fr(5) by auto
  qed
qed

lemma map_heap_page_Inl:
  fixes s :: "'z heap_scheme"
  assumes inv: "paging_inv (globalPageTable s) s" and r: "map_heap_page debug virt s = Inl e"
  shows "e = Panic ''Out of memory''"
proof -
  have pfa: "pfa_inv s" using inv by (simp add: paging_inv_def)
  consider "mem_pageframeallocator_requestPage s = Inl e"
    | p s1 where "mem_pageframeallocator_requestPage s = Inr (p, s1)"
        "PageTable_MapMemory (globalPageTable s1) virt p debug s1 = Inl e"
    using r by (auto simp: map_heap_page_def bind_r_eq_Inl)
  then show ?thesis
  proof cases
    case 1
    then show ?thesis using requestPage_spec [OF pfa] by (auto simp: Let_def split: if_splits)
  next
    case (2 p s1)
    have "globalPageTable s1 = globalPageTable s" using heap_more requestPage_frame(2) [OF pfa 2(1)] by blast
    then show ?thesis
      using MapMemory_cases [OF requestPage_paging(1) [OF inv 2(1)], of virt p debug] 2(2) by simp
  qed
qed

lemma map_heap_page_progress:
  fixes s :: "'z heap_scheme"
  assumes inv: "paging_inv (globalPageTable s) s" and res: "reserve (n + 4) s"
  obtains t where "map_heap_page debug virt s = Inr t" and "reserve n t"
proof -
  have pfa: "pfa_inv s" using inv by (simp add: paging_inv_def)
  have "reserve (Suc (n + 3)) s" using res by (simp add: eval_nat_numeral)
  then obtain p s1 where q: "mem_pageframeallocator_requestPage s = Inr (p, s1)" "reserve (n + 3) s1"
    using reserve_request [OF pfa] by blast
  have "globalPageTable s1 = globalPageTable s" using heap_more requestPage_frame(2) [OF pfa q(1)] by blast
  moreover obtain t where "PageTable_MapMemory (globalPageTable s) virt p debug s1 = Inr t" "reserve n t"
    using MapMemory_progress [OF requestPage_paging(1) [OF inv q(1)] q(2)] by blast
  ultimately show thesis using q(1) by (intro that) (simp_all add: map_heap_page_def)
qed

text \<open>Updates of the heap variables do not concern paging.\<close>

lemma heap_update_paging [simp]:
  "paging_inv P (s\<lparr>heapStart := a\<rparr>) = paging_inv P s" "paging_inv P (s\<lparr>heapEnd := a\<rparr>) = paging_inv P s"
  "paging_inv P (s\<lparr>LastHdr := a\<rparr>) = paging_inv P s" "paging_area P (s\<lparr>heapStart := a\<rparr>) = paging_area P s"
  "paging_area P (s\<lparr>heapEnd := a\<rparr>) = paging_area P s" "paging_area P (s\<lparr>LastHdr := a\<rparr>) = paging_area P s"
  "free_frames (s\<lparr>heapEnd := a\<rparr>) = free_frames s" "reserve n (s\<lparr>heapEnd := a\<rparr>) = reserve n s"
  "free_frames (s\<lparr>heapStart := a\<rparr>) = free_frames s" "free_frames (s\<lparr>LastHdr := a\<rparr>) = free_frames s"
  by (auto simp: paging_inv_def paging_area_def pfa_inv_def free_frames_def free_pages_def managed_frames_def reserve_def)

lemma area_kept_heapEnd [simp]:
  "area_kept P s (t\<lparr>heapEnd := a\<rparr>) = area_kept P s t" "area_kept P (s\<lparr>heapEnd := a\<rparr>) t = area_kept P s t"
  by (simp_all add: area_kept_def)

definition expand_step :: "u64 \<Rightarrow> 'z heap_scheme \<Rightarrow> 'z heap_scheme res" where
  "expand_step i s = bind_r (map_heap_page False (heapEnd s) s) (\<lambda>s. Inr (s\<lparr>heapEnd := heapEnd s + 0x1000\<rparr>))"

lemma expand_loop:
  fixes s t :: "'z heap_scheme"
  assumes "paging_inv (globalPageTable s) s" and "for_each expand_step is s = Inr t"
  shows "paging_inv (globalPageTable s) t \<and> area_kept (globalPageTable s) s t \<and>
     globalPageTable t = globalPageTable s \<and> heapStart t = heapStart s \<and> LastHdr t = LastHdr s \<and>
     heapEnd t = heapEnd s + of_nat (length is) * 0x1000"
  using assms
proof (induction "is" arbitrary: s)
  case (Cons i "is")
  obtain u where u: "map_heap_page False (heapEnd s) s = Inr u"
    and r: "for_each expand_step is (u\<lparr>heapEnd := heapEnd u + 0x1000\<rparr>) = Inr t"
    using Cons.prems(2) by (auto simp: expand_step_def [of i] bind_r_eq_Inr)
  obtain p where e: "paging_inv (globalPageTable s) u" "area_kept (globalPageTable s) s u" "pfa.more u = pfa.more s"
    using map_heap_page_effect [OF Cons.prems(1) u] by blast
  note hm = heap_more [OF e(3)]
  note IH = Cons.IH [OF _ r]
  show ?case using IH e hm by (auto simp: algebra_simps intro: area_kept_trans)
qed (simp add: area_kept_refl)

lemma expand_loop_Inl:
  fixes s :: "'z heap_scheme"
  assumes "paging_inv (globalPageTable s) s" and "for_each expand_step is s = Inl e"
  shows "e = Panic ''Out of memory''"
  using assms
proof (induction "is" arbitrary: s)
  case (Cons i "is")
  show ?case
  proof (cases "map_heap_page False (heapEnd s) s")
    case (Inl e')
    with Cons.prems(2) map_heap_page_Inl [OF Cons.prems(1) Inl] show ?thesis by (simp add: expand_step_def)
  next
    case (Inr u)
    obtain p where "paging_inv (globalPageTable s) u" "pfa.more u = pfa.more s"
      using map_heap_page_effect [OF Cons.prems(1) Inr] by blast
    then show ?thesis using Cons.IH [of "u\<lparr>heapEnd := heapEnd u + 0x1000\<rparr>"] Cons.prems(2) Inr heap_more(1) [of u s]
      by (simp add: expand_step_def [of i])
  qed
qed simp

lemma expand_loop_progress:
  fixes s :: "'z heap_scheme"
  assumes "paging_inv (globalPageTable s) s" and "reserve (n + 4 * length is) s"
  shows "\<exists>t. for_each expand_step is s = Inr t \<and> reserve n t"
  using assms
proof (induction "is" arbitrary: s)
  case (Cons i "is")
  have "reserve ((n + 4 * length is) + 4) s" using Cons.prems(2) by (simp add: algebra_simps)
  then obtain u where u: "map_heap_page False (heapEnd s) s = Inr u" "reserve (n + 4 * length is) u"
    using map_heap_page_progress [OF Cons.prems(1)] by blast
  obtain p where "paging_inv (globalPageTable s) u" "pfa.more u = pfa.more s"
    using map_heap_page_effect [OF Cons.prems(1) u(1)] by blast
  then show ?case using Cons.IH [of "u\<lparr>heapEnd := heapEnd u + 0x1000\<rparr>"] u heap_more(1) [of u s]
    by (simp add: expand_step_def [of i])
qed simp

section \<open>Heap and paging together\<close>

text \<open>
  The heap window up to \<open>lim\<close>, and the bytes at address 20 that \<open>split\<close> may write, are used neither
  by the tables nor by a frame that can still become a table.
\<close>

definition heap_env :: "nat \<Rightarrow> 'z heap_scheme \<Rightarrow> bool" where
  "heap_env lim st \<longleftrightarrow> paging_inv (globalPageTable st) st \<and>
     unat (heapEnd st) mod 4096 = 0 \<and> unat (heapEnd st) \<le> lim \<and> lim \<le> 2 ^ 62 \<and>
     (\<forall>x. paging_area (globalPageTable st) st x \<longrightarrow>
        \<not> in_region 20 8 x \<and> (unat x < unat (heapStart st) \<or> lim \<le> unat x))"

definition heap_sys :: "nat \<Rightarrow> 'z heap_scheme \<Rightarrow> seg list \<Rightarrow> bool" where
  "heap_sys lim st ss \<longleftrightarrow> heap_inv st ss \<and> heap_env lim st"

lemma heap_env_write:
  assumes env: "heap_env lim st" and st': "st' = st\<lparr>ram := ram st', LastHdr := LastHdr st'\<rparr>"
    and frame: "\<And>x. \<not> in_region 20 8 x \<Longrightarrow> unat x < unat (heapStart st) \<or> unat (heapEnd st) \<le> unat x \<Longrightarrow>
       ram st' x = ram st x"
  shows "heap_env lim st'"
proof -
  obtain m l where e: "st' = st\<lparr>ram := m, LastHdr := l\<rparr>" using st' by blast
  let ?P = "globalPageTable st"
  have p: "paging_inv ?P st" using env by (simp add: heap_env_def)
  have "m x = ram st x" if "paging_area ?P st x" for x
    using that frame [of x] env by (auto simp: heap_env_def e)
  note ow = outside_write [OF p this]
  have "paging_inv ?P st'" "paging_area ?P st' = paging_area ?P st"
    using ow(1,2) heap_update_paging(3,6) [of ?P l "st\<lparr>ram := m\<rparr>"] by (simp_all add: e)
  with env show ?thesis by (simp add: heap_env_def e)
qed

text \<open>
  Memory that belongs neither to the heap window nor to paging. The heap operations keep it, and it stays
  outside: a page frame can leave the allocator but nothing enters it.
\<close>

definition outer :: "nat \<Rightarrow> 'z heap_scheme \<Rightarrow> u64 \<Rightarrow> bool" where
  "outer lim st x \<longleftrightarrow> \<not> paging_area (globalPageTable st) st x \<and> \<not> in_region 20 8 x \<and>
     (unat x < unat (heapStart st) \<or> lim \<le> unat x)"

definition outer_kept :: "nat \<Rightarrow> 'z heap_scheme \<Rightarrow> 'z heap_scheme \<Rightarrow> bool" where
  "outer_kept lim st st' \<longleftrightarrow> (\<forall>x. outer lim st x \<longrightarrow> ram st' x = ram st x \<and> outer lim st' x)"

lemma outer_kept_trans: "outer_kept lim s t \<Longrightarrow> outer_kept lim t u \<Longrightarrow> outer_kept lim s u"
  by (simp add: outer_kept_def)

lemma outer_write:
  assumes env: "heap_env lim st" and st': "st' = st\<lparr>ram := ram st', LastHdr := LastHdr st'\<rparr>"
    and frame: "\<And>x. \<not> in_region 20 8 x \<Longrightarrow> unat x < unat (heapStart st) \<or> unat (heapEnd st) \<le> unat x \<Longrightarrow>
       ram st' x = ram st x"
  shows "outer_kept lim st st'"
proof -
  obtain m l where e: "st' = st\<lparr>ram := m, LastHdr := l\<rparr>" using st' by blast
  let ?P = "globalPageTable st"
  have p: "paging_inv ?P st" and hi: "unat (heapEnd st) \<le> lim" using env by (simp_all add: heap_env_def)
  have "m x = ram st x" if "paging_area ?P st x" for x
    using that frame [of x] env by (auto simp: heap_env_def e)
  then have "paging_area ?P st' = paging_area ?P st"
    using outside_write(2) [OF p] heap_update_paging(6) [of ?P l "st\<lparr>ram := m\<rparr>"] by (simp add: e)
  then show ?thesis using frame hi by (auto simp: outer_kept_def outer_def e)
qed

lemma header_in_window:
  assumes "heap_ok st ss" and "u \<in> set ss" and "in_region (sg_addr u) 29 x"
  shows "unat (heapStart st) \<le> unat x" and "unat x < unat (heapEnd st)"
  using heap_ok_bounds [OF assms(1,2)] assms(3) by (auto simp: hdr_range)

lemma outside_window_no_header:
  assumes "heap_ok st ss" and "unat x < unat (heapStart st) \<or> unat (heapEnd st) \<le> unat x"
  shows "\<forall>u\<in>set ss. \<not> in_region (sg_addr u) 29 x"
proof
  fix u assume u: "u \<in> set ss"
  show "\<not> in_region (sg_addr u) 29 x"
    using header_in_window [OF assms(1) u, of x] assms(2) by linarith
qed

text \<open>Appending a free segment at the end of the window.\<close>

lemma chain_relink_last:
  assumes "chain m p ss n" and "ss \<noteq> []" and "tiles lo ss hi" and "hi \<le> 2 ^ 64"
  shows "chain (set_next (last_addr 0 ss) n' m) p ss n'"
proof (cases ss rule: rev_cases)
  case (snoc us u)
  then obtain mid where us: "tiles lo us mid" and u: "tiles mid [u] hi"
    using assms(3) by (auto simp: tiles_append)
  then have mid: "mid = unat (sg_addr u)" "mid + 29 \<le> 2 ^ 64" using assms(4) by auto
  have "chain (set_next (sg_addr u) n' m) p us (sg_addr u) = chain m p us (sg_addr u)"
    by (rule chain_outside [OF us]) (use mid in \<open>auto intro!: hdr_frame simp: hdr_range\<close>)
  with assms(1) snoc show ?thesis by (simp add: hdr_holds_def)
qed (use assms in simp)

definition round_page :: "nat \<Rightarrow> nat" where
  "round_page n = (n + 4095) div 4096 * 4096"

definition new_seg :: "u64 \<Rightarrow> nat \<Rightarrow> seg" where
  "new_seg a n = Seg a (of_nat n - 29) True"

lemma append_segment:
  fixes st :: "'z heap_scheme"
  assumes ok: "heap_ok st ss" and hi: "unat (heapEnd st) + n \<le> 2 ^ 63" and n: "29 \<le> n"
    and e': "e' = heapEnd st + of_nat n"
    and agree: "\<And>x. unat (heapStart st) \<le> unat x \<Longrightarrow> unat x < unat (heapEnd st) \<Longrightarrow> m x = ram st x"
  defines "a \<equiv> heapEnd st"
  defines "m' \<equiv> set_length a (of_nat n - 29) (set_next a 0 (set_next (LastHdr st) a (set_last a (LastHdr st) (set_free a True m))))"
  shows "heap_ok (st\<lparr>ram := m', heapEnd := e', LastHdr := a\<rparr>) (ss @ [new_seg a n])"
    and "\<And>x. (\<forall>u\<in>set ss. \<not> in_region (sg_addr u) 29 x) \<Longrightarrow> \<not> in_region a 29 x \<Longrightarrow> m' x = m x"
proof -
  have ti: "tiles (unat (heapStart st)) ss (unat a)" and ch: "chain (ram st) 0 ss 0" and ne: "ss \<noteq> []"
    and l: "LastHdr st = last_addr 0 ss" and lo: "28 \<le> unat (heapStart st)"
    using ok by (simp_all add: heap_ok_def a_def)
  have un: "unat (of_nat n :: u64) = n" using hi by (intro unat_of_nat_small) simp
  have ue: "unat e' = unat a + n" using hi un unat_add_no_wrap [of a "of_nat n"] by (simp add: e' a_def)
  have ul: "unat (of_nat n - 29 :: u64) = n - 29" using un n unat_sub_le [of 29 "of_nat n :: u64"] by simp
  have a_rng: "in_region a 29 x \<longleftrightarrow> unat a \<le> unat x \<and> unat x < unat a + 29" for x
    using hi n by (intro hdr_range) (simp add: a_def)
  have l_in: "\<exists>u\<in>set ss. LastHdr st = sg_addr u" using ne l by (cases ss rule: rev_cases) auto
  then obtain u where u: "u \<in> set ss" "LastHdr st = sg_addr u" by blast
  have dis: "region_disjoint (LastHdr st) 29 a 29" "region_disjoint a 29 (LastHdr st) 29"
    using hdr_before [of "LastHdr st" a] tiles_in [OF ti u(1)] u(2) hi n by (simp_all add: a_def)
  have hi64: "unat a \<le> 2 ^ 64" using hi by (simp add: a_def)
  show frame: "m' x = m x" if "\<forall>u\<in>set ss. \<not> in_region (sg_addr u) 29 x" "\<not> in_region a 29 x" for x
    using that u by (simp add: m'_def hdr_frame)
  have "chain m' 0 ss a"
  proof -
    have "chain (set_next (LastHdr st) a m) 0 ss a"
      using chain_relink_last [OF _ ne ti hi64, of m 0 0 a] chain_outside [OF ti hi64, of m "ram st" 0 0] ch agree
      by (simp add: l a_def)
    moreover have "m' x = set_next (LastHdr st) a m x" if "unat x < unat a" for x
    proof -
      have "\<not> in_region a 29 x" using that a_rng by simp
      then have "m' x = set_next (LastHdr st) a (set_last a (LastHdr st) (set_free a True m)) x"
        and "set_last a (LastHdr st) (set_free a True m) x = m x" by (simp_all add: m'_def hdr_frame)
      then show ?thesis by (simp add: set_next_def store64_def store_le_apply)
    qed
    ultimately show ?thesis using chain_outside [OF ti hi64, of m' "set_next (LastHdr st) a m" 0 a] by blast
  qed
  moreover have "hdr_holds m' (new_seg a n) (last_addr 0 ss) 0"
    by (simp add: hdr_holds_def new_seg_def m'_def hdr_other [OF dis(1)] l [symmetric])
  moreover have "tiles (unat (heapStart st)) (ss @ [new_seg a n]) (unat e')"
    using ti ue ul n by (auto simp: tiles_append new_seg_def)
  ultimately show "heap_ok (st\<lparr>ram := m', heapEnd := e', LastHdr := a\<rparr>) (ss @ [new_seg a n])"
    using lo hi ue by (simp add: heap_ok_def new_seg_def a_def)
qed

lemma expandHeap_eq:
  assumes "unat (heapEnd st) mod 4096 = 0" and "unat sz \<le> 2 ^ 62"
  defines "n \<equiv> round_page (unat sz)"
  shows "expandHeap sz st = bind_r (for_each expand_step (count_upto (of_nat (n div 4096))) st) (\<lambda>s.
     Inr (combineBackward (heapEnd st) (s\<lparr>LastHdr := heapEnd st, ram := set_length (heapEnd st) (of_nat n - 29)
       (set_next (heapEnd st) 0 (set_next (LastHdr s) (heapEnd st) (set_last (heapEnd st) (LastHdr s)
         (set_free (heapEnd st) True (ram s)))))\<rparr>)))"
    and "n div 4096 * 4096 = n" and "n \<le> 2 ^ 62 + 4096" and "unat sz \<le> n"
proof -
  have r: "unat (if sz mod 0x1000 \<noteq> 0 then sz - sz mod 0x1000 + 0x1000 else sz) = n"
    using round_up_word [of sz "0x1000"] assms(2) by (simp add: n_def round_page_def)
  show "n div 4096 * 4096 = n" by (simp add: n_def round_page_def)
  have "(unat sz + 4095) div 4096 * 4096 \<le> unat sz + 4095" by (rule div_times_less_eq_dividend)
  then show le: "n \<le> 2 ^ 62 + 4096" using assms(2) unfolding n_def round_page_def by linarith
  show "unat sz \<le> n" unfolding n_def round_page_def by linarith
  have u: "unat (of_nat n :: u64) = n" using le by (intro unat_of_nat_small) simp
  have L: "(if sz mod 0x1000 \<noteq> 0 then sz - sz mod 0x1000 + 0x1000 else sz) = of_nat n"
    using r u by (intro word_eqI_unat) simp
  have d: "(of_nat n :: u64) div 0x1000 = of_nat (n div 4096)"
    using u le by (intro word_eqI_unat) (simp add: unat_div unat_of_nat_small)
  have al: "\<not> heapEnd st mod 0x1000 > 0" using assms(1) by (simp add: word_less_nat_alt unat_mod)
  show "expandHeap sz st = bind_r (for_each expand_step (count_upto (of_nat (n div 4096))) st) (\<lambda>s.
     Inr (combineBackward (heapEnd st) (s\<lparr>LastHdr := heapEnd st, ram := set_length (heapEnd st) (of_nat n - 29)
       (set_next (heapEnd st) 0 (set_next (LastHdr s) (heapEnd st) (set_last (heapEnd st) (LastHdr s)
         (set_free (heapEnd st) True (ram s)))))\<rparr>)))"
    unfolding expandHeap_def L Let_def d expand_step_def using al by simp
qed

lemma heap_ok_fields:
  "heap_ok s ss \<Longrightarrow> ram t = ram s \<Longrightarrow> heapStart t = heapStart s \<Longrightarrow> heapEnd t = heapEnd s \<Longrightarrow>
   LastHdr t = LastHdr s \<Longrightarrow> heap_ok t ss"
  by (simp add: heap_ok_def)

lemma no_adjacent_free_snoc: "no_adjacent_free ss \<Longrightarrow> \<not> sg_free s \<Longrightarrow> no_adjacent_free (ss @ [s])"
  by (simp add: no_adjacent_free_append)

lemma expandHeap_effect:
  fixes st :: "'z heap_scheme"
  assumes sys: "heap_sys lim st ss" and sz: "0 < unat sz" "unat sz \<le> 2 ^ 62"
    and lim: "unat (heapEnd st) + round_page (unat sz) \<le> lim"
    and r: "expandHeap sz st = Inr st'"
  defines "n \<equiv> round_page (unat sz)"
  shows "heap_sys lim st' (merge_free (ss @ [new_seg (heapEnd st) n]))"
    and "\<And>s x. s \<in> set ss \<Longrightarrow> in_payload s x \<Longrightarrow> ram st' x = ram st x"
    and "heapStart st' = heapStart st" and "unat (heapEnd st') = unat (heapEnd st) + n"
    and "outer_kept lim st st'"
proof -
  let ?a = "heapEnd st" and ?P = "globalPageTable st"
  have ok: "heap_ok st ss" and adj: "no_adjacent_free ss" and env: "heap_env lim st"
    using sys by (simp_all add: heap_sys_def heap_inv_def)
  have p: "paging_inv ?P st" and al: "unat ?a mod 4096 = 0" and l62: "lim \<le> 2 ^ 62" using env by (simp_all add: heap_env_def)
  note eq = expandHeap_eq [OF al sz(2), folded n_def]
  have n: "4096 \<le> n" using sz(1) by (simp add: n_def round_page_def)
  obtain s1 where s1: "for_each expand_step (count_upto (of_nat (n div 4096))) st = Inr s1"
    and st': "st' = combineBackward ?a (s1\<lparr>LastHdr := ?a, ram := set_length ?a (of_nat n - 29)
       (set_next ?a 0 (set_next (LastHdr s1) ?a (set_last ?a (LastHdr s1) (set_free ?a True (ram s1)))))\<rparr>)"
    using r eq(1) by (auto simp: bind_r_eq_Inr)
  have "unat (of_nat (n div 4096) :: u64) = n div 4096" using eq(3) by (intro unat_of_nat_small) simp
  then have l: "paging_inv ?P s1 \<and> area_kept ?P st s1 \<and> globalPageTable s1 = ?P \<and> heapStart s1 = heapStart st \<and>
      LastHdr s1 = LastHdr st \<and> heapEnd s1 = ?a + of_nat (n div 4096) * 0x1000"
    using expand_loop [OF p s1] by simp
  have "(of_nat (n div 4096) :: u64) * 0x1000 = of_nat (n div 4096 * 4096)" by simp
  then have e1: "heapEnd s1 = ?a + of_nat n" using l eq(2) by simp
  have hi: "unat ?a + n \<le> 2 ^ 62" using lim l62 by (simp add: n_def)
  have ue: "unat (heapEnd s1) = unat ?a + n"
    unfolding e1 using hi by (intro unat_add_of_nat) simp
  have win: "\<not> paging_area ?P st x" if "unat (heapStart st) \<le> unat x" "unat x < lim" for x
    using env that by (auto simp: heap_env_def)
  have ag: "ram s1 x = ram st x" if "unat (heapStart st) \<le> unat x" "unat x < lim" for x
    using l win [OF that] by (auto simp: area_kept_def)
  let ?m = "set_length ?a (of_nat n - 29) (set_next ?a 0 (set_next (LastHdr st) ?a (set_last ?a (LastHdr st) (set_free ?a True (ram s1)))))"
  let ?s2 = "s1\<lparr>LastHdr := ?a, ram := ?m\<rparr>" and ?N = "new_seg ?a n"
  have hi63: "unat ?a + n \<le> 2 ^ 63" and n29: "29 \<le> n" using hi n by simp_all
  have "ram s1 x = ram st x" if "unat (heapStart st) \<le> unat x" "unat x < unat ?a" for x
    using ag that lim by simp
  note ap = append_segment [OF ok hi63 n29 e1 this]
  have ok2: "heap_ok ?s2 (ss @ [?N])" by (rule heap_ok_fields [OF ap(1)]) (use l in simp_all)
  have Na: "sg_addr ?N = ?a" "sg_free ?N" by (simp_all add: new_seg_def)
  have st2: "st' = combineBackward ?a (combineForward ?a ?s2)"
    using combineForward_id [OF ok2, unfolded Na] st' l by simp
  have ok2': "heap_ok ?s2 (ss @ ?N # [])" using ok2 by simp
  have adj': "no_adjacent_free (ss @ Seg ?a 0 False # [])" using adj by (simp add: no_adjacent_free_snoc)
  note cr = combine_refines [OF ok2' Na(2) adj', unfolded Na, folded st2]
  have same: "ram st' x = ram s1 x" if "\<forall>u\<in>set (ss @ [?N]). \<not> in_region (sg_addr u) 29 x" for x
    using cr(2) ap(2) [of x] that by (simp add: hdrs_only_def Na)
  have upd: "?s2\<lparr>ram := x, LastHdr := y\<rparr> = s1\<lparr>ram := x, LastHdr := y\<rparr>" for x y by simp
  obtain m3 l3 where st3: "st' = s1\<lparr>ram := m3, LastHdr := l3\<rparr>" using cr(3) unfolding upd by blast
  show "heapStart st' = heapStart st" "unat (heapEnd st') = unat (heapEnd st) + n" using l ue by (simp_all add: st3)
  have "4096 dvd n" by (simp add: n_def round_page_def)
  moreover have "4096 dvd unat ?a" using al by (rule mod_0_imp_dvd)
  ultimately have "4096 dvd unat (heapEnd s1)" unfolding ue by (intro dvd_add)
  then have "unat (heapEnd s1) mod 4096 = 0" by (rule dvd_imp_mod_0)
  then have env1: "heap_env lim s1"
    using env l ue lim by (auto simp: heap_env_def n_def area_kept_def)
  have upd': "st' = s1\<lparr>ram := ram st', LastHdr := LastHdr st'\<rparr>" by (simp add: st3)
  have frame: "ram st' x = ram s1 x" if "unat x < unat (heapStart s1) \<or> unat (heapEnd s1) \<le> unat x" for x
    using outside_window_no_header [OF ok2, of x] that by (intro same) simp
  have "outer_kept lim st s1" using l by (auto simp: outer_kept_def outer_def area_kept_def)
  then show "outer_kept lim st st'" using outer_write [OF env1 upd' frame] by (rule outer_kept_trans)
  have "heap_env lim st'" by (rule heap_env_write [OF env1 upd' frame])
  then show "heap_sys lim st' (merge_free (ss @ [?N]))"
    using cr(1) merge_free_no_adjacent by (simp add: heap_sys_def heap_inv_def)
  fix s x assume s: "s \<in> set ss" "in_payload s x"
  then have "unat (heapStart st) \<le> unat x" "unat x < unat ?a"
    using heap_ok_bounds [OF ok s(1)] by (simp_all add: in_payload_def)
  moreover have "ram st' x = ram s1 x"
    using payload_no_header [OF ok2 _ _ s(2)] s(1) by (intro same) auto
  ultimately show "ram st' x = ram st x" using ag lim by simp
qed

section \<open>Blocks\<close>

text \<open>The allocated blocks: start of the payload and length.\<close>

definition blocks :: "seg list \<Rightarrow> (u64 \<times> u64) set" where
  "blocks ss = {(sg_addr s + 29, sg_len s) |s. s \<in> set ss \<and> \<not> sg_free s}"

lemma blocks_simps [simp]:
  "blocks [] = {}" "blocks (xs @ ys) = blocks xs \<union> blocks ys"
  "blocks (s # ss) = (if sg_free s then blocks ss else insert (sg_addr s + 29, sg_len s) (blocks ss))"
  by (auto simp: blocks_def)

lemma blocks_merge_free [simp]: "blocks (merge_free ss) = blocks ss"
proof (induction ss)
  case (Cons s ss)
  show ?case
  proof (cases "merge_free ss")
    case Nil
    with Cons.IH show ?thesis by simp
  next
    case (Cons t ts)
    with Cons.IH have e: "blocks ss = blocks (t # ts)" by simp
    show ?thesis by (simp add: Cons e)
  qed
qed simp

lemma payload_region:
  assumes "heap_ok st ss" and "s \<in> set ss"
  shows "in_region (sg_addr s + 29) (unat (sg_len s)) x \<longleftrightarrow> in_payload s x"
proof -
  have b: "seg_end s \<le> 2 ^ 63" by (rule heap_ok_bounds(4) [OF assms])
  then have "unat (sg_addr s + 29) = unat (sg_addr s) + 29"
    using unat_add_no_wrap [of "sg_addr s" 29] by simp
  with b show ?thesis by (subst in_region_no_wrap) (auto simp: in_payload_def)
qed

lemma blocksE:
  assumes "heap_ok st ss" and "(q, l) \<in> blocks ss"
  obtains s where "s \<in> set ss" and "\<not> sg_free s" and "q = sg_addr s + 29" and "l = sg_len s"
    and "\<forall>x. in_region q (unat l) x \<longleftrightarrow> in_payload s x"
  using assms(2) payload_region [OF assms(1)] that unfolding blocks_def by blast

lemma blocks_disjoint:
  assumes ok: "heap_ok st ss" and "(p, k) \<in> blocks ss" and "(q, l) \<in> blocks ss" and "p \<noteq> q"
  shows "region_disjoint p (unat k) q (unat l)"
proof -
  obtain s where s: "s \<in> set ss" "p = sg_addr s + 29" "\<forall>x. in_region p (unat k) x \<longleftrightarrow> in_payload s x"
    using blocksE [OF ok assms(2)] by metis
  obtain t where t: "t \<in> set ss" "q = sg_addr t + 29" "\<forall>x. in_region q (unat l) x \<longleftrightarrow> in_payload t x"
    using blocksE [OF ok assms(3)] by metis
  have "tiles (unat (heapStart st)) ss (unat (heapEnd st))" using ok by (simp add: heap_ok_def)
  from tiles_apart [OF this s(1) t(1)] assms(4) s(2) t(2)
  have "seg_end s \<le> unat (sg_addr t) \<or> seg_end t \<le> unat (sg_addr s)" by auto
  then show ?thesis unfolding region_disjoint_def using s(3) t(3) by (auto simp: in_payload_def)
qed

text \<open>Bytes of all blocks are kept.\<close>

definition blocks_kept :: "seg list \<Rightarrow> mem \<Rightarrow> mem \<Rightarrow> bool" where
  "blocks_kept ss m m' \<longleftrightarrow> (\<forall>(q, l)\<in>blocks ss. \<forall>x. in_region q (unat l) x \<longrightarrow> m' x = m x)"

lemma blocks_keptI:
  assumes "heap_ok st ss" and "\<And>s x. s \<in> set ss \<Longrightarrow> \<not> sg_free s \<Longrightarrow> in_payload s x \<Longrightarrow> m' x = m x"
  shows "blocks_kept ss m m'"
  unfolding blocks_kept_def
proof (intro ballI allI, clarify)
  fix q l x assume "(q, l) \<in> blocks ss" and x: "in_region q (unat l) x"
  then obtain s where "s \<in> set ss" "\<not> sg_free s" "in_payload s x"
    using blocksE [OF assms(1)] by metis
  then show "m' x = m x" by (rule assms(2))
qed

lemma blocks_kept_trans:
  "blocks_kept ss m m' \<Longrightarrow> blocks_kept ts m' m'' \<Longrightarrow> blocks ss \<subseteq> blocks ts \<Longrightarrow> blocks_kept ss m m''"
  unfolding blocks_kept_def by fastforce

end
