(* ===== verification/Heap_Props.thy ===== *)
theory Heap_Props
  imports Heap_Alloc
begin

text \<open>
  The heap as its clients see it: a set of disjoint blocks. \<open>malloc\<close> adds a block, growing the heap
  at most twice, \<open>free\<close> removes one, and both keep the bytes of all other blocks.
\<close>

section \<open>Allocation from an existing segment\<close>

lemma fits_not_block:
  assumes ok: "heap_ok st ss" and s: "s \<in> set ss" "sg_free s"
  shows "sg_addr s + 29 \<notin> fst ` blocks ss"
proof
  assume "sg_addr s + 29 \<in> fst ` blocks ss"
  then obtain u where u: "u \<in> set ss" "\<not> sg_free u" "sg_addr u = sg_addr s"
    by (auto simp: blocks_def)
  have "tiles (unat (heapStart st)) ss (unat (heapEnd st))" using ok by (simp add: heap_ok_def)
  from tiles_apart [OF this s(1) u(1)] u s show False by auto
qed

definition allocated :: "nat \<Rightarrow> u64 \<Rightarrow> 'z heap_scheme \<Rightarrow> seg list \<Rightarrow> u64 \<Rightarrow> 'z heap_scheme \<Rightarrow> bool" where
  "allocated lim sz st ss p st' \<longleftrightarrow> (\<exists>ts len. heap_sys lim st' ts \<and> unat sz \<le> unat len \<and> p \<noteq> 0 \<and>
     p \<notin> fst ` blocks ss \<and> blocks ts = insert (p, len) (blocks ss) \<and> blocks_kept ss (ram st) (ram st') \<and>
     outer_kept lim st st')"

lemma malloc_fit:
  fixes st :: "'z heap_scheme"
  assumes sys: "heap_sys lim st ss" and sz: "16 \<le> unat (align16 sz)"
    and pl: "place (align16 sz) ss = Some (a, ts)"
  obtains st' len where "malloc sz st = Some (Inr (a + 29, st'))" and "heap_sys lim st' ts"
    and "unat (align16 sz) \<le> unat len" and "a + 29 \<noteq> 0" and "a + 29 \<notin> fst ` blocks ss"
    and "blocks ts = insert (a + 29, len) (blocks ss)" and "blocks_kept ss (ram st) (ram st')"
    and "outer_kept lim st st'"
proof -
  let ?z = "align16 sz"
  obtain xs s ys where ss: "ss = xs @ s # ys" and a: "a = sg_addr s" and ts: "ts = xs @ take_seg ?z s @ ys"
    and fit: "fits ?z s" using pl by (auto simp: place_Some)
  have inv: "heap_inv st (xs @ s # ys)" and env: "heap_env lim st" using sys by (simp_all add: heap_sys_def ss)
  have ok: "heap_ok st (xs @ s # ys)" using inv by (simp add: heap_inv_def)
  note e = take_segment_effect [OF inv fit sz]
  define st' where "st' = snd (take_segment a ?z st)"
  have "chain (ram st) 0 ss 0" "ss \<noteq> []" "first_addr ss 0 = heapStart st"
    using ok by (cases xs; auto simp: heap_ok_def ss word_unat_eq_iff)+
  then have "find_fit (ram st) ?z (heapStart st) = Some (map_option fst (place ?z ss))"
    using find_fit_place [of "ram st" 0 ss ?z] heap_ok_bounds(5) [OF ok] by (simp add: ss)
  moreover have "?z \<noteq> 0" using sz by auto
  ultimately have r: "malloc sz st = Some (Inr (a + 29, st'))"
    using e(1) by (subst malloc.simps) (simp add: pl st'_def a prod_eq_iff)
  have in_win: "\<not> in_payload s x" if "unat x < unat (heapStart st) \<or> unat (heapEnd st) \<le> unat x" for x
    using heap_ok_bounds [OF ok, of s] that by (auto simp: in_payload_def)
  have "heap_env lim st'"
    by (rule heap_env_write [OF env])
       (use e(3,4) outside_window_no_header [OF ok] in_win in \<open>auto simp: st'_def a\<close>)
  moreover have out: "outer_kept lim st st'"
    by (rule outer_write [OF env])
       (use e(3,4) outside_window_no_header [OF ok] in_win in \<open>auto simp: st'_def a\<close>)
  ultimately have sys': "heap_sys lim st' ts" using e(2) by (simp add: heap_sys_def st'_def a ts)
  have b: "sg_free s" "?z \<le> sg_len s" using fit by (simp_all add: fits_def)
  define len where "len = (if unat ?z + 45 \<le> unat (sg_len s) then ?z else sg_len s)"
  have bl: "blocks ts = insert (a + 29, len) (blocks ss)"
    using b by (auto simp: ts ss take_seg_def rest_seg_def len_def a)
  have nz: "a + 29 \<noteq> 0"
  proof -
    have "unat (a + 29) = unat a + 29"
      using heap_ok_bounds(4) [OF ok, of s] unat_add_no_wrap [of a 29] by (simp add: a)
    then show ?thesis by auto
  qed
  have "blocks_kept ss (ram st) (ram st')"
  proof (rule blocks_keptI [of st])
    fix u x assume u: "u \<in> set ss" "\<not> sg_free u" "in_payload u x"
    have ti: "tiles (unat (heapStart st)) ss (unat (heapEnd st))" using ok by (simp add: heap_ok_def ss)
    have "\<not> in_payload s x" using tiles_apart [OF ti u(1), of s] u b(1) by (auto simp: ss in_payload_def)
    moreover have "\<forall>v\<in>set (xs @ s # ys). \<not> in_region (sg_addr v) 29 x"
      using payload_no_header [OF ok _ _ u(3)] u(1) by (simp add: ss)
    moreover have "\<not> in_region 20 8 x"
      using heap_ok_bounds(1) [OF ok, of u] u(1,3) by (intro low_address) (simp add: ss in_payload_def)
    ultimately show "ram st' x = ram st x" using e(3) by (simp add: st'_def a)
  qed (use ok in \<open>simp add: ss\<close>)
  then show thesis
    using that [OF r sys' _ nz _ bl _ out] fits_not_block [OF ok, of s] b by (simp add: len_def ss a word_le_nat_alt)
qed

section \<open>Growing\<close>

lemma last_seg_end: "heap_ok st ss \<Longrightarrow> seg_end (last ss) = unat (heapEnd st)"
  by (cases ss rule: rev_cases) (auto simp: heap_ok_def tiles_append)

lemma expand_last:
  fixes st st' :: "'z heap_scheme"
  assumes ok: "heap_ok st ss" and ok': "heap_ok st' (merge_free (ss @ [new_seg (heapEnd st) n]))"
    and adj: "no_adjacent_free ss" and n: "unat (heapEnd st') = unat (heapEnd st) + n"
  defines "l \<equiv> last (merge_free (ss @ [new_seg (heapEnd st) n]))"
  shows "sg_free l" and "(if sg_free (last ss) then unat (sg_len (last ss)) + n else n - 29) \<le> unat (sg_len l)"
    and "l \<in> set (merge_free (ss @ [new_seg (heapEnd st) n]))"
proof -
  let ?N = "new_seg (heapEnd st) n"
  have ne: "ss \<noteq> []" using ok by (simp add: heap_ok_def)
  have m: "merge_free (ss @ [?N]) =
      (if sg_free (last ss) then butlast ss @ [merged (last ss) ?N] else ss @ [?N])"
    using merge_free_append [OF adj, of "[?N]" ?N "[]"] ne by (simp add: new_seg_def)
  have l: "l = (if sg_free (last ss) then merged (last ss) ?N else ?N)" by (simp add: l_def m)
  show "sg_free l" by (simp add: l new_seg_def)
  show "l \<in> set (merge_free (ss @ [?N]))" by (simp add: l m)
  have e: "seg_end l = unat (heapEnd st) + n" using last_seg_end [OF ok'] n by (simp add: l_def)
  show "(if sg_free (last ss) then unat (sg_len (last ss)) + n else n - 29) \<le> unat (sg_len l)"
  proof (cases "sg_free (last ss)")
    case True
    then have "sg_addr l = sg_addr (last ss)" by (simp add: l)
    with e last_seg_end [OF ok] True show ?thesis by simp
  next
    case False
    then have "sg_addr l = heapEnd st" by (simp add: l new_seg_def)
    with e False show ?thesis by simp
  qed
qed

text \<open>When nothing fits, \<open>malloc\<close> grows the heap and starts over.\<close>

lemma malloc_grow:
  fixes st :: "'z heap_scheme"
  assumes sys: "heap_sys lim st ss" and z: "align16 sz \<noteq> 0" and pl: "place (align16 sz) ss = None"
  shows "malloc sz st = (case expandHeap (align16 sz) st of
     Inl e \<Rightarrow> Some (Inl e) | Inr t \<Rightarrow> malloc (align16 sz) t)"
proof -
  have ok: "heap_ok st ss" using sys by (simp add: heap_sys_def heap_inv_def)
  then have "chain (ram st) 0 ss 0" "ss \<noteq> []" "first_addr ss 0 = heapStart st"
    by (cases ss; auto simp: heap_ok_def word_unat_eq_iff)+
  then have "find_fit (ram st) (align16 sz) (heapStart st) = Some None"
    using find_fit_place [of "ram st" 0 ss "align16 sz"] heap_ok_bounds(5) [OF ok] pl by simp
  with z show ?thesis by (subst malloc.simps) simp
qed

lemma expandHeap_Inl:
  fixes st :: "'z heap_scheme"
  assumes sys: "heap_sys lim st ss" and sz: "unat sz \<le> 2 ^ 62" and r: "expandHeap sz st = Inl e"
  shows "e = Panic ''Out of memory''"
proof -
  have p: "paging_inv (globalPageTable st) st" and al: "unat (heapEnd st) mod 4096 = 0"
    using sys by (simp_all add: heap_sys_def heap_env_def)
  show ?thesis using r expand_loop_Inl [OF p] by (auto simp: expandHeap_eq(1) [OF al sz] bind_r_eq_Inl)
qed

lemma expand_kept:
  fixes st :: "'z heap_scheme"
  assumes sys: "heap_sys lim st ss" and sz: "0 < unat sz" "unat sz \<le> 2 ^ 62"
    and lim: "unat (heapEnd st) + round_page (unat sz) \<le> lim" and r: "expandHeap sz st = Inr t"
  defines "us \<equiv> merge_free (ss @ [new_seg (heapEnd st) (round_page (unat sz))])"
  shows "heap_sys lim t us" and "blocks us = blocks ss" and "blocks_kept ss (ram st) (ram t)"
    and "unat (heapEnd t) = unat (heapEnd st) + round_page (unat sz)" and "sg_free (last us)"
    and "last us \<in> set us"
    and "(if sg_free (last ss) then unat (sg_len (last ss)) + round_page (unat sz) else round_page (unat sz) - 29)
       \<le> unat (sg_len (last us))"
    and "outer_kept lim st t"
proof -
  note e = expandHeap_effect [OF sys sz lim r, folded us_def]
  have ok: "heap_ok st ss" "no_adjacent_free ss" using sys by (simp_all add: heap_sys_def heap_inv_def)
  have ok': "heap_ok t us" using e(1) by (simp add: heap_sys_def heap_inv_def)
  note l = expand_last [OF ok(1) ok' [unfolded us_def] ok(2) e(4), folded us_def]
  show "heap_sys lim t us" "unat (heapEnd t) = unat (heapEnd st) + round_page (unat sz)" by (rule e)+
  show "sg_free (last us)" "last us \<in> set us"
    "(if sg_free (last ss) then unat (sg_len (last ss)) + round_page (unat sz) else round_page (unat sz) - 29)
       \<le> unat (sg_len (last us))" by (rule l)+
  show "blocks us = blocks ss" by (simp add: us_def new_seg_def)
  show "blocks_kept ss (ram st) (ram t)" by (rule blocks_keptI [OF ok(1) e(2)])
  show "outer_kept lim st t" by (rule e(5))
qed

lemma allocated_kept:
  assumes "allocated lim sz t us p st'" and "blocks us = blocks ss" and "blocks_kept ss (ram st) (ram t)"
    and "outer_kept lim st t"
  shows "allocated lim sz st ss p st'"
proof -
  obtain ts len where a: "heap_sys lim st' ts" "unat sz \<le> unat len" "p \<noteq> 0" "p \<notin> fst ` blocks us"
    "blocks ts = insert (p, len) (blocks us)" "blocks_kept us (ram t) (ram st')" "outer_kept lim t st'"
    using assms(1) by (auto simp: allocated_def)
  have "blocks_kept ss (ram st) (ram st')" using blocks_kept_trans [OF assms(3) a(6)] assms(2) by simp
  moreover have "outer_kept lim st st'" by (rule outer_kept_trans [OF assms(4) a(7)])
  ultimately show ?thesis using a assms(2) unfolding allocated_def by auto
qed

lemma malloc_fits_allocated:
  fixes st :: "'z heap_scheme"
  assumes sys: "heap_sys lim st ss" and sz: "0 < unat sz" "unat sz \<le> 2 ^ 61"
    and fit: "s \<in> set ss" "sg_free s" "unat (align16 sz) \<le> unat (sg_len s)"
  shows "\<exists>p st'. malloc sz st = Some (Inr (p, st')) \<and> allocated lim sz st ss p st'"
proof -
  have a: "unat (align16 sz) = (unat sz + 15) div 16 * 16" using sz(2) by (intro align16) simp
  then have z: "16 \<le> unat (align16 sz)" "unat sz \<le> unat (align16 sz)" using sz(1) by simp_all
  have "place (align16 sz) ss \<noteq> None" using fit by (auto simp: place_None fits_def word_le_nat_alt)
  then obtain q ts where pl: "place (align16 sz) ss = Some (q, ts)" by auto
  obtain st' len where m: "malloc sz st = Some (Inr (q + 29, st'))" "heap_sys lim st' ts"
    "unat (align16 sz) \<le> unat len" "q + 29 \<noteq> 0" "q + 29 \<notin> fst ` blocks ss"
    "blocks ts = insert (q + 29, len) (blocks ss)" "blocks_kept ss (ram st) (ram st')" "outer_kept lim st st'"
    by (rule malloc_fit [OF sys z(1) pl])
  have "allocated lim sz st ss (q + 29) st'"
    unfolding allocated_def using m(2-8) z(2) by (intro exI [of _ ts] exI [of _ len]) simp
  with m(1) show ?thesis by blast
qed

lemma allocated_mono: "allocated lim z st ss p st' \<Longrightarrow> unat sz \<le> unat z \<Longrightarrow> allocated lim sz st ss p st'"
  unfolding allocated_def by (meson le_trans)

lemma malloc_total:
  fixes st :: "'z heap_scheme"
  assumes sys: "heap_sys lim st ss" and sz: "0 < unat sz" "unat sz \<le> 2 ^ 61"
    and lim: "unat (heapEnd st) + 2 * round_page (unat (align16 sz)) \<le> lim"
  shows "malloc sz st = Some (Inl (Panic ''Out of memory'')) \<or>
     (\<exists>p st'. malloc sz st = Some (Inr (p, st')) \<and> allocated lim sz st ss p st')"
proof -
  define z where "z = align16 sz"
  let ?n = "round_page (unat z)"
  have sz63: "unat sz \<le> 2 ^ 63" using sz(2) by simp
  have a: "unat z = (unat sz + 15) div 16 * 16" and zz: "align16 z = z"
    unfolding z_def using align16 [OF sz63] by simp_all
  have "unat z \<le> unat sz + 15" unfolding a by (rule div_times_less_eq_dividend)
  then have z: "0 < unat z" "unat z \<le> 2 ^ 62" "unat sz \<le> unat z" and z0: "z \<noteq> 0"
    using sz a by auto
  have z61: "unat z \<le> 2 ^ 61"
  proof -
    have "unat sz + 15 < 16 * (2 ^ 57 + 1)" using sz(2) by simp
    then have "(unat sz + 15) div 16 < 2 ^ 57 + 1" by (simp add: less_mult_imp_div_less)
    then show ?thesis unfolding a by simp
  qed
  have n: "unat z \<le> ?n" "4096 \<le> ?n" using z(1) unfolding round_page_def by (linarith, simp)
  have done_if: "\<exists>p st'. malloc z t = Some (Inr (p, st')) \<and> allocated lim sz t us p st'"
    if "heap_sys lim t us" "s \<in> set us" "sg_free s" "unat z \<le> unat (sg_len s)" for t :: "'z heap_scheme" and us s
    using malloc_fits_allocated [OF that(1) z(1) z61 that(2,3)] that(4) allocated_mono z(3) unfolding zz by blast
  show ?thesis
  proof (cases "place z ss")
    case (Some r)
    then have "place (align16 sz) ss \<noteq> None" by (simp add: z_def)
    then obtain s where s: "s \<in> set ss" "sg_free s" "unat (align16 sz) \<le> unat (sg_len s)"
      by (auto simp: place_None fits_def word_le_nat_alt)
    then show ?thesis using malloc_fits_allocated [OF sys sz s] by blast
  next
    case None
    note g1 = malloc_grow [OF sys _ None [unfolded z_def], folded z_def, OF z0]
    show ?thesis
    proof (cases "expandHeap z st")
      case (Inl e)
      with expandHeap_Inl [OF sys z(2) Inl] g1 show ?thesis by simp
    next
      case (Inr t)
      have l1: "unat (heapEnd st) + ?n \<le> lim" using lim by (simp add: z_def)
      note e = expand_kept [OF sys z(1,2) l1 Inr]
      define us where "us = merge_free (ss @ [new_seg (heapEnd st) ?n])"
      have m1: "malloc sz st = malloc z t" using g1 Inr by simp
      have fin: ?thesis if "malloc z t = Some (Inr (p, st'))" "allocated lim sz t us p st'" for p st'
        using that allocated_kept [OF that(2), of ss st] e(2,3,8) m1 by (auto simp: us_def)
      show ?thesis
      proof (cases "place z us")
        case (Some r)
        then obtain s where "s \<in> set us" "sg_free s" "unat z \<le> unat (sg_len s)"
          using place_None [of z us] by (auto simp: fits_def word_le_nat_alt)
        with done_if [OF e(1) [folded us_def]] fin show ?thesis by blast
      next
        case none2: None
        note g2 = malloc_grow [OF e(1) [folded us_def], of z, unfolded zz, OF z0 none2]
        show ?thesis
        proof (cases "expandHeap z t")
          case (Inl e2)
          with expandHeap_Inl [OF e(1) z(2) Inl] g2 m1 show ?thesis by simp
        next
          case (Inr t2)
          have l2: "unat (heapEnd t) + ?n \<le> lim" using lim e(4) by (simp add: z_def)
          note f = expand_kept [OF e(1) z(1,2) l2 Inr, folded us_def]
          define vs where "vs = merge_free (us @ [new_seg (heapEnd t) ?n])"
          have "unat z \<le> unat (sg_len (last vs))"
            using f(7) e(5) n unfolding us_def [symmetric] vs_def [symmetric] by simp
          then obtain p st' where "malloc z t2 = Some (Inr (p, st'))" "allocated lim sz t2 vs p st'"
            using done_if [OF f(1) f(6) f(5)] unfolding vs_def by blast
          then show ?thesis
            using fin [of p st'] allocated_kept [of lim sz t2 vs p st' us t] f(2,3,8) g2 Inr by (simp add: vs_def)
        qed
      qed
    qed
  qed
qed

section \<open>Freeing a block\<close>

lemma tiles_distinct: "tiles lo ss hi \<Longrightarrow> distinct (map sg_addr ss)"
proof (induction ss arbitrary: lo)
  case (Cons s ss)
  then have ti: "tiles (seg_end s) ss hi" unfolding tiles.simps by blast
  have "sg_addr s \<notin> sg_addr ` set ss"
  proof
    assume "sg_addr s \<in> sg_addr ` set ss"
    then obtain u where "u \<in> set ss" "sg_addr u = sg_addr s" by auto
    with tiles_in [OF ti this(1)] show False by simp
  qed
  with Cons.IH [OF ti] show ?case by simp
qed simp

lemma free_block:
  fixes st :: "'z heap_scheme"
  assumes sys: "heap_sys lim st ss" and b: "(p, len) \<in> blocks ss"
  obtains xs s ys where "ss = xs @ s # ys" and "p = sg_addr s + 29" and "len = sg_len s" and "\<not> sg_free s"
    and "heap_sys lim (free p st) (merge_free (xs @ Seg (sg_addr s) (sg_len s) True # ys))"
    and "blocks (merge_free (xs @ Seg (sg_addr s) (sg_len s) True # ys)) = blocks ss - {(p, len)}"
    and "blocks_kept ss (ram st) (ram (free p st))" and "outer_kept lim st (free p st)"
proof -
  have inv: "heap_inv st ss" and env: "heap_env lim st" and ok: "heap_ok st ss"
    using sys by (simp_all add: heap_sys_def heap_inv_def)
  obtain s where s: "s \<in> set ss" "\<not> sg_free s" "p = sg_addr s + 29" "len = sg_len s"
    using blocksE [OF ok b] by metis
  obtain xs ys where ss: "ss = xs @ s # ys" using split_list [OF s(1)] by blast
  note f = free_refines [OF inv [unfolded ss], folded s(3)]
  have "heap_env lim (free p st)"
    by (rule heap_env_write [OF env f(3)])
       (use f(2) outside_window_no_header [OF ok] in \<open>auto simp: hdrs_only_def ss\<close>)
  moreover have out: "outer_kept lim st (free p st)"
    by (rule outer_write [OF env f(3)])
       (use f(2) outside_window_no_header [OF ok] in \<open>auto simp: hdrs_only_def ss\<close>)
  ultimately have sys': "heap_sys lim (free p st) (merge_free (xs @ Seg (sg_addr s) (sg_len s) True # ys))"
    using f(1) by (simp add: heap_sys_def)
  have "distinct (map sg_addr ss)" using ok tiles_distinct by (auto simp: heap_ok_def)
  then have "(p, len) \<notin> blocks (xs @ ys)" by (auto simp: ss s(3) blocks_def)
  then have "blocks (merge_free (xs @ Seg (sg_addr s) (sg_len s) True # ys)) = blocks ss - {(p, len)}"
    using s by (auto simp: ss)
  moreover have "blocks_kept ss (ram st) (ram (free p st))"
    using f(2) payload_no_header [OF ok] by (intro blocks_keptI [OF ok]) (auto simp: hdrs_only_def ss)
  ultimately show thesis using that ss s sys' out by blast
qed

end
