(* ===== verification/Heap_Init.thy ===== *)
theory Heap_Init
  imports Heap_Props
begin

text \<open>
  \<open>initHeap\<close>: the pages of the initial window are mapped to distinct frames and the window becomes
  one free segment.
\<close>

section \<open>Page numbers of a window\<close>

lemma unat_page_number:
  assumes "unat v < 2 ^ 48"
  shows "unat (page_number v) = unat v div 4096"
proof -
  have "unat (drop_bit 12 v) = unat v div 4096" by (simp add: drop_bit_eq_div unat_div)
  moreover have "unat v div 4096 < 2 ^ 36" using assms by (simp add: less_mult_imp_div_less)
  ultimately show ?thesis by (simp add: page_number_def unsigned_take_bit_eq take_bit_nat_eq_self)
qed

lemma window_pages:
  fixes a :: u64
  assumes "unat a + 4096 * n \<le> 2 ^ 48" and "unat a mod 4096 = 0" and "i < n" and "j < n"
  shows "page_number (a + of_nat i * 0x1000) = page_number (a + of_nat j * 0x1000) \<longleftrightarrow> i = j"
proof -
  have u: "unat (a + of_nat k * 0x1000) = unat a + 4096 * k" if "k < n" for k
  proof -
    have "(of_nat k * 0x1000 :: u64) = of_nat (4096 * k)" by simp
    moreover have "unat (a + of_nat (4096 * k)) = unat a + 4096 * k"
      using assms(1) that by (intro unat_add_of_nat) simp
    ultimately show ?thesis by (simp add: mult.commute)
  qed
  have "unat (page_number (a + of_nat k * 0x1000)) = unat a div 4096 + k" if "k < n" for k
    using unat_page_number [of "a + of_nat k * 0x1000"] u [OF that] that assms(1) by simp
  with assms(3,4) show ?thesis by (auto simp: word_unat_eq_iff)
qed

section \<open>The mapping loop\<close>

definition init_step :: "u64 \<Rightarrow> u64 \<times> 'z heap_scheme \<Rightarrow> (u64 \<times> 'z heap_scheme) res" where
  "init_step i = (\<lambda>(pos, s). bind_r (map_heap_page True pos s) (\<lambda>s. Inr (pos + 0x1000, s)))"

lemma init_loop:
  fixes s t :: "'z heap_scheme"
  assumes inv: "paging_inv (globalPageTable s) s"
    and win: "unat a + 4096 * length is \<le> 2 ^ 48" "unat a mod 4096 = 0"
    and r: "for_each init_step is (a, s) = Inr (pos, t)"
  shows "paging_inv (globalPageTable s) t \<and> area_kept (globalPageTable s) s t \<and> pfa.more t = pfa.more s \<and>
     pos = a + of_nat (length is) * 0x1000 \<and>
     (\<exists>ps. length ps = length is \<and> distinct ps \<and> set ps \<subseteq> free_frames s \<and> set ps \<inter> free_frames t = {} \<and>
        (\<forall>i<length is. translate (ram t) (globalPageTable s) (a + of_nat i * 0x1000) = Some (ps ! i)))"
  using win(1) r
proof (induction "is" arbitrary: pos t rule: rev_induct)
  case Nil
  with inv show ?case by (auto simp: area_kept_refl)
next
  case (snoc i "is")
  let ?P = "globalPageTable s" and ?n = "length is"
  obtain u where u: "for_each init_step is (a, s) = Inr (a + of_nat ?n * 0x1000, u)"
    and m: "map_heap_page True (a + of_nat ?n * 0x1000) u = Inr t" and pos: "pos = a + of_nat ?n * 0x1000 + 0x1000"
  proof -
    obtain q u where q: "for_each init_step is (a, s) = Inr (q, u)" "map_heap_page True q u = Inr t" "pos = q + 0x1000"
      using snoc.prems(2) by (auto simp: for_each_append init_step_def [of i] bind_r_eq_Inr)
    have "q = a + of_nat ?n * 0x1000" using snoc.IH [OF _ q(1)] snoc.prems(1) by simp
    with q show thesis by (intro that) simp_all
  qed
  have IH: "paging_inv ?P u" "area_kept ?P s u" "pfa.more u = pfa.more s"
    using snoc.IH [OF _ u] snoc.prems(1) by simp_all
  obtain ps where ps: "length ps = ?n" "distinct ps" "set ps \<subseteq> free_frames s" "set ps \<inter> free_frames u = {}"
    "\<forall>i<?n. translate (ram u) ?P (a + of_nat i * 0x1000) = Some (ps ! i)"
    using snoc.IH [OF _ u] snoc.prems(1) by auto
  have Pu: "globalPageTable u = ?P" using heap_more(1) [OF IH(3)] .
  have inv_u: "paging_inv (globalPageTable u) u" using IH(1) Pu by simp
  have "\<exists>p. p \<in> free_frames u \<and> paging_inv ?P t \<and> area_kept ?P u t \<and> pfa.more t = pfa.more u \<and>
      p \<notin> free_frames t \<and> free_frames t \<subseteq> free_frames u \<and>
      (\<forall>v. translate (ram t) ?P v =
        (if page_number v = page_number (a + of_nat ?n * 0x1000) then Some p else translate (ram u) ?P v))"
    using map_heap_page_effect [OF inv_u m, unfolded Pu] by metis
  then obtain p where p: "p \<in> free_frames u" "paging_inv ?P t" "area_kept ?P u t" "pfa.more t = pfa.more u"
      "p \<notin> free_frames t" "free_frames t \<subseteq> free_frames u"
      "\<forall>v. translate (ram t) ?P v =
        (if page_number v = page_number (a + of_nat ?n * 0x1000) then Some p else translate (ram u) ?P v)"
    by blast
  have su: "free_frames u \<subseteq> free_frames s" using IH(2) by (simp add: area_kept_def)
  have tr: "translate (ram t) ?P (a + of_nat j * 0x1000) = Some ((ps @ [p]) ! j)" if "j < Suc ?n" for j
  proof (cases "j = ?n")
    case False
    with that have "j < ?n" by simp
    with p(7) ps(1,5) window_pages [of a "Suc ?n" j ?n] snoc.prems(1) win(2) show ?thesis
      by (simp add: nth_append)
  qed (use p(7) ps(1) in \<open>simp add: nth_append\<close>)
  have "area_kept ?P s t" by (rule area_kept_trans [OF IH(2) p(3)])
  moreover have "pos = a + of_nat (length (is @ [i])) * 0x1000" using pos by (simp add: algebra_simps)
  moreover have "distinct (ps @ [p])" "set (ps @ [p]) \<subseteq> free_frames s" "set (ps @ [p]) \<inter> free_frames t = {}"
    using ps(2-4) p(1,5,6) su by auto
  ultimately show ?case using p(2,4) IH(3) tr ps(1)
    by (intro conjI exI [of _ "ps @ [p]"]) simp_all
qed

lemma init_loop_progress:
  fixes s :: "'z heap_scheme"
  assumes "paging_inv (globalPageTable s) s" and "reserve (n + 4 * length is) s"
  shows "\<exists>pos t. for_each init_step is (a, s) = Inr (pos, t) \<and> reserve n t"
  using assms
proof (induction "is" arbitrary: s a)
  case (Cons i "is")
  have "reserve ((n + 4 * length is) + 4) s" using Cons.prems(2) by (simp add: algebra_simps)
  then obtain u where u: "map_heap_page True a s = Inr u" "reserve (n + 4 * length is) u"
    using map_heap_page_progress [OF Cons.prems(1)] by blast
  obtain p where "paging_inv (globalPageTable s) u" "pfa.more u = pfa.more s"
    using map_heap_page_effect [OF Cons.prems(1) u(1)] by blast
  then show ?case using Cons.IH [of u "a + 0x1000"] u heap_more(1) [of u s]
    by (simp add: init_step_def [of i])
qed simp

section \<open>The initial heap\<close>

definition window_free :: "u64 \<Rightarrow> nat \<Rightarrow> 'z heap_scheme \<Rightarrow> bool" where
  "window_free a lim s \<longleftrightarrow> paging_inv (globalPageTable s) s \<and> unat a mod 4096 = 0 \<and> 28 \<le> unat a \<and>
     lim \<le> 2 ^ 48 \<and> (\<forall>x. paging_area (globalPageTable s) s x \<longrightarrow>
        \<not> in_region 20 8 x \<and> (unat x < unat a \<or> lim \<le> unat x))"

lemma initHeap_effect:
  fixes s t :: "'z heap_scheme"
  assumes w: "window_free a lim s" and n: "1 \<le> unat n" "unat a + 4096 * unat n \<le> lim"
    and r: "initHeap a n s = Inr t"
  shows "heap_sys lim t [Seg a (n * 0x1000 - 29) True]" and "heapStart t = a" and "heapEnd t = a + n * 0x1000"
    and "globalPageTable t = globalPageTable s"
    and "\<exists>ps. length ps = unat n \<and> distinct ps \<and> set ps \<subseteq> free_frames s \<and> set ps \<inter> free_frames t = {} \<and>
        (\<forall>i<unat n. translate (ram t) (globalPageTable s) (a + of_nat i * 0x1000) = Some (ps ! i))"
    and "heap.more t = heap.more s"
    and "\<not> paging_area (globalPageTable s) s x \<Longrightarrow> unat x < unat a \<or> lim \<le> unat x \<Longrightarrow>
      ram t x = ram s x \<and> \<not> paging_area (globalPageTable s) t x"
proof -
  let ?P = "globalPageTable s"
  have inv: "paging_inv ?P s" and al: "unat a mod 4096 = 0" and lo: "28 \<le> unat a" and l48: "lim \<le> 2 ^ 48"
    using w by (simp_all add: window_free_def)
  obtain pos u where u: "for_each init_step (count_upto n) (a, s) = Inr (pos, u)"
    and t: "t = u\<lparr>heapStart := a, heapEnd := a + n * 0x1000,
        ram := set_free a True (set_last a 0 (set_next a 0 (set_length a (n * 0x1000 - 29) (ram u)))), LastHdr := a\<rparr>"
    using r unfolding initHeap_def init_step_def [abs_def, symmetric] by (auto simp: bind_r_eq_Inr Let_def)
  have win: "unat a + 4096 * length (count_upto n) \<le> 2 ^ 48" using n l48 by simp
  note il = init_loop [OF inv win al u]
  have more: "pfa.more u = pfa.more s" and iu: "paging_inv ?P u" and ak: "area_kept ?P s u" using il by simp_all
  note hm = heap_more [OF more]
  let ?m = "set_free a True (set_last a 0 (set_next a 0 (set_length a (n * 0x1000 - 29) (ram u))))"
  have un: "unat (n * 0x1000) = unat n * 4096"
    using n l48 unat_mult_no_wrap [of n "0x1000"] by simp
  have ul: "unat (n * 0x1000 - 29) = unat n * 4096 - 29"
    using un n unat_sub_le [of 29 "n * 0x1000"] by simp
  have ue: "unat (a + n * 0x1000) = unat a + unat n * 4096"
    using n l48 un unat_add_no_wrap [of a "n * 0x1000"] by simp
  show "heapStart t = a" "heapEnd t = a + n * 0x1000" "globalPageTable t = ?P" "heap.more t = heap.more s"
    by (simp_all add: t hm)
  have area: "\<not> in_region 20 8 x \<and> (unat x < unat a \<or> lim \<le> unat x)" if "paging_area ?P u x" for x
    using that ak w by (auto simp: area_kept_def window_free_def)
  have out: "?m x = ram u x" if "paging_area ?P u x" for x
  proof -
    have "\<not> in_region a 29 x" using area [OF that] n l48 by (subst hdr_range) auto
    then show ?thesis by (simp add: hdr_frame)
  qed
  define t0 where "t0 = u\<lparr>heapStart := a, heapEnd := a + n * 0x1000, LastHdr := a\<rparr>"
  have t0: "paging_inv ?P t0" "paging_area ?P t0 = paging_area ?P u" "free_frames t0 = free_frames u" "ram t0 = ram u"
    using iu by (simp_all add: t0_def)
  have "?m x = ram t0 x" if "paging_area ?P t0 x" for x using out that t0(2,4) by simp
  note ow = outside_write [OF t0(1) this]
  have tt: "t = t0\<lparr>ram := ?m\<rparr>" by (simp add: t t0_def)
  have pt: "paging_inv ?P t" "paging_area ?P t = paging_area ?P u" "free_frames t = free_frames u"
    unfolding tt using ow(1,2,4) t0(2,3) by simp_all
  show "ram t x = ram s x \<and> \<not> paging_area ?P t x" if "\<not> paging_area ?P s x" "unat x < unat a \<or> lim \<le> unat x"
  proof -
    have "\<not> in_region a 29 x" using that(2) n l48 by (subst hdr_range) auto
    then show ?thesis using that(1) ak pt(2) by (auto simp: t hdr_frame area_kept_def)
  qed
  have "heap_inv t [Seg a (n * 0x1000 - 29) True]"
    using lo n l48 ue ul by (simp add: heap_inv_def heap_ok_def hdr_holds_def t)
  moreover have "4096 dvd unat a + unat n * 4096" using al by (auto simp: mod_eq_0_iff_dvd)
  then have "heap_env lim t"
    using pt area n l48 ue by (simp add: heap_env_def t hm mod_eq_0_iff_dvd mult.commute)
  ultimately show "heap_sys lim t [Seg a (n * 0x1000 - 29) True]" by (simp add: heap_sys_def)
  have "translate (ram t) ?P v = translate (ram u) ?P v" for v
    using ow(3) [of "indices v"] t0(4) by (simp add: tt translate_def indices_ok indices_length)
  with il pt(3) show "\<exists>ps. length ps = unat n \<and> distinct ps \<and> set ps \<subseteq> free_frames s \<and> set ps \<inter> free_frames t = {} \<and>
        (\<forall>i<unat n. translate (ram t) ?P (a + of_nat i * 0x1000) = Some (ps ! i))" by simp
qed

lemma initHeap_progress:
  fixes s :: "'z heap_scheme"
  assumes "paging_inv (globalPageTable s) s" and "reserve (4 * unat n) s"
  obtains t where "initHeap a n s = Inr t"
proof -
  have "reserve (0 + 4 * length (count_upto n)) s" using assms(2) by simp
  then obtain pos u where "for_each init_step (count_upto n) (a, s) = Inr (pos, u)"
    using init_loop_progress [OF assms(1)] by blast
  then show thesis
    by (intro that) (simp add: initHeap_def init_step_def [abs_def] Let_def)
qed

end
