(* ===== verification/Heap_Client.thy ===== *)
theory Heap_Client
  imports Heap_Init
begin

text \<open>
  The contract of the heap towards the rest of the kernel, as an interface of blocks, its
  interpretation on \<open>malloc\<close> and \<open>free\<close>, and what follows for every run of a client that allocates,
  frees and writes inside its own blocks.
\<close>

section \<open>The interface\<close>

text \<open>What a client relies on: requested sizes, one block per address.\<close>

definition serves :: "('s \<Rightarrow> (u64 \<times> u64) set \<Rightarrow> bool) \<Rightarrow> 's \<Rightarrow> (u64 \<times> u64) set \<Rightarrow> bool" where
  "serves holds s C \<longleftrightarrow> (\<exists>B. holds s B \<and> (\<forall>(p, sz)\<in>C. \<exists>l. (p, l) \<in> B \<and> unat sz \<le> unat l) \<and>
     (\<forall>(p, k)\<in>C. \<forall>(q, l)\<in>C. p = q \<longrightarrow> k = l))"

locale block_heap =
  fixes holds :: "'s \<Rightarrow> (u64 \<times> u64) set \<Rightarrow> bool" and bytes :: "'s \<Rightarrow> mem"
    and alloc :: "u64 \<Rightarrow> 's \<Rightarrow> (u64 \<times> 's) option" and release :: "u64 \<Rightarrow> 's \<Rightarrow> 's"
  assumes alloc_adds: "holds s B \<Longrightarrow> alloc sz s = Some (p, t) \<Longrightarrow>
      \<exists>len. unat sz \<le> unat len \<and> p \<notin> fst ` B \<and> holds t (insert (p, len) B)"
    and alloc_keeps: "holds s B \<Longrightarrow> alloc sz s = Some (p, t) \<Longrightarrow> (q, l) \<in> B \<Longrightarrow> in_region q (unat l) x \<Longrightarrow>
      bytes t x = bytes s x"
    and release_removes: "holds s B \<Longrightarrow> (p, len) \<in> B \<Longrightarrow> holds (release p s) (B - {(p, len)})"
    and release_keeps: "holds s B \<Longrightarrow> (p, len) \<in> B \<Longrightarrow> (q, l) \<in> B \<Longrightarrow> in_region q (unat l) x \<Longrightarrow>
      bytes (release p s) x = bytes s x"
    and blocks_apart: "holds s B \<Longrightarrow> (p, k) \<in> B \<Longrightarrow> (q, l) \<in> B \<Longrightarrow> p \<noteq> q \<Longrightarrow>
      region_disjoint p (unat k) q (unat l)"
    and block_unique: "holds s B \<Longrightarrow> (p, k) \<in> B \<Longrightarrow> (p, l) \<in> B \<Longrightarrow> k = l"
begin

lemma serves_apart:
  assumes "serves holds s C" and "(p, k) \<in> C" and "(q, l) \<in> C" and "p \<noteq> q"
  shows "region_disjoint p (unat k) q (unat l)"
proof -
  obtain B where B: "holds s B" "\<forall>(p, sz)\<in>C. \<exists>l. (p, l) \<in> B \<and> unat sz \<le> unat l"
    using assms(1) unfolding serves_def by blast
  obtain k' where k': "(p, k') \<in> B" "unat k \<le> unat k'" using B(2) assms(2) by blast
  obtain l' where l': "(q, l') \<in> B" "unat l \<le> unat l'" using B(2) assms(3) by blast
  have "region_disjoint p (unat k') q (unat l')" by (rule blocks_apart [OF B(1) k'(1) l'(1) assms(4)])
  then show ?thesis
    unfolding region_disjoint_def using k'(2) l'(2) in_region_mono by blast
qed

lemma serves_alloc:
  assumes "serves holds s C" and a: "alloc sz s = Some (p, t)"
  shows "serves holds t (insert (p, sz) C)" and "p \<notin> fst ` C"
    and "(q, l) \<in> C \<Longrightarrow> in_region q (unat l) x \<Longrightarrow> bytes t x = bytes s x"
proof -
  obtain B where B: "holds s B" "\<forall>(p, sz)\<in>C. \<exists>l. (p, l) \<in> B \<and> unat sz \<le> unat l"
    "\<forall>(p, k)\<in>C. \<forall>(q, l)\<in>C. p = q \<longrightarrow> k = l" using assms(1) unfolding serves_def by blast
  obtain len where len: "unat sz \<le> unat len" "p \<notin> fst ` B" "holds t (insert (p, len) B)"
    using alloc_adds [OF B(1) a] by blast
  show new: "p \<notin> fst ` C" using B(2) len(2) by (force simp: image_iff)
  show "serves holds t (insert (p, sz) C)"
    unfolding serves_def
  proof (intro exI [of _ "insert (p, len) B"] conjI)
    show "\<forall>(p', sz')\<in>insert (p, sz) C. \<exists>l. (p', l) \<in> insert (p, len) B \<and> unat sz' \<le> unat l"
      using B(2) len(1) by fastforce
    show "\<forall>(p', k)\<in>insert (p, sz) C. \<forall>(q, l)\<in>insert (p, sz) C. p' = q \<longrightarrow> k = l"
      using B(3) new by (force simp: image_iff)
  qed (rule len(3))
  assume "(q, l) \<in> C" and x: "in_region q (unat l) x"
  then obtain l' where "(q, l') \<in> B" "unat l \<le> unat l'" using B(2) by blast
  then show "bytes t x = bytes s x" using alloc_keeps [OF B(1) a] x in_region_mono by blast
qed

lemma serves_release:
  assumes "serves holds s C" and pC: "(p, sz) \<in> C"
  shows "serves holds (release p s) (C - {(p, sz)})"
    and "(q, l) \<in> C \<Longrightarrow> in_region q (unat l) x \<Longrightarrow> bytes (release p s) x = bytes s x"
proof -
  obtain B where B: "holds s B" "\<forall>(p, sz)\<in>C. \<exists>l. (p, l) \<in> B \<and> unat sz \<le> unat l"
    "\<forall>(p, k)\<in>C. \<forall>(q, l)\<in>C. p = q \<longrightarrow> k = l" using assms(1) unfolding serves_def by blast
  obtain len where len: "(p, len) \<in> B" using B(2) pC by blast
  have "\<exists>l. (q, l) \<in> B - {(p, len)} \<and> unat k \<le> unat l" if "(q, k) \<in> C - {(p, sz)}" for q k
  proof -
    have "q \<noteq> p" using that pC B(3) by fastforce
    then show ?thesis using that B(2) by fastforce
  qed
  then show "serves holds (release p s) (C - {(p, sz)})"
    unfolding serves_def using release_removes [OF B(1) len] B(3) by blast
  assume "(q, l) \<in> C" and x: "in_region q (unat l) x"
  then obtain l' where "(q, l') \<in> B" "unat l \<le> unat l'" using B(2) by blast
  then show "bytes (release p s) x = bytes s x" using release_keeps [OF B(1) len] x in_region_mono by blast
qed

end

text \<open>A heap that also leaves the memory outside of its window alone, as string literals and stacks need it.\<close>

locale framed_heap = block_heap +
  fixes outside :: "'s \<Rightarrow> u64 \<Rightarrow> bool"
  assumes alloc_outside: "holds s B \<Longrightarrow> alloc sz s = Some (p, t) \<Longrightarrow> outside s x \<Longrightarrow> bytes t x = bytes s x \<and> outside t x"
    and release_outside: "holds s B \<Longrightarrow> (p, len) \<in> B \<Longrightarrow> outside s x \<Longrightarrow>
      bytes (release p s) x = bytes s x \<and> outside (release p s) x"
begin

text \<open>Bytes a client can rely on: in one of its blocks or outside of the heap.\<close>

definition stable :: "'s \<Rightarrow> (u64 \<times> u64) set \<Rightarrow> u64 \<Rightarrow> bool" where
  "stable s B x \<longleftrightarrow> outside s x \<or> (\<exists>(q, l)\<in>B. in_region q (unat l) x)"

lemma alloc_stable:
  assumes "holds s B" and "alloc sz s = Some (p, t)" and "stable s B x"
  shows "bytes t x = bytes s x" and "stable t B x"
  using assms(3) alloc_keeps [OF assms(1,2)] alloc_outside [OF assms(1,2)] unfolding stable_def by blast+

lemma release_stable:
  assumes "holds s B" and "(p, len) \<in> B" and "stable s (B - {(p, len)}) x"
  shows "bytes (release p s) x = bytes s x" and "stable (release p s) (B - {(p, len)}) x"
  using assms(3) release_keeps [OF assms(1,2)] release_outside [OF assms(1,2)] unfolding stable_def by blast+

end

section \<open>The kernel heap provides it\<close>

definition heap_holds :: "nat \<Rightarrow> 'z heap_scheme \<Rightarrow> (u64 \<times> u64) set \<Rightarrow> bool" where
  "heap_holds lim s B \<longleftrightarrow> (\<exists>ss. heap_sys lim s ss \<and> blocks ss = B)"

text \<open>The requests for which the window has room, even if the heap must grow twice.\<close>

definition heap_room :: "nat \<Rightarrow> u64 \<Rightarrow> 'z heap_scheme \<Rightarrow> bool" where
  "heap_room lim sz s \<longleftrightarrow> 0 < unat sz \<and> unat sz \<le> 2 ^ 61 \<and>
     unat (heapEnd s) + 2 * round_page (unat (align16 sz)) \<le> lim"

definition heap_alloc :: "nat \<Rightarrow> u64 \<Rightarrow> 'z heap_scheme \<Rightarrow> (u64 \<times> 'z heap_scheme) option" where
  "heap_alloc lim sz s = (if heap_room lim sz s
     then (case malloc sz s of Some (Inr r) \<Rightarrow> Some r | _ \<Rightarrow> None) else None)"

lemma heap_alloc_allocated:
  assumes "heap_sys lim s ss" and "heap_alloc lim sz s = Some (p, t)"
  shows "allocated lim sz s ss p t"
  using assms malloc_total [OF assms(1), of sz]
  by (auto simp: heap_alloc_def heap_room_def split: if_splits)

interpretation hp: block_heap "heap_holds lim" ram "heap_alloc lim" free for lim
proof unfold_locales
  fix s t :: "'z heap_scheme" and B sz p q k l len x
  assume "heap_holds lim s B"
  then obtain ss where sys: "heap_sys lim s ss" and B: "blocks ss = B" by (auto simp: heap_holds_def)
  have ok: "heap_ok s ss" using sys by (simp add: heap_sys_def heap_inv_def)
  show "\<exists>len. unat sz \<le> unat len \<and> p \<notin> fst ` B \<and> heap_holds lim t (insert (p, len) B)"
    if "heap_alloc lim sz s = Some (p, t)"
    using heap_alloc_allocated [OF sys that] B unfolding allocated_def heap_holds_def by blast
  show "ram t x = ram s x" if "heap_alloc lim sz s = Some (p, t)" "(q, l) \<in> B" "in_region q (unat l) x"
    using heap_alloc_allocated [OF sys that(1)] that(2,3) B unfolding allocated_def blocks_kept_def by blast
  show "heap_holds lim (free p s) (B - {(p, len)})" if b: "(p, len) \<in> B"
  proof -
    obtain xs u ys where "heap_sys lim (free p s) (merge_free (xs @ Seg (sg_addr u) (sg_len u) True # ys))"
      "blocks (merge_free (xs @ Seg (sg_addr u) (sg_len u) True # ys)) = blocks ss - {(p, len)}"
      using free_block [OF sys, of p len] b B by metis
    then show ?thesis using B unfolding heap_holds_def by blast
  qed
  show "ram (free p s) x = ram s x" if b: "(p, len) \<in> B" and "(q, l) \<in> B" "in_region q (unat l) x"
  proof -
    have "blocks_kept ss (ram s) (ram (free p s))" using free_block [OF sys, of p len] b B by metis
    with that(2,3) B show ?thesis unfolding blocks_kept_def by blast
  qed
  show "region_disjoint p (unat k) q (unat l)" if "(p, k) \<in> B" "(q, l) \<in> B" "p \<noteq> q"
    using blocks_disjoint [OF ok] that B by blast
  show "k = l" if "(p, k) \<in> B" "(p, l) \<in> B"
  proof -
    have "distinct (map sg_addr ss)" using ok tiles_distinct by (auto simp: heap_ok_def)
    with that B show ?thesis by (auto simp: blocks_def distinct_map dest: inj_onD)
  qed
qed

interpretation hp: framed_heap "heap_holds lim" ram "heap_alloc lim" free "outer lim" for lim
proof unfold_locales
  fix s t :: "'z heap_scheme" and B sz p len x
  assume "heap_holds lim s B"
  then obtain ss where sys: "heap_sys lim s ss" and B: "blocks ss = B" by (auto simp: heap_holds_def)
  show "ram t x = ram s x \<and> outer lim t x" if "heap_alloc lim sz s = Some (p, t)" "outer lim s x"
    using heap_alloc_allocated [OF sys that(1)] that(2) unfolding allocated_def outer_kept_def by blast
  show "ram (free p s) x = ram s x \<and> outer lim (free p s) x" if "(p, len) \<in> B" "outer lim s x"
  proof -
    have "outer_kept lim s (free p s)" using free_block [OF sys, of p len] that(1) B by metis
    with that(2) show ?thesis unfolding outer_kept_def by blast
  qed
qed

lemma block_outer:
  assumes "heap_holds lim s B" and "(p, l) \<in> B" and "in_region p (unat l) x"
  shows "\<not> outer lim s x"
proof -
  obtain ss where ok: "heap_ok s ss" and hi: "unat (heapEnd s) \<le> lim" and B: "blocks ss = B"
    using assms(1) by (auto simp: heap_holds_def heap_sys_def heap_inv_def heap_env_def)
  obtain u where "u \<in> set ss" "in_payload u x" using blocksE [OF ok, of p l] assms(2,3) B by metis
  then show ?thesis using heap_ok_bounds [OF ok] hi by (force simp: in_payload_def outer_def)
qed

section \<open>Clients\<close>

text \<open>
  A run of the kernel code above the heap: it allocates when the window has room, frees blocks it
  owns, and writes bytes inside them.
\<close>

inductive client_step :: "nat \<Rightarrow> 'z heap_scheme \<times> (u64 \<times> u64) set \<Rightarrow> 'z heap_scheme \<times> (u64 \<times> u64) set \<Rightarrow> bool"
  for lim where
  alloc: "heap_room lim sz s \<Longrightarrow> malloc sz s = Some (Inr (p, t)) \<Longrightarrow> client_step lim (s, C) (t, insert (p, sz) C)"
| release: "(p, sz) \<in> C \<Longrightarrow> client_step lim (s, C) (free p s, C - {(p, sz)})"
| write_byte: "(p, sz) \<in> C \<Longrightarrow> in_region p (unat sz) x \<Longrightarrow> client_step lim (s, C) (s\<lparr>ram := (ram s)(x := v)\<rparr>, C)"

inductive_cases client_stepE: "client_step lim (s, C) (t, D)"

lemma payload_update:
  fixes s :: "'z heap_scheme"
  assumes "heap_holds lim s B" and "(p, l) \<in> B" and m: "\<And>x. \<not> in_region p (unat l) x \<Longrightarrow> m x = ram s x"
  shows "heap_holds lim (s\<lparr>ram := m\<rparr>) B"
proof -
  obtain ss where sys: "heap_sys lim s ss" and B: "blocks ss = B" using assms(1) by (auto simp: heap_holds_def)
  have ok: "heap_ok s ss" and env: "heap_env lim s" and adj: "no_adjacent_free ss"
    using sys by (simp_all add: heap_sys_def heap_inv_def)
  obtain u where u: "u \<in> set ss" "\<forall>x. in_region p (unat l) x \<longleftrightarrow> in_payload u x"
    using blocksE [OF ok, of p l] assms(2) B by metis
  let ?t = "s\<lparr>ram := m\<rparr>"
  have "chain m 0 ss 0 = chain (ram s) 0 ss 0"
    using payload_no_header [OF ok u(1)] m u(2) by (intro chain_cong) blast
  with ok adj have "heap_inv ?t ss" by (simp add: heap_inv_def heap_ok_def)
  moreover have "heap_env lim ?t"
    using heap_ok_bounds [OF ok u(1)] m u(2) by (intro heap_env_write [OF env]) (auto simp: in_payload_def)
  ultimately show ?thesis using B by (auto simp: heap_holds_def heap_sys_def)
qed

lemma payload_write:
  fixes s :: "'z heap_scheme"
  assumes "heap_holds lim s B" and "(p, l) \<in> B" and "in_region p (unat l) x"
  shows "heap_holds lim (s\<lparr>ram := (ram s)(x := v)\<rparr>) B"
  using assms(3) by (intro payload_update [OF assms(1,2)]) auto

lemma client_step_serves:
  fixes s t :: "'z heap_scheme"
  assumes "client_step lim (s, C) (t, D)" and serves: "serves (heap_holds lim) s C"
  shows "serves (heap_holds lim) t D"
proof -
  consider (1) sz p where "heap_room lim sz s" "malloc sz s = Some (Inr (p, t))" "D = insert (p, sz) C"
    | (2) p sz where "(p, sz) \<in> C" "t = free p s" "D = C - {(p, sz)}"
    | (3) p sz x v where "(p, sz) \<in> C" "in_region p (unat sz) x" "t = s\<lparr>ram := (ram s)(x := v)\<rparr>" "D = C"
    using assms(1) by (cases rule: client_stepE) blast+
  then show ?thesis
  proof cases
    case (1 sz p)
    then have "heap_alloc lim sz s = Some (p, t)" by (simp add: heap_alloc_def)
    from hp.serves_alloc(1) [OF serves this] 1 show ?thesis by simp
  next
    case (2 p sz)
    then show ?thesis using hp.serves_release(1) [OF serves] by simp
  next
    case (3 p sz x v)
    obtain B where B: "heap_holds lim s B" "\<forall>(p, sz)\<in>C. \<exists>l. (p, l) \<in> B \<and> unat sz \<le> unat l"
      "\<forall>(p, k)\<in>C. \<forall>(q, l)\<in>C. p = q \<longrightarrow> k = l" using serves unfolding serves_def by blast
    obtain l where "(p, l) \<in> B" "unat sz \<le> unat l" using B(2) 3 by blast
    then have "heap_holds lim t B" using payload_write [OF B(1)] in_region_mono 3 by blast
    with B(2,3) 3 show ?thesis unfolding serves_def by blast
  qed
qed

lemma used_loop_sum:
  assumes "chain m prev ss 0" and "ss \<noteq> []" and "\<And>s. s \<in> set ss \<Longrightarrow> sg_addr s \<noteq> 0"
  shows "used_loop m used (first_addr ss 0) =
     Some (used + (\<Sum>s\<leftarrow>ss. if sg_free s then 0 else sg_len s + 29))"
  using assms
proof (induction ss arbitrary: prev used)
  case (Cons s ss)
  then have h: "hdr_free m (sg_addr s) = sg_free s" "hdr_length m (sg_addr s) = sg_len s"
    "hdr_next m (sg_addr s) = first_addr ss 0" by (auto simp: hdr_holds_def)
  show ?case
  proof (cases "ss = []")
    case True
    then show ?thesis using h by (subst used_loop.simps) simp
  next
    case False
    then have "first_addr ss 0 \<noteq> 0" using Cons.prems(3) by (cases ss) auto
    moreover have "used_loop m u (first_addr ss 0) = Some (u + (\<Sum>s\<leftarrow>ss. if sg_free s then 0 else sg_len s + 29))" for u
      using Cons.IH [of "sg_addr s" u] Cons.prems False by auto
    ultimately show ?thesis
      using h by (subst used_loop.simps) (simp add: Let_def algebra_simps)
  qed
qed simp

end
