(* ===== verification/Heap_Spec.thy ===== *)
theory Heap_Spec
  imports Heap_Client
begin

text \<open>The properties of \<^verbatim>\<open>kernel/mem/heap.cpp\<close>.\<close>

section \<open>Undoing an allocation\<close>

lemma merge_taken:
  assumes adj: "no_adjacent_free (xs @ s # ys)" and s: "sg_free s"
  shows "merge_free (xs @ Seg (sg_addr s) (sg_len s) True # ys) = xs @ s # ys"
    and "merge_free (xs @ Seg (sg_addr s) sz True # rest_seg s sz # ys) = xs @ s # ys"
proof -
  have se: "Seg (sg_addr s) (sg_len s) True = s" using s by (cases s) simp
  then show "merge_free (xs @ Seg (sg_addr s) (sg_len s) True # ys) = xs @ s # ys"
    using merge_free_id [OF adj] by simp
  have "no_adjacent_free (rest_seg s sz # ys)"
    using adj s by (cases ys) (auto simp: no_adjacent_free_append rest_seg_def)
  then have r: "merge_free (rest_seg s sz # ys) = rest_seg s sz # ys" by (rule merge_free_id)
  have "merged (Seg (sg_addr s) sz True) (rest_seg s sz) = s" using se by (simp add: merged_def rest_seg_def)
  then have "merge_free (Seg (sg_addr s) sz True # rest_seg s sz # ys) = s # ys"
    unfolding merge_free.simps(2) [of _ "rest_seg s sz # ys"] r using s by (simp add: rest_seg_def)
  then show "merge_free (xs @ Seg (sg_addr s) sz True # rest_seg s sz # ys) = xs @ s # ys"
    using merge_free_append [of xs _ s ys] adj s by (auto simp: no_adjacent_free_append)
qed

lemma malloc_free_segs:
  fixes st :: "'z heap_scheme"
  assumes sys: "heap_sys lim st ss" and sz: "16 \<le> unat (align16 sz)"
    and pl: "place (align16 sz) ss = Some (a, ts)"
  shows "\<exists>st'. malloc sz st = Some (Inr (a + 29, st')) \<and> heap_sys lim (free (a + 29) st') ss"
proof -
  obtain st' len where m: "malloc sz st = Some (Inr (a + 29, st'))" "heap_sys lim st' ts"
    "blocks ts = insert (a + 29, len) (blocks ss)"
    by (rule malloc_fit [OF sys sz pl]) blast
  obtain xs s ys where ss: "ss = xs @ s # ys" and a: "a = sg_addr s" and ts: "ts = xs @ take_seg (align16 sz) s @ ys"
    and fit: "fits (align16 sz) s" using pl by (auto simp: place_Some)
  have adj: "no_adjacent_free (xs @ s # ys)" using sys by (simp add: heap_sys_def heap_inv_def ss)
  have inv: "heap_inv st' ts" and env: "heap_env lim st'" using m(2) by (simp_all add: heap_sys_def)
  have free: "sg_free s" using fit by (simp add: fits_def)
  obtain n zs where tk: "ts = xs @ Seg a n False # zs" "merge_free (xs @ Seg a n True # zs) = ss"
  proof (cases "unat (align16 sz) + 45 \<le> unat (sg_len s)")
    case True
    then show thesis
      using merge_taken(2) [OF adj free] by (intro that [of "align16 sz"]) (simp_all add: ts ss a take_seg_def)
  next
    case False
    then show thesis
      using merge_taken(1) [OF adj free] by (intro that [of "sg_len s"]) (simp_all add: ts ss a take_seg_def)
  qed
  have "(a + 29, n) \<in> blocks ts" by (simp add: tk)
  then obtain xs' u ys' where f: "ts = xs' @ u # ys'" "a + 29 = sg_addr u + 29" "n = sg_len u"
    "heap_sys lim (free (a + 29) st') (merge_free (xs' @ Seg (sg_addr u) (sg_len u) True # ys'))"
    using free_block [OF m(2)] by metis
  have "distinct (map sg_addr ts)" using inv tiles_distinct by (auto simp: heap_inv_def heap_ok_def)
  then have "xs' = xs \<and> ys' = zs"
    using f(1,2) tk(1) by (auto simp: append_eq_append_conv2 append_eq_Cons_conv Cons_eq_append_conv)
  with f tk m(1) show ?thesis by simp
qed

section \<open>Secure free\<close>

lemma merge_free_addrs: "sg_addr ` set (merge_free ss) \<subseteq> sg_addr ` set ss"
proof (induction ss)
  case (Cons s ss)
  then show ?case by (cases "merge_free ss") auto
qed simp

lemma sfree_free: "sfree p sz st = (free p st)\<lparr>ram := memset (ram (free p st)) p 0 sz\<rparr>"
  by (simp add: sfree_def free_def Let_def)

lemma sfree_block:
  fixes st :: "'z heap_scheme"
  assumes sys: "heap_sys lim st ss" and b: "(p, len) \<in> blocks ss" and sz: "unat sz \<le> unat len"
  shows "\<exists>ts. heap_sys lim (sfree p sz st) ts \<and> blocks ts = blocks ss - {(p, len)}"
    and "in_region p (unat sz) x \<Longrightarrow> ram (sfree p sz st) x = 0"
    and "(q, l) \<in> blocks ss \<Longrightarrow> q \<noteq> p \<Longrightarrow> in_region q (unat l) x \<Longrightarrow> ram (sfree p sz st) x = ram st x"
    and "outer_kept lim st (sfree p sz st)"
proof -
  have ok: "heap_ok st ss" using sys by (simp add: heap_sys_def heap_inv_def)
  obtain xs s ys where ss: "ss = xs @ s # ys" and p: "p = sg_addr s + 29" and len: "len = sg_len s"
    and sys': "heap_sys lim (free p st) (merge_free (xs @ Seg (sg_addr s) (sg_len s) True # ys))"
    and bl: "blocks (merge_free (xs @ Seg (sg_addr s) (sg_len s) True # ys)) = blocks ss - {(p, len)}"
    and kept: "blocks_kept ss (ram st) (ram (free p st))" and out_free: "outer_kept lim st (free p st)"
    using free_block [OF sys b] by metis
  define ts where "ts = merge_free (xs @ Seg (sg_addr s) (sg_len s) True # ys)"
  have s: "s \<in> set ss" by (simp add: ss)
  let ?t = "free p st" and ?m = "memset (ram (free p st)) p 0 sz"
  have ok': "heap_ok ?t ts" "no_adjacent_free ts" "heap_env lim ?t"
    using sys' by (simp_all add: heap_sys_def heap_inv_def ts_def)
  have "heap_inv st (xs @ s # ys)" using sys by (simp add: heap_sys_def ss)
  then obtain m h where "?t = st\<lparr>ram := m, LastHdr := h\<rparr>" using free_refines(3) unfolding p by blast
  then have same: "heapStart ?t = heapStart st" "heapEnd ?t = heapEnd st" by simp_all
  have pay: "in_payload s x" if "in_region p (unat sz) x" for x
    using in_region_mono [OF that sz] payload_region [OF ok s] by (simp add: p len)
  have out: "?m x = ram ?t x" if "\<not> in_payload s x" for x
    using pay that by (auto simp: memset_apply)
  have sub: "sg_addr ` set ts \<subseteq> sg_addr ` set ss"
    using merge_free_addrs [of "xs @ Seg (sg_addr s) (sg_len s) True # ys"] by (auto simp: ts_def ss)
  have "chain ?m 0 ts 0 = chain (ram ?t) 0 ts 0"
  proof (rule chain_cong)
    fix u x assume "u \<in> set ts" and x: "in_region (sg_addr u) 29 x"
    then have "sg_addr u \<in> sg_addr ` set ss" using sub by blast
    then obtain v where "v \<in> set ss" "sg_addr v = sg_addr u" by auto
    with payload_no_header [OF ok s, of v x] x show "?m x = ram ?t x" by (intro out) auto
  qed
  then have "heap_inv (sfree p sz st) ts"
    using ok' by (simp add: heap_inv_def heap_ok_def sfree_free)
  moreover have "heap_env lim (sfree p sz st)"
    unfolding sfree_free
    by (rule heap_env_write [OF ok'(3)]) (use heap_ok_bounds [OF ok s] same out in \<open>auto simp: in_payload_def\<close>)
  moreover have "outer_kept lim ?t (sfree p sz st)"
    unfolding sfree_free
    by (rule outer_write [OF ok'(3)]) (use heap_ok_bounds [OF ok s] same out in \<open>auto simp: in_payload_def\<close>)
  then show "outer_kept lim st (sfree p sz st)" by (rule outer_kept_trans [OF out_free])
  ultimately show "\<exists>ts. heap_sys lim (sfree p sz st) ts \<and> blocks ts = blocks ss - {(p, len)}"
    using bl by (auto simp: heap_sys_def ts_def)
  show "in_region p (unat sz) x \<Longrightarrow> ram (sfree p sz st) x = 0" by (simp add: sfree_free memset_apply)
  show "ram (sfree p sz st) x = ram st x" if q: "(q, l) \<in> blocks ss" "q \<noteq> p" and x: "in_region q (unat l) x"
  proof -
    have "\<not> in_region p (unat sz) x"
      using blocks_disjoint [OF ok b q(1)] q(2) x in_region_mono [OF _ sz, of p x] by (auto simp: region_disjoint_def)
    with kept q(1) x show ?thesis by (auto simp: blocks_kept_def sfree_free memset_apply)
  qed
qed

section \<open>An example heap\<close>

definition heap_example :: heap where
  "heap_example = pfa.extend paging_example (heap.fields 0x1000 0 0 0)"

lemma heap_example_pfa:
  "ram heap_example = ram paging_example" "mem_pfaBitmap heap_example = mem_pfaBitmap paging_example"
  "bitmapIdx heap_example = bitmapIdx paging_example" "mem_freeMemory heap_example = 0x100000"
  "globalPageTable heap_example = 0x1000" "free_pages heap_example = free_pages paging_example"
  by (simp_all add: heap_example_def pfa.defs heap.defs paging_example_def free_pages_def)

lemma heap_example_inv: "paging_inv 0x1000 heap_example"
  using paging_example_inv
  by (simp add: paging_inv_def pfa_inv_def free_frames_def managed_frames_def heap_example_pfa)

lemma heap_example_area:
  assumes "paging_area 0x1000 heap_example x"
  shows "0x1000 \<le> unat x \<and> unat x < 0x8000 \<or> 2 ^ 48 \<le> unat x"
proof -
  have t: "tables (ram paging_example) 0x1000 \<subseteq> {0x1000}"
    using empty_page_walk [of "0x1000" "ram paging_example"] paging_example_fields(2)
    by (auto simp: tables_def aligned_def split: if_splits)
  have f: "\<exists>i. u = i * 4096 \<and> 1 \<le> unat i \<and> unat i \<le> 7" if u: "u \<in> free_frames heap_example" for u
  proof -
    obtain i where i: "u = i * 4096" "i \<in> free_pages paging_example"
      using u by (auto simp: free_frames_def heap_example_pfa)
    have "i < 8" using free_pages_lt [OF i(2)] by (simp add: paging_example_fields(1))
    moreover have "i \<noteq> 0" using i(2) by (auto simp: free_pages_def paging_example_def pfa_example_def Bitmap_get_def)
    ultimately show ?thesis using i(1) by (auto simp: word_less_nat_alt unat_gt_0 Suc_le_eq)
  qed
  have page: "0x1000 \<le> unat x \<and> unat x < 0x8000" if "in_region (i * 4096) 4096 x" "1 \<le> unat i" "unat i \<le> 7" for i
  proof -
    have "unat (i * 4096) = unat i * 4096" using that(3) unat_mult_no_wrap [of i 4096] by simp
    with that show ?thesis by (simp add: in_region_no_wrap)
  qed
  consider "in_region 0xffff800000100000 (Suc (Suc 0)) x" | "in_region 0x1000 4096 x"
    | u where "u \<in> free_frames heap_example" "in_region u 4096 x"
    using assms t by (auto simp: paging_area_def heap_example_pfa paging_example_fields(1))
  then show ?thesis
  proof cases
    case 1
    then show ?thesis by (simp add: in_region_no_wrap)
  next
    case 2
    then show ?thesis by (simp add: in_region_no_wrap)
  next
    case (3 u)
    then show ?thesis using f page by blast
  qed
qed

lemma heap_example_window: "window_free 0x800000 0x900000 heap_example"
proof -
  have "\<not> in_region 20 8 x \<and> (unat x < 0x800000 \<or> 0x900000 \<le> unat x)" if "paging_area 0x1000 heap_example x" for x
    using heap_example_area [OF that] by (auto intro!: low_address)
  then show ?thesis using heap_example_inv by (simp add: window_free_def heap_example_pfa)
qed

lemma heap_example_init:
  obtains t where "initHeap 0x800000 1 heap_example = Inr t" and "heap_sys 0x900000 t [Seg 0x800000 4067 True]"
    and "heapEnd t = 0x801000"
proof -
  have "{3, 4, 5, 6} \<subseteq> free_pages paging_example"
    by (simp add: free_pages_def paging_example_def pfa_example_def Bitmap_get_def)
  then have "card {3, 4, 5, 6 :: u64} \<le> card (free_pages heap_example)"
    by (simp only: heap_example_pfa) (rule card_mono, simp_all)
  then have "reserve (4 * unat (1 :: u64)) heap_example" by (simp add: reserve_def heap_example_pfa)
  then obtain t where t: "initHeap 0x800000 1 heap_example = Inr t"
    using initHeap_progress [of heap_example 1 "0x800000"] heap_example_inv by (auto simp: heap_example_pfa)
  show thesis
    using initHeap_effect(1,3) [OF heap_example_window _ _ t] by (intro that [OF t]) simp_all
qed

section \<open>Properties\<close>

text \<open>C17: when the window has room, \<open>malloc\<close> always returns (it grows the heap at most twice): it
  either halts because no page frame is left, or yields a non-null address of a new block of at
  least the requested size, disjoint from every allocated block; the heap invariant is kept and no
  byte of an allocated block, nor of the memory outside of the heap window, the page tables and the frames
  still free, changes.\<close>

theorem malloc_allocates:
  fixes st :: "'z heap_scheme"
  assumes "heap_sys lim st ss" and "0 < unat sz" and "unat sz \<le> 2 ^ 61"
    and "unat (heapEnd st) + 2 * round_page (unat (align16 sz)) \<le> lim"
  shows "case malloc sz st of
      None \<Rightarrow> False
    | Some (Inl e) \<Rightarrow> e = Panic ''Out of memory''
    | Some (Inr (p, t)) \<Rightarrow> \<exists>ts len. heap_sys lim t ts \<and> p \<noteq> 0 \<and> unat sz \<le> unat len \<and>
        blocks ts = insert (p, len) (blocks ss) \<and>
        (\<forall>(q, l)\<in>blocks ss. region_disjoint p (unat len) q (unat l) \<and>
           (\<forall>x. in_region q (unat l) x \<longrightarrow> ram t x = ram st x)) \<and>
        (\<forall>x. outer lim st x \<longrightarrow> ram t x = ram st x)"
proof -
  from malloc_total [OF assms] consider "malloc sz st = Some (Inl (Panic ''Out of memory''))"
    | p t where "malloc sz st = Some (Inr (p, t))" "allocated lim sz st ss p t" by blast
  then show ?thesis
  proof cases
    case (2 p t)
    then obtain ts len where a: "heap_sys lim t ts" "unat sz \<le> unat len" "p \<noteq> 0" "p \<notin> fst ` blocks ss"
      "blocks ts = insert (p, len) (blocks ss)" "blocks_kept ss (ram st) (ram t)" "outer_kept lim st t"
      by (auto simp: allocated_def)
    have ok: "heap_ok t ts" using a(1) by (simp add: heap_sys_def heap_inv_def)
    have "region_disjoint p (unat len) q (unat l)" if "(q, l) \<in> blocks ss" for q l
      using blocks_disjoint [OF ok, of p len q l] a(4,5) that by force
    then have "heap_sys lim t ts \<and> p \<noteq> 0 \<and> unat sz \<le> unat len \<and> blocks ts = insert (p, len) (blocks ss) \<and>
        (\<forall>(q, l)\<in>blocks ss. region_disjoint p (unat len) q (unat l) \<and>
           (\<forall>x. in_region q (unat l) x \<longrightarrow> ram t x = ram st x)) \<and>
        (\<forall>x. outer lim st x \<longrightarrow> ram t x = ram st x)"
      using a by (auto simp: blocks_kept_def outer_kept_def)
    then show ?thesis unfolding 2(1) option.case sum.case prod.case by blast
  qed simp
qed

theorem malloc_allocates_witness:
  "\<exists>t. initHeap 0x800000 1 heap_example = Inr t \<and>
     (case malloc 100 t of None \<Rightarrow> False | Some (Inl e) \<Rightarrow> e = Panic ''Out of memory''
      | Some (Inr (p, u)) \<Rightarrow> p \<noteq> 0)"
proof -
  obtain t where t: "initHeap 0x800000 1 heap_example = Inr t"
    "heap_sys 0x900000 t [Seg 0x800000 4067 True]" "heapEnd t = 0x801000" by (rule heap_example_init)
  have "unat (heapEnd t) + 2 * round_page (unat (align16 100)) \<le> 0x900000"
    by (simp add: t(3) align16_def round_page_def)
  with malloc_allocates [OF t(2), of 100] show ?thesis
    by (intro exI [of _ t]) (auto simp: t(1) split: option.splits sum.splits)
qed

text \<open>C18: freeing an allocated block removes exactly that block, merges free neighbours so that no two
  free segments are adjacent, and changes no byte of any block.\<close>

theorem free_releases:
  fixes st :: "'z heap_scheme"
  assumes "heap_sys lim st ss" and "(p, len) \<in> blocks ss"
  shows "\<exists>ts. heap_sys lim (free p st) ts \<and> no_adjacent_free ts \<and> blocks ts = blocks ss - {(p, len)} \<and>
     (\<forall>(q, l)\<in>blocks ss. \<forall>x. in_region q (unat l) x \<longrightarrow> ram (free p st) x = ram st x)"
proof -
  obtain ts where "heap_sys lim (free p st) ts" "blocks ts = blocks ss - {(p, len)}"
    "blocks_kept ss (ram st) (ram (free p st))" using free_block [OF assms] by metis
  then show ?thesis by (auto simp: heap_sys_def heap_inv_def blocks_kept_def)
qed

lemma heap_example_malloc:
  obtains t u where "initHeap 0x800000 1 heap_example = Inr t" and "malloc 100 t = Some (Inr (0x80001d, u))"
    and "heap_sys 0x900000 t [Seg 0x800000 4067 True]" and "place 112 [Seg 0x800000 4067 True] \<noteq> None"
    and "heap_sys 0x900000 u [Seg 0x800000 112 False, Seg 0x80008d 3926 True]"
proof -
  obtain t where t: "initHeap 0x800000 1 heap_example = Inr t"
    "heap_sys 0x900000 t [Seg 0x800000 4067 True]" by (rule heap_example_init)
  have a: "align16 100 = 112" by (simp add: align16_def)
  have pl: "place (align16 100) [Seg 0x800000 4067 True] =
     Some (0x800000, [Seg 0x800000 112 False, Seg 0x80008d 3926 True])"
    by (simp add: a fits_def take_seg_def rest_seg_def split_point_def)
  obtain u len where "malloc 100 t = Some (Inr (0x800000 + 29, u))"
    "heap_sys 0x900000 u [Seg 0x800000 112 False, Seg 0x80008d 3926 True]"
    by (rule malloc_fit [OF t(2) _ pl]) (simp_all add: a)
  with t pl show thesis by (intro that [of t u]) (simp_all add: a)
qed

theorem free_releases_witness:
  "\<exists>t u ts. initHeap 0x800000 1 heap_example = Inr t \<and> malloc 100 t = Some (Inr (0x80001d, u)) \<and>
     heap_sys 0x900000 (free 0x80001d u) ts \<and> blocks ts = {}"
proof -
  obtain t u where t: "initHeap 0x800000 1 heap_example = Inr t" "malloc 100 t = Some (Inr (0x80001d, u))"
    "heap_sys 0x900000 u [Seg 0x800000 112 False, Seg 0x80008d 3926 True]" by (rule heap_example_malloc)
  have "(0x80001d, 112) \<in> blocks [Seg 0x800000 112 False, Seg 0x80008d 3926 True]" by simp
  from free_releases [OF t(3) this] t(1,2) show ?thesis by auto
qed

text \<open>C19: an allocation served from an existing segment is undone by freeing it: the segment list is
  exactly what it was before.\<close>

theorem malloc_free_restores:
  fixes st :: "'z heap_scheme"
  assumes "heap_sys lim st ss" and "0 < unat sz" and "unat sz \<le> 2 ^ 61"
    and "s \<in> set ss" and "sg_free s" and "align16 sz \<le> sg_len s"
  shows "\<exists>p t. malloc sz st = Some (Inr (p, t)) \<and> heap_sys lim (free p t) ss"
proof -
  have "unat (align16 sz) = (unat sz + 15) div 16 * 16" using assms(3) by (intro align16) simp
  then have z: "16 \<le> unat (align16 sz)" using assms(2) by simp
  obtain a ts where "place (align16 sz) ss = Some (a, ts)"
    using assms(4-6) place_None [of "align16 sz" ss] by (auto simp: fits_def)
  from malloc_free_segs [OF assms(1) z this] show ?thesis by blast
qed

theorem malloc_free_restores_witness:
  "\<exists>t p u. initHeap 0x800000 1 heap_example = Inr t \<and> malloc 100 t = Some (Inr (p, u)) \<and>
     heap_sys 0x900000 (free p u) [Seg 0x800000 4067 True]"
proof -
  obtain t where t: "initHeap 0x800000 1 heap_example = Inr t"
    "heap_sys 0x900000 t [Seg 0x800000 4067 True]" by (rule heap_example_init)
  have "\<exists>p u. malloc 100 t = Some (Inr (p, u)) \<and> heap_sys 0x900000 (free p u) [Seg 0x800000 4067 True]"
    by (rule malloc_free_restores [OF t(2), of 100 "Seg 0x800000 4067 True"]) (simp_all add: align16_def)
  with t(1) show ?thesis by blast
qed

text \<open>C20: in every run of client code that allocates, frees blocks it owns and writes only inside its
  own blocks, the heap stays well formed and the blocks the client owns never overlap.\<close>

theorem heap_clients_isolated:
  fixes s t :: "'z heap_scheme"
  assumes "(client_step lim)\<^sup>*\<^sup>* (s, C) (t, D)" and "serves (heap_holds lim) s C"
  shows "serves (heap_holds lim) t D \<and>
     (\<forall>(p, k)\<in>D. \<forall>(q, l)\<in>D. p \<noteq> q \<longrightarrow> region_disjoint p (unat k) q (unat l))"
proof -
  have "serves (heap_holds lim) t D"
    using assms
  proof (induction "(t, D)" arbitrary: t D rule: rtranclp_induct)
    case (step y)
    obtain u E where y: "y = (u, E)" by (cases y)
    with step have "serves (heap_holds lim) u E" by simp
    with step(2) y show ?case using client_step_serves by blast
  qed simp
  then show ?thesis using hp.serves_apart by blast
qed

theorem heap_clients_isolated_witness:
  "\<exists>t v. initHeap 0x800000 1 heap_example = Inr t \<and>
     (client_step 0x900000)\<^sup>*\<^sup>* (t, {}) (v, {(0x80001d, 100)}) \<and> ram v 0x80001d = 7 \<and>
     serves (heap_holds 0x900000) v {(0x80001d, 100)}"
proof -
  obtain t where t: "initHeap 0x800000 1 heap_example = Inr t"
    "heap_sys 0x900000 t [Seg 0x800000 4067 True]" "heapEnd t = 0x801000" by (rule heap_example_init)
  obtain t' u where u: "initHeap 0x800000 1 heap_example = Inr t'" "malloc 100 t' = Some (Inr (0x80001d, u))"
    by (rule heap_example_malloc)
  then have m: "malloc 100 t = Some (Inr (0x80001d, u))" using t(1) by simp
  have r: "heap_room 0x900000 100 t" by (simp add: heap_room_def t(3) align16_def round_page_def)
  let ?v = "u\<lparr>ram := (ram u)(0x80001d := 7)\<rparr>"
  have "client_step 0x900000 (t, {}) (u, {(0x80001d, 100)})" using client_step.alloc [OF r m, of "{}"] by simp
  moreover have "in_region 0x80001d (unat (100 :: u64)) 0x80001d" by (simp add: in_region_def)
  then have "client_step 0x900000 (u, {(0x80001d, 100)}) (?v, {(0x80001d, 100)})"
    using client_step.write_byte [of "0x80001d" 100 "{(0x80001d, 100)}" "0x80001d" "0x900000" u 7] by simp
  ultimately have run: "(client_step 0x900000)\<^sup>*\<^sup>* (t, {}) (?v, {(0x80001d, 100)})" by auto
  have "heap_holds 0x900000 t {}" using t(2) by (auto simp: heap_holds_def intro!: exI [of _ "[Seg 0x800000 4067 True]"])
  then have "serves (heap_holds 0x900000) t {}" by (auto simp: serves_def)
  from heap_clients_isolated [OF run this] run t(1) show ?thesis
    by (intro exI [of _ t] exI [of _ ?v]) simp
qed

text \<open>With enough free frames \<open>initHeap\<close> maps every page of the window to a frame of its own, taken
  from the free frames, and leaves a well-formed heap with one free segment.\<close>

theorem initHeap_establishes:
  fixes s :: "'z heap_scheme"
  assumes "window_free a lim s" and "1 \<le> unat n" and "unat a + 4096 * unat n \<le> lim" and "reserve (4 * unat n) s"
  shows "\<exists>t. initHeap a n s = Inr t \<and> heap_sys lim t [Seg a (n * 0x1000 - 29) True] \<and>
     (\<exists>ps. length ps = unat n \<and> distinct ps \<and> set ps \<subseteq> free_frames s \<and> set ps \<inter> free_frames t = {} \<and>
        (\<forall>i<unat n. translate (ram t) (globalPageTable s) (a + of_nat i * 0x1000) = Some (ps ! i)))"
proof -
  have "paging_inv (globalPageTable s) s" using assms(1) by (simp add: window_free_def)
  then obtain t where t: "initHeap a n s = Inr t" using initHeap_progress assms(4) by blast
  from t initHeap_effect [OF assms(1-3) t] show ?thesis by blast
qed

theorem initHeap_establishes_witness:
  "\<exists>t p. initHeap 0x800000 1 heap_example = Inr t \<and> heap_sys 0x900000 t [Seg 0x800000 4067 True] \<and>
     translate (ram t) 0x1000 0x800000 = Some p"
proof -
  have "{3, 4, 5, 6} \<subseteq> free_pages paging_example"
    by (simp add: free_pages_def paging_example_def pfa_example_def Bitmap_get_def)
  then have "card {3, 4, 5, 6 :: u64} \<le> card (free_pages heap_example)"
    by (simp only: heap_example_pfa) (rule card_mono, simp_all)
  then have "reserve (4 * unat (1 :: u64)) heap_example" by (simp add: reserve_def heap_example_pfa)
  from initHeap_establishes [OF heap_example_window _ _ this] show ?thesis
    by (auto simp: heap_example_pfa)
qed

text \<open>\<open>sfree\<close> releases the block like \<open>free\<close> and leaves every byte of the given size zero, without
  damaging the heap or any other block.\<close>

theorem sfree_zeroes:
  fixes st :: "'z heap_scheme"
  assumes "heap_sys lim st ss" and "(p, len) \<in> blocks ss" and "unat sz \<le> unat len"
  shows "(\<exists>ts. heap_sys lim (sfree p sz st) ts \<and> blocks ts = blocks ss - {(p, len)}) \<and>
     (\<forall>x. in_region p (unat sz) x \<longrightarrow> ram (sfree p sz st) x = 0) \<and>
     (\<forall>(q, l)\<in>blocks ss. q \<noteq> p \<longrightarrow> (\<forall>x. in_region q (unat l) x \<longrightarrow> ram (sfree p sz st) x = ram st x))"
  using sfree_block [OF assms] by blast

theorem sfree_zeroes_witness:
  "\<exists>t u. initHeap 0x800000 1 heap_example = Inr t \<and> malloc 100 t = Some (Inr (0x80001d, u)) \<and>
     ram (sfree 0x80001d 16 u) 0x80001d = 0"
proof -
  obtain t u where t: "initHeap 0x800000 1 heap_example = Inr t" "malloc 100 t = Some (Inr (0x80001d, u))"
    "heap_sys 0x900000 u [Seg 0x800000 112 False, Seg 0x80008d 3926 True]" by (rule heap_example_malloc)
  have "(0x80001d, 112) \<in> blocks [Seg 0x800000 112 False, Seg 0x80008d 3926 True]" by simp
  then have "ram (sfree 0x80001d 16 u) 0x80001d = 0"
    using sfree_zeroes [OF t(3), of "0x80001d" 112 16] by (simp add: in_region_def)
  with t(1,2) show ?thesis by blast
qed

text \<open>\<open>getUsedMem\<close> ends and returns the sum of the lengths of the allocated segments and their
  headers.\<close>

theorem getUsedMem_sum:
  fixes st :: "'z heap_scheme"
  assumes "heap_inv st ss"
  shows "getUsedMem st = Some (\<Sum>s\<leftarrow>filter (\<lambda>s. \<not> sg_free s) ss. sg_len s + 29)"
proof -
  have ok: "heap_ok st ss" using assms by (simp add: heap_inv_def)
  then have c: "chain (ram st) 0 ss 0" "ss \<noteq> []" "first_addr ss 0 = heapStart st"
    by (cases ss; auto simp: heap_ok_def word_unat_eq_iff)+
  have "(\<Sum>s\<leftarrow>ss. if sg_free s then 0 else sg_len s + 29) = (\<Sum>s\<leftarrow>filter (\<lambda>s. \<not> sg_free s) ss. sg_len s + 29)"
    by (induction ss) auto
  with used_loop_sum [OF c(1,2), of 0] heap_ok_bounds(5) [OF ok] c(3) show ?thesis
    by (simp add: getUsedMem_def)
qed

theorem getUsedMem_sum_witness:
  "\<exists>t u. initHeap 0x800000 1 heap_example = Inr t \<and> malloc 100 t = Some (Inr (0x80001d, u)) \<and>
     getUsedMem u = Some 141"
proof -
  obtain t u where t: "initHeap 0x800000 1 heap_example = Inr t" "malloc 100 t = Some (Inr (0x80001d, u))"
    "heap_sys 0x900000 u [Seg 0x800000 112 False, Seg 0x80008d 3926 True]" by (rule heap_example_malloc)
  then have "heap_inv u [Seg 0x800000 112 False, Seg 0x80008d 3926 True]" by (simp add: heap_sys_def)
  from getUsedMem_sum [OF this] t(1,2) show ?thesis by auto
qed

end
