(* ===== verification/Klist.thy ===== *)
theory Klist
  imports Heap_Client "HOL-Library.Multiset"
begin

text \<open>
  \<^verbatim>\<open>kernel/lib/list.h\<close>: the growing array \<open>List<T>\<close> over the kernel heap. The element type is a
  record of how \<open>T\<close> is loaded, stored and compared; the kernel uses \<open>List<u16>\<close>. Every operation
  works on the buffer in memory with the index loops of the source; the lemmas show that it is the
  corresponding function on the list of elements, and that growing the buffer keeps the heap sound.
\<close>

section \<open>Definitions\<close>

record 'v elem =
  ld :: "mem \<Rightarrow> u64 \<Rightarrow> 'v"
  st :: "mem \<Rightarrow> u64 \<Rightarrow> 'v \<Rightarrow> mem"
  esize :: u64
  gt :: "'v \<Rightarrow> 'v \<Rightarrow> bool"
  null_item :: 'v

record klist =
  items :: u64
  llength :: u64
  capacity :: u64

text \<open>The values of \<open>i\<close> in \<open>for (u64 i = a; i < b; i++)\<close>.\<close>

definition count_from :: "u64 \<Rightarrow> u64 \<Rightarrow> u64 list" where
  "count_from a b = map of_nat [unat a..<unat b]"

definition item_at :: "'v elem \<Rightarrow> klist \<Rightarrow> u64 \<Rightarrow> mem \<Rightarrow> 'v" where
  "item_at e l i m = ld e m (items l + i * esize e)"

definition put_item :: "'v elem \<Rightarrow> klist \<Rightarrow> u64 \<Rightarrow> 'v \<Rightarrow> mem \<Rightarrow> mem" where
  "put_item e l i v m = st e m (items l + i * esize e) v"

definition List_new :: "'v elem \<Rightarrow> u64 \<Rightarrow> 'z heap_scheme \<Rightarrow> (klist \<times> 'z heap_scheme) res option" where
  "List_new e cap s = (case malloc (esize e * cap) s of
       None \<Rightarrow> None
     | Some r \<Rightarrow> Some (bind_r r (\<lambda>(p, s). Inr (\<lparr>items = p, llength = 0, capacity = cap\<rparr>, s))))"

definition List_new_default :: "'v elem \<Rightarrow> 'z heap_scheme \<Rightarrow> (klist \<times> 'z heap_scheme) res option" where
  "List_new_default e s = (case malloc (esize e * 4) s of
       None \<Rightarrow> None
     | Some r \<Rightarrow> Some (bind_r r (\<lambda>(p, s). Inr (\<lparr>items = p, llength = 0, capacity = 4\<rparr>, s))))"

text \<open>The growth in \<open>add\<close>: \<open>new_items[i] = items[i]\<close>, then the old buffer is freed.\<close>

definition copy_items :: "'v elem \<Rightarrow> klist \<Rightarrow> klist \<Rightarrow> mem \<Rightarrow> mem" where
  "copy_items e new old m =
     fold (\<lambda>i m. put_item e new i (item_at e old i m) m) (count_upto (llength old)) m"

definition grow :: "'v elem \<Rightarrow> klist \<Rightarrow> 'z heap_scheme \<Rightarrow> (klist \<times> 'z heap_scheme) res option" where
  "grow e l s =
     (let cap = capacity l * 2 in
      case malloc (esize e * cap) s of
        None \<Rightarrow> None
      | Some r \<Rightarrow> Some (bind_r r (\<lambda>(p, s).
          let new = l\<lparr>items := p, capacity := cap\<rparr>;
              s = s\<lparr>ram := copy_items e new l (ram s)\<rparr>;
              s = free (items l) s
          in Inr (new, s))))"

definition list_add :: "'v elem \<Rightarrow> 'v \<Rightarrow> klist \<Rightarrow> 'z heap_scheme \<Rightarrow> (klist \<times> 'z heap_scheme) res option" where
  "list_add e item l s =
     (case (if llength l = capacity l then grow e l s else Some (Inr (l, s))) of
        None \<Rightarrow> None
      | Some r \<Rightarrow> Some (bind_r r (\<lambda>(l, s).
          Inr (l\<lparr>llength := llength l + 1\<rparr>, s\<lparr>ram := put_item e l (llength l) item (ram s)\<rparr>))))"

definition remove_at :: "'v elem \<Rightarrow> u64 \<Rightarrow> klist \<times> mem \<Rightarrow> klist \<times> mem" where
  "remove_at e index = (\<lambda>(l, m).
     if index \<ge> llength l then (l, m)
     else (l\<lparr>llength := llength l - 1\<rparr>,
           fold (\<lambda>i m. put_item e l i (item_at e l (i + 1) m) m) (count_from index (llength l - 1)) m))"

text \<open>The search loop that \<open>remove(T)\<close>, \<open>contains\<close> and \<open>indexOf\<close> share: the first index whose element is \<open>item\<close>.\<close>

primrec find_item :: "'v elem \<Rightarrow> klist \<Rightarrow> mem \<Rightarrow> 'v \<Rightarrow> u64 list \<Rightarrow> u64 option" where
  "find_item e l m item [] = None"
| "find_item e l m item (i # is) = (if item_at e l i m = item then Some i else find_item e l m item is)"

definition remove_item :: "'v elem \<Rightarrow> 'v \<Rightarrow> klist \<times> mem \<Rightarrow> klist \<times> mem" where
  "remove_item e item = (\<lambda>(l, m).
     case find_item e l m item (count_upto (llength l)) of
       None \<Rightarrow> (l, m) | Some i \<Rightarrow> remove_at e i (l, m))"

definition list_clear :: "klist \<Rightarrow> klist" where
  "list_clear l = l\<lparr>llength := 0\<rparr>"

definition list_get :: "'v elem \<Rightarrow> u64 \<Rightarrow> klist \<Rightarrow> mem \<Rightarrow> 'v" where
  "list_get e index l m = (if index \<ge> llength l then null_item e else item_at e l index m)"

definition list_set :: "'v elem \<Rightarrow> u64 \<Rightarrow> 'v \<Rightarrow> klist \<Rightarrow> mem \<Rightarrow> mem" where
  "list_set e index item l m = (if index \<ge> llength l then m else put_item e l index item m)"

definition list_contains :: "'v elem \<Rightarrow> 'v \<Rightarrow> klist \<Rightarrow> mem \<Rightarrow> bool" where
  "list_contains e item l m = (find_item e l m item (count_upto (llength l)) \<noteq> None)"

definition indexOf :: "'v elem \<Rightarrow> 'v \<Rightarrow> klist \<Rightarrow> mem \<Rightarrow> u64" where
  "indexOf e item l m =
     (case find_item e l m item (count_upto (llength l)) of None \<Rightarrow> - 1 | Some i \<Rightarrow> i)"

definition sort_step :: "'v elem \<Rightarrow> klist \<Rightarrow> u64 \<Rightarrow> mem \<Rightarrow> mem" where
  "sort_step e l j m =
     (if gt e (item_at e l j m) (item_at e l (j + 1) m)
      then let temp = item_at e l j m;
               m = put_item e l j (item_at e l (j + 1) m) m
           in put_item e l (j + 1) temp m
      else m)"

definition list_sort :: "'v elem \<Rightarrow> klist \<Rightarrow> mem \<Rightarrow> mem" where
  "list_sort e l =
     fold (\<lambda>i. fold (sort_step e l) (count_upto (llength l - i - 1))) (count_upto (llength l))"

definition reverse_step :: "'v elem \<Rightarrow> klist \<Rightarrow> u64 \<Rightarrow> mem \<Rightarrow> mem" where
  "reverse_step e l i m =
     (let temp = item_at e l i m;
          m = put_item e l i (item_at e l (llength l - i - 1) m) m
      in put_item e l (llength l - i - 1) temp m)"

definition list_reverse :: "'v elem \<Rightarrow> klist \<Rightarrow> mem \<Rightarrow> mem" where
  "list_reverse e l = fold (reverse_step e l) (count_upto (llength l div 2))"

text \<open>The element type of the list that the kernel builds.\<close>

definition load16 :: "mem \<Rightarrow> u64 \<Rightarrow> u16" where
  "load16 m a = ucast (load_le 2 m a)"

definition store16 :: "mem \<Rightarrow> u64 \<Rightarrow> u16 \<Rightarrow> mem" where
  "store16 m a v = store_le 2 m a (ucast v)"

definition u16_elem :: "u16 elem" where
  "u16_elem = \<lparr>ld = load16, st = store16, esize = 2, gt = (\<lambda>a b. b < a), null_item = 0\<rparr>"

section \<open>Index loops on lists\<close>

definition swap_if :: "('v \<Rightarrow> 'v \<Rightarrow> bool) \<Rightarrow> nat \<Rightarrow> 'v list \<Rightarrow> 'v list" where
  "swap_if g j xs = (if g (xs ! j) (xs ! Suc j) then xs[j := xs ! Suc j, Suc j := xs ! j] else xs)"

definition bubble_pass :: "('v \<Rightarrow> 'v \<Rightarrow> bool) \<Rightarrow> nat \<Rightarrow> 'v list \<Rightarrow> 'v list" where
  "bubble_pass g k = fold (swap_if g) [0..<k]"

lemma length_swap_if [simp]: "length (swap_if g j xs) = length xs"
  by (simp add: swap_if_def)

lemma mset_swap_if: "Suc j < length xs \<Longrightarrow> mset (swap_if g j xs) = mset xs"
  by (simp add: swap_if_def mset_swap)

lemma bubble_pass_Suc: "bubble_pass g (Suc k) xs = swap_if g k (bubble_pass g k xs)"
  by (simp add: bubble_pass_def)

lemma length_bubble_pass [simp]: "length (bubble_pass g k xs) = length xs"
  by (induction k) (simp_all add: bubble_pass_Suc, simp add: bubble_pass_def)

text \<open>A pass permutes the first \<open>k + 1\<close> elements and puts their maximum last.\<close>

lemma bubble_pass:
  assumes "\<And>a b. g a b \<longleftrightarrow> key b < (key a :: int)" and "k < length xs"
  shows "mset (bubble_pass g k xs) = mset xs"
    and "\<And>j. k < j \<Longrightarrow> bubble_pass g k xs ! j = xs ! j"
    and "set (take (Suc k) (bubble_pass g k xs)) = set (take (Suc k) xs)"
    and "\<And>j. j \<le> k \<Longrightarrow> key (bubble_pass g k xs ! j) \<le> key (bubble_pass g k xs ! k)"
proof -
  have "mset (bubble_pass g k xs) = mset xs \<and> (\<forall>j>k. bubble_pass g k xs ! j = xs ! j) \<and>
    set (take (Suc k) (bubble_pass g k xs)) = set (take (Suc k) xs) \<and>
    (\<forall>j\<le>k. key (bubble_pass g k xs ! j) \<le> key (bubble_pass g k xs ! k))"
    using assms(2)
  proof (induction k)
    case 0
    then show ?case by (simp add: bubble_pass_def)
  next
    case (Suc k)
    let ?ys = "bubble_pass g k xs"
    have IH: "mset ?ys = mset xs" "\<forall>j>k. ?ys ! j = xs ! j" "set (take (Suc k) ?ys) = set (take (Suc k) xs)"
      "\<forall>j\<le>k. key (?ys ! j) \<le> key (?ys ! k)" using Suc by auto
    have ms: "mset (swap_if g k ?ys) = mset xs" using Suc.prems IH(1) by (simp add: mset_swap_if)
    have far: "\<forall>j>Suc k. swap_if g k ?ys ! j = xs ! j" using IH(2) by (simp add: swap_if_def)
    have "drop (Suc (Suc k)) (swap_if g k ?ys) = drop (Suc (Suc k)) xs"
      using far by (intro nth_equalityI) simp_all
    then have "mset (take (Suc (Suc k)) (swap_if g k ?ys)) = mset (take (Suc (Suc k)) xs)"
      using ms by (metis add_right_cancel append_take_drop_id mset_append)
    then have st: "set (take (Suc (Suc k)) (swap_if g k ?ys)) = set (take (Suc (Suc k)) xs)"
      by (metis set_mset_mset)
    have "key (swap_if g k ?ys ! j) \<le> key (swap_if g k ?ys ! Suc k)" if "j \<le> Suc k" for j
    proof (cases "j \<le> k")
      case True
      then have "key (?ys ! j) \<le> key (?ys ! k)" using IH(4) by simp
      with True Suc.prems show ?thesis by (auto simp: swap_if_def assms(1) nth_list_update)
    qed (use that in \<open>simp add: le_Suc_eq\<close>)
    with ms far st show ?case by (simp add: bubble_pass_Suc)
  qed
  then show "mset (bubble_pass g k xs) = mset xs"
    and "\<And>j. k < j \<Longrightarrow> bubble_pass g k xs ! j = xs ! j"
    and "set (take (Suc k) (bubble_pass g k xs)) = set (take (Suc k) xs)"
    and "\<And>j. j \<le> k \<Longrightarrow> key (bubble_pass g k xs ! j) \<le> key (bubble_pass g k xs ! k)" by auto
qed

definition bubble :: "('v \<Rightarrow> 'v \<Rightarrow> bool) \<Rightarrow> nat \<Rightarrow> nat \<Rightarrow> 'v list \<Rightarrow> 'v list" where
  "bubble g n i = fold (\<lambda>i. bubble_pass g (n - i - 1)) [0..<i]"

lemma bubble_Suc: "bubble g n (Suc i) xs = bubble_pass g (n - i - 1) (bubble g n i xs)"
  by (simp add: bubble_def)

lemma length_bubble [simp]: "length (bubble g n i xs) = length xs"
  by (induction i) (simp_all add: bubble_Suc, simp add: bubble_def)

text \<open>After \<open>i\<close> passes the last \<open>i\<close> elements are in place.\<close>

lemma bubble_invariant:
  assumes g: "\<And>a b. g a b \<longleftrightarrow> key b < (key a :: int)" and n: "n = length xs" and "i \<le> n"
  shows "mset (bubble g n i xs) = mset xs \<and>
    (\<forall>b<n. n \<le> b + i \<longrightarrow> (\<forall>a<b. key (bubble g n i xs ! a) \<le> key (bubble g n i xs ! b)))"
  using assms(3)
proof (induction i)
  case 0
  then show ?case by (simp add: bubble_def)
next
  case (Suc i)
  define ys where "ys = bubble g n i xs"
  define k where "k = n - i - 1"
  have k: "k < length ys" using Suc.prems n by (simp add: ys_def k_def)
  note p = bubble_pass [of g key, OF g k]
  have IH: "mset ys = mset xs" "\<And>a b. b < n \<Longrightarrow> n \<le> b + i \<Longrightarrow> a < b \<Longrightarrow> key (ys ! a) \<le> key (ys ! b)"
    using Suc by (simp_all add: ys_def)
  have "key (bubble_pass g k ys ! a) \<le> key (bubble_pass g k ys ! b)"
    if b: "b < n" "n \<le> b + Suc i" "a < b" for a b
  proof (cases "b = k")
    case True
    then show ?thesis using p(4) b(3) by simp
  next
    case False
    then have kb: "k < b" "n \<le> b + i" using b by (auto simp: k_def)
    show ?thesis
    proof (cases "a \<le> k")
      case True
      then have "bubble_pass g k ys ! a \<in> set (take (Suc k) (bubble_pass g k ys))"
        using k by (auto simp: in_set_conv_nth intro!: exI [of _ a])
      then obtain c where "c \<le> k" "bubble_pass g k ys ! a = ys ! c"
        unfolding p(3) by (auto simp: in_set_conv_nth less_Suc_eq_le)
      then show ?thesis using IH(2) [OF b(1) kb(2), of c] kb p(2) by simp
    next
      case False
      then show ?thesis using IH(2) [OF b(1) kb(2) b(3)] kb p(2) by simp
    qed
  qed
  then show ?case using p(1) IH(1) by (simp add: bubble_Suc ys_def k_def)
qed

lemma bubble_sorts:
  assumes "\<And>a b. g a b \<longleftrightarrow> key b < (key a :: int)"
  shows "sorted (map key (bubble g (length xs) (length xs) xs))"
    and "mset (bubble g (length xs) (length xs) xs) = mset xs"
  using bubble_invariant [of g key "length xs" xs "length xs", OF assms]
  by (auto simp: sorted_iff_nth_mono_less)

definition flip :: "nat \<Rightarrow> nat \<Rightarrow> 'v list \<Rightarrow> 'v list" where
  "flip n i xs = xs[i := xs ! (n - i - 1), n - i - 1 := xs ! i]"

lemma length_flips [simp]: "length (fold (flip n) is xs) = length xs"
  by (induction "is" arbitrary: xs) (simp_all add: flip_def)

lemma flips_nth:
  assumes "k \<le> length xs div 2" and "j < length xs"
  shows "fold (flip (length xs)) [0..<k] xs ! j =
    (if j < k \<or> length xs - k \<le> j then xs ! (length xs - j - 1) else xs ! j)"
  using assms
proof (induction k arbitrary: j)
  case (Suc k)
  let ?n = "length xs" and ?ys = "fold (flip (length xs)) [0..<k] xs"
  have "2 * Suc k \<le> ?n" using Suc.prems by simp
  then have k: "k < ?n" "?n - k - 1 < ?n" "k < ?n - k - 1" by auto
  have IH: "?ys ! i = (if i < k \<or> ?n - k \<le> i then xs ! (?n - i - 1) else xs ! i)" if "i < ?n" for i
    using Suc that by simp
  have "fold (flip ?n) [0..<Suc k] xs ! j = flip ?n k ?ys ! j" by simp
  also have "\<dots> = (if j < Suc k \<or> ?n - Suc k \<le> j then xs ! (?n - j - 1) else xs ! j)"
    using Suc.prems(2) k IH [of k] IH [of "?n - k - 1"] IH [of j]
    by (auto simp: flip_def nth_list_update less_Suc_eq)
  finally show ?case .
qed auto

lemma flips_rev: "fold (flip (length xs)) [0..<length xs div 2] xs = rev xs"
proof (rule nth_equalityI)
  fix j assume "j < length (fold (flip (length xs)) [0..<length xs div 2] xs)"
  then have j: "j < length xs" by simp
  show "fold (flip (length xs)) [0..<length xs div 2] xs ! j = rev xs ! j"
  proof (cases "j < length xs div 2 \<or> length xs - length xs div 2 \<le> j")
    case False
    then have "length xs - j - 1 = j" using j by linarith
    with False j show ?thesis by (simp add: flips_nth rev_nth)
  qed (use j in \<open>simp add: flips_nth rev_nth\<close>)
qed simp

lemma shift_down:
  assumes "a \<le> b" and "b < length xs"
  shows "fold (\<lambda>i xs. xs[i := xs ! Suc i]) [a..<b] xs = take a xs @ take (b - a) (drop (Suc a) xs) @ drop b xs"
  using assms
proof (induction b)
  case (Suc b)
  show ?case
  proof (cases "a = Suc b")
    case True
    then show ?thesis by simp
  next
    case False
    then have ab: "a \<le> b" using Suc.prems by simp
    let ?ys = "take a xs @ take (b - a) (drop (Suc a) xs) @ drop b xs"
    have "fold (\<lambda>i xs. xs[i := xs ! Suc i]) [a..<Suc b] xs = ?ys[b := ?ys ! Suc b]"
      using Suc ab by simp
    also have "\<dots> = take a xs @ take (Suc b - a) (drop (Suc a) xs) @ drop (Suc b) xs"
      using ab Suc.prems
      by (intro nth_equalityI)
        (auto simp: nth_append nth_list_update min_def less_Suc_eq, rule arg_cong [where f = "(!) xs"], arith)
    finally show ?thesis .
  qed
qed simp

section \<open>The buffer in memory\<close>

text \<open>The array the list object owns: it does not wrap around the address space.\<close>

definition buffer_ok :: "'v elem \<Rightarrow> klist \<Rightarrow> bool" where
  "buffer_ok e l \<longleftrightarrow> unat (llength l) \<le> unat (capacity l) \<and>
     unat (items l) + unat (esize e) * unat (capacity l) \<le> 2 ^ 64"

definition elems :: "'v elem \<Rightarrow> klist \<Rightarrow> mem \<Rightarrow> 'v list" where
  "elems e l m = map (\<lambda>i. item_at e l (of_nat i) m) [0..<unat (llength l)]"

definition in_buffer :: "'v elem \<Rightarrow> klist \<Rightarrow> u64 \<Rightarrow> bool" where
  "in_buffer e l x \<longleftrightarrow> in_region (items l) (unat (esize e) * unat (capacity l)) x"

lemma length_elems [simp]: "length (elems e l m) = unat (llength l)"
  by (simp add: elems_def)

lemma elems_nth [simp]: "i < unat (llength l) \<Longrightarrow> elems e l m ! i = item_at e l (of_nat i) m"
  by (simp add: elems_def)

lemma count_from_0: "count_from 0 n = count_upto n"
  by (simp add: count_from_def count_upto_def)

text \<open>What makes a type usable as \<open>T\<close>: its loads and stores are those of a memory cell of its size.\<close>

locale element = memory_cell "ld e" "st e" "unat (esize e)" for e :: "'v elem" +
  assumes size_pos: "0 < unat (esize e)"
begin

lemma item_addr:
  assumes "buffer_ok e l" and "i < unat (capacity l)"
  shows "unat (items l + of_nat i * esize e) = unat (items l) + i * unat (esize e)"
    and "unat (items l) + i * unat (esize e) + unat (esize e) \<le> 2 ^ 64"
    and "i * unat (esize e) + unat (esize e) \<le> unat (esize e) * unat (capacity l)"
proof -
  have "Suc i * unat (esize e) \<le> unat (esize e) * unat (capacity l)"
    using mult_le_mono1 [of "Suc i" "unat (capacity l)" "unat (esize e)"] assms(2) by (simp add: mult.commute)
  then show 1: "i * unat (esize e) + unat (esize e) \<le> unat (esize e) * unat (capacity l)" by simp
  then show le: "unat (items l) + i * unat (esize e) + unat (esize e) \<le> 2 ^ 64"
    using assms(1) by (simp add: buffer_ok_def)
  have i: "unat (of_nat i :: u64) = i" using assms(2) unat_lt_64 [of "capacity l"] by (simp add: unat_of_nat_small)
  then have "unat (of_nat i * esize e) = i * unat (esize e)"
    using le size_pos by (subst unat_mult_no_wrap) simp_all
  then show "unat (items l + of_nat i * esize e) = unat (items l) + i * unat (esize e)"
    using le size_pos by (subst unat_add_no_wrap) simp_all
qed

lemma items_apart:
  assumes "buffer_ok e l" and "i < unat (capacity l)" and "j < unat (capacity l)" and "i \<noteq> j"
  shows "region_disjoint (items l + of_nat i * esize e) (unat (esize e)) (items l + of_nat j * esize e) (unat (esize e))"
proof (rule region_disjoint_no_wrap)
  have "Suc i * unat (esize e) \<le> j * unat (esize e) \<or> Suc j * unat (esize e) \<le> i * unat (esize e)"
    using assms(4) by (cases "i < j") (auto intro!: mult_le_mono1 simp del: mult_Suc)
  then show "unat (items l + of_nat i * esize e) + unat (esize e) \<le> unat (items l + of_nat j * esize e) \<or>
      unat (items l + of_nat j * esize e) + unat (esize e) \<le> unat (items l + of_nat i * esize e)"
    using item_addr(1) [OF assms(1,2)] item_addr(1) [OF assms(1,3)] by auto
qed (use item_addr(1,2) [OF assms(1,2)] item_addr(1,2) [OF assms(1,3)] in simp_all)

lemma item_in_buffer:
  assumes "buffer_ok e l" and "i < unat (capacity l)" and "in_region (items l + of_nat i * esize e) (unat (esize e)) x"
  shows "in_buffer e l x"
proof -
  have "unat (items l) + i * unat (esize e) \<le> unat x \<and> unat x < unat (items l) + i * unat (esize e) + unat (esize e)"
    using assms(3) item_addr(1,2) [OF assms(1,2)] by (subst (asm) in_region_no_wrap) simp_all
  then show ?thesis
    using assms(1) item_addr(3) [OF assms(1,2)] unfolding in_buffer_def
    by (subst in_region_no_wrap) (auto simp: buffer_ok_def)
qed

lemma put_item_frame:
  "buffer_ok e l \<Longrightarrow> i < unat (capacity l) \<Longrightarrow> \<not> in_buffer e l x \<Longrightarrow> put_item e l (of_nat i) v m x = m x"
  unfolding put_item_def using item_in_buffer by (intro store_frame) blast

lemma item_at_put:
  assumes "buffer_ok e l" and "i < unat (capacity l)" and "j < unat (capacity l)"
  shows "item_at e l (of_nat j) (put_item e l (of_nat i) v m) = (if i = j then v else item_at e l (of_nat j) m)"
  using load_store load_store_other [OF items_apart [OF assms]] by (simp add: item_at_def put_item_def)

lemma elems_put:
  assumes "buffer_ok e l" and "i < unat (llength l)"
  shows "elems e l (put_item e l (of_nat i) v m) = (elems e l m)[i := v]"
  using assms item_at_put [OF assms(1), of i]
  by (intro nth_equalityI) (auto simp: nth_list_update buffer_ok_def)

lemma elems_cong:
  assumes "buffer_ok e l" and "\<And>x. in_buffer e l x \<Longrightarrow> m' x = m x"
  shows "elems e l m' = elems e l m"
proof (rule nth_equalityI)
  fix i assume "i < length (elems e l m')"
  then have i: "i < unat (llength l)" by simp
  then have "i < unat (capacity l)" using assms(1) by (simp add: buffer_ok_def)
  then have "item_at e l (of_nat i) m' = item_at e l (of_nat i) m"
    unfolding item_at_def using item_in_buffer [OF assms(1)] assms(2) by (intro load_cong) blast
  with i show "elems e l m' ! i = elems e l m ! i" by simp
qed simp

text \<open>Every loop of the source runs a body over a range of indices. If each body acts on the elements as \<open>g\<close>
  and only changes the buffer, so does the loop.\<close>

lemma loop_elems:
  assumes "\<And>i m. i \<in> set is \<Longrightarrow> elems e l (f (of_nat i) m) = g i (elems e l m)"
  shows "elems e l (fold f (map of_nat is) m) = fold g is (elems e l m)"
  using assms by (induction "is" arbitrary: m) simp_all

lemma loop_frame:
  assumes "\<And>i m. i \<in> set is \<Longrightarrow> f i m x = m x"
  shows "fold f is m x = (m x :: u8)"
  using assms by (induction "is" arbitrary: m) simp_all

end

end
