(* ===== verification/Klist_Props.thy ===== *)
theory Klist_Props
  imports Klist Heap_Spec
begin

text \<open>
  The list operations as functions on the list of elements, proved once for every element type,
  and their instance for \<open>List<u16>\<close>.
\<close>

section \<open>Refinement of the loops\<close>

context element
begin

lemma elems_put_Suc:
  "buffer_ok e l \<Longrightarrow> Suc i < unat (llength l) \<Longrightarrow> elems e l (put_item e l (of_nat i + 1) v m) = (elems e l m)[Suc i := v]"
  using elems_put [of l "Suc i"] by (simp add: add.commute)

lemma item_at_Suc: "Suc i < unat (llength l) \<Longrightarrow> item_at e l (of_nat i + 1) m = elems e l m ! Suc i"
  by (simp add: add.commute)

lemma sort_step_elems:
  assumes "buffer_ok e l" and j: "Suc j < unat (llength l)"
  shows "elems e l (sort_step e l (of_nat j) m) = swap_if (gt e) j (elems e l m)"
proof -
  have "item_at e l (of_nat j) m = elems e l m ! j" using j by simp
  then show ?thesis
    using j unfolding sort_step_def Let_def item_at_Suc [OF j]
    by (simp add: elems_put [OF assms(1)] elems_put_Suc [OF assms(1)] swap_if_def)
qed

lemma sort_elems:
  assumes "buffer_ok e l"
  shows "elems e l (list_sort e l m) = bubble (gt e) (unat (llength l)) (unat (llength l)) (elems e l m)"
proof -
  let ?n = "unat (llength l)"
  have "elems e l (fold (sort_step e l) (count_upto (llength l - of_nat i - 1)) m) =
      bubble_pass (gt e) (?n - i - 1) (elems e l m)" if "i \<in> set [0..<?n]" for i m
  proof -
    have i: "unat (of_nat i :: u64) = i" "i < ?n"
      using that unat_lt_64 [of "llength l"] by (simp_all add: unat_of_nat_small)
    then have "unat (llength l - of_nat i) = ?n - i" by (subst unat_sub_le) simp_all
    then have c: "unat (llength l - of_nat i - 1) = ?n - i - 1" using i(2) by (subst unat_sub_le) simp_all
    show ?thesis unfolding bubble_pass_def count_upto_def c
      by (intro loop_elems sort_step_elems [OF assms]) simp_all
  qed
  then show ?thesis unfolding list_sort_def bubble_def count_upto_def [of "llength l"]
    by (intro loop_elems)
qed

lemma reverse_elems:
  assumes "buffer_ok e l"
  shows "elems e l (list_reverse e l m) = rev (elems e l m)"
proof -
  let ?n = "unat (llength l)"
  have "elems e l (reverse_step e l (of_nat i) m) = flip ?n i (elems e l m)" if "i \<in> set [0..<?n div 2]" for i m
  proof -
    have i: "unat (of_nat i :: u64) = i" "i < ?n" "?n - i - 1 < ?n"
      using that unat_lt_64 [of "llength l"] by (auto simp: unat_of_nat_small)
    then have "unat (llength l - of_nat i) = ?n - i" by (subst unat_sub_le) simp_all
    then have "unat (llength l - of_nat i - 1) = ?n - i - 1" using i(2) by (subst unat_sub_le) simp_all
    then obtain k where k: "?n - i - 1 = k" "llength l - of_nat i - 1 = of_nat k" "k < ?n"
      using i(3) by (metis of_nat_unat ucast_id)
    show ?thesis
      using i(2) k(3) unfolding reverse_step_def flip_def Let_def k(1,2) by (simp add: elems_put [OF assms])
  qed
  moreover have "unat (llength l div 2) = ?n div 2" by (simp add: unat_div)
  ultimately show ?thesis
    using flips_rev [of "elems e l m"] loop_elems [of "[0..<?n div 2]" l "reverse_step e l" "flip ?n" m]
    by (simp add: list_reverse_def count_upto_def)
qed

lemma remove_at_elems:
  assumes "buffer_ok e l" and "unat index < unat (llength l)"
  shows "\<exists>m'. remove_at e index (l, m) = (l\<lparr>llength := llength l - 1\<rparr>, m') \<and>
    elems e (l\<lparr>llength := llength l - 1\<rparr>) m' = take (unat index) (elems e l m) @ drop (Suc (unat index)) (elems e l m)"
proof -
  let ?n = "unat (llength l)" and ?l = "l\<lparr>llength := llength l - 1\<rparr>"
  define m' where "m' = fold (\<lambda>i m. put_item e l i (item_at e l (i + 1) m) m) (count_from index (llength l - 1)) m"
  have n: "unat (llength l - 1) = ?n - 1" using assms(2) by (subst unat_sub_le) simp_all
  have "elems e l m' = fold (\<lambda>i xs. xs[i := xs ! Suc i]) [unat index..<?n - 1] (elems e l m)"
    unfolding m'_def count_from_def n
    by (rule loop_elems, subst elems_put [OF assms(1)]) (use item_at_Suc in auto)
  also have "\<dots> = take (unat index) (elems e l m) @ take (?n - 1 - unat index) (drop (Suc (unat index)) (elems e l m)) @
      drop (?n - 1) (elems e l m)" using assms(2) by (intro shift_down) simp_all
  finally have e: "elems e l m' = take (unat index) (elems e l m) @ drop (Suc (unat index)) (elems e l m) @
      drop (?n - 1) (elems e l m)" by simp
  have "elems e ?l m' = take (?n - 1) (elems e l m')"
    by (rule nth_equalityI) (auto simp: n item_at_def)
  with e assms(2) have "elems e ?l m' = take (unat index) (elems e l m) @ drop (Suc (unat index)) (elems e l m)"
    by simp
  moreover have "remove_at e index (l, m) = (?l, m')"
    using assms(2) by (simp add: remove_at_def m'_def word_le_nat_alt)
  ultimately show ?thesis by blast
qed

lemma find_item_Some:
  "find_item e l m item (map of_nat is) = Some i \<Longrightarrow> \<exists>j xs ys. is = xs @ j # ys \<and> i = of_nat j \<and>
     item_at e l (of_nat j) m = item \<and> (\<forall>k\<in>set xs. item_at e l (of_nat k) m \<noteq> item)"
proof (induction "is")
  case (Cons a "is")
  show ?case
  proof (cases "item_at e l (of_nat a) m = item")
    case True
    then show ?thesis using Cons.prems by (intro exI [of _ a] exI [of _ "[]"] exI [of _ "is"]) simp
  next
    case False
    with Cons obtain j xs ys where "is = xs @ j # ys" "i = of_nat j"
      "item_at e l (of_nat j) m = item" "\<forall>k\<in>set xs. item_at e l (of_nat k) m \<noteq> item" by auto
    with False show ?thesis by (intro exI [of _ j] exI [of _ "a # xs"] exI [of _ ys]) simp
  qed
qed simp

lemma find_item_None:
  "find_item e l m item (map of_nat is) = None \<longleftrightarrow> (\<forall>k\<in>set is. item_at e l (of_nat k) m \<noteq> item)"
  by (induction "is") auto

text \<open>The search loop finds the first occurrence, if there is one.\<close>

lemma find_item_first:
  "case find_item e l m item (count_upto (llength l)) of
     None \<Rightarrow> item \<notin> set (elems e l m)
   | Some i \<Rightarrow> unat i < unat (llength l) \<and> elems e l m ! unat i = item \<and> item \<notin> set (take (unat i) (elems e l m))"
proof (cases "find_item e l m item (count_upto (llength l))")
  case None
  then have "item \<notin> set (elems e l m)" by (auto simp: count_upto_def find_item_None elems_def)
  with None show ?thesis by simp
next
  case (Some i)
  then obtain j xs ys where js: "[0..<unat (llength l)] = xs @ j # ys" "i = of_nat j"
    "item_at e l (of_nat j) m = item" "\<forall>k\<in>set xs. item_at e l (of_nat k) m \<noteq> item"
    using find_item_Some unfolding count_upto_def by blast
  have "[0..<unat (llength l)] ! length xs = j" "length xs < length [0..<unat (llength l)]" unfolding js(1) by simp_all
  then have j: "j = length xs" "j < unat (llength l)" by simp_all
  have "xs = take j [0..<unat (llength l)]" by (simp add: js(1) j(1))
  then have xs: "xs = [0..<j]" using j(2) by simp
  have "unat i = j" using j(2) unat_lt_64 [of "llength l"] by (simp add: js(2) unat_of_nat_small)
  with js(3,4) j(2) Some show ?thesis by (auto simp: xs elems_def take_map)
qed

lemma remove_item_elems:
  assumes "buffer_ok e l"
  shows "\<exists>l' m'. remove_item e item (l, m) = (l', m') \<and> elems e l' m' = remove1 item (elems e l m)"
proof (cases "find_item e l m item (count_upto (llength l))")
  case None
  then show ?thesis using find_item_first [where l = l and m = m and item = item] by (auto simp: remove_item_def remove1_idem)
next
  case (Some i)
  then have i: "unat i < unat (llength l)" "elems e l m ! unat i = item" "item \<notin> set (take (unat i) (elems e l m))"
    using find_item_first [where l = l and m = m and item = item] by auto
  have "remove1 item (take (unat i) (elems e l m) @ elems e l m ! unat i # drop (Suc (unat i)) (elems e l m)) =
     take (unat i) (elems e l m) @ drop (Suc (unat i)) (elems e l m)"
    using i(2,3) by (simp add: remove1_append)
  then have "remove1 item (elems e l m) = take (unat i) (elems e l m) @ drop (Suc (unat i)) (elems e l m)"
    using i(1) by (subst (asm) id_take_nth_drop [symmetric]) simp_all
  then show ?thesis using remove_at_elems [OF assms i(1), of m] Some by (auto simp: remove_item_def)
qed

text \<open>The loops write inside the buffer only.\<close>

lemma sort_frame:
  assumes "buffer_ok e l" and "\<not> in_buffer e l x"
  shows "list_sort e l m x = m x"
proof -
  let ?n = "unat (llength l)"
  have cap: "?n \<le> unat (capacity l)" using assms(1) by (simp add: buffer_ok_def)
  have put: "put_item e l i v m x = m x" if "unat i < ?n" for i v m
    using put_item_frame [OF assms(1) _ assms(2), of "unat i" v m] that cap by simp
  have "sort_step e l j m x = m x" if "i < llength l" "j < llength l - i - 1" for i j m
  proof -
    have "unat (llength l - i) = ?n - unat i" using that(1) by (subst unat_sub_le) (simp_all add: word_less_nat_alt)
    then have "unat (llength l - i - 1) = ?n - unat i - 1"
      using that(1) by (subst unat_sub_le) (simp_all add: word_less_nat_alt)
    then have "unat j < ?n" "unat (j + 1) < ?n"
      using that(2) unat_plus_le [of j 1] by (auto simp: word_less_nat_alt)
    then show ?thesis by (simp add: sort_step_def Let_def put)
  qed
  then show ?thesis unfolding list_sort_def by (intro loop_frame) simp
qed

end

section \<open>Growing over the heap\<close>

text \<open>The buffer of \<open>l\<close> lies in the block \<open>(items l, blk)\<close> of a heap that holds the blocks \<open>B\<close>.\<close>

definition list_sys :: "nat \<Rightarrow> 'v elem \<Rightarrow> klist \<Rightarrow> u64 \<Rightarrow> (u64 \<times> u64) set \<Rightarrow> 'z heap_scheme \<Rightarrow> bool" where
  "list_sys lim e l blk B s \<longleftrightarrow> heap_holds lim s B \<and> (items l, blk) \<in> B \<and>
     unat (esize e) * unat (capacity l) \<le> unat blk \<and> unat (llength l) \<le> unat (capacity l) \<and> 0 < unat (capacity l)"

definition others_kept :: "u64 \<Rightarrow> (u64 \<times> u64) set \<Rightarrow> mem \<Rightarrow> mem \<Rightarrow> bool" where
  "others_kept p B m m' \<longleftrightarrow> (\<forall>(q, k)\<in>B. q \<noteq> p \<longrightarrow> (\<forall>x. in_region q (unat k) x \<longrightarrow> m' x = m x))"

lemma block_no_wrap:
  assumes "heap_holds lim s B" and "(p, l) \<in> B"
  shows "unat p + unat l \<le> 2 ^ 64"
proof -
  obtain ss where ok: "heap_ok s ss" and B: "blocks ss = B"
    using assms(1) by (auto simp: heap_holds_def heap_sys_def heap_inv_def)
  obtain u where u: "u \<in> set ss" "p = sg_addr u + 29" "l = sg_len u" using blocksE [OF ok, of p l] assms(2) B by metis
  have "unat p \<le> unat (sg_addr u) + 29" using unat_plus_le [of "sg_addr u" 29] by (simp add: u(2))
  then show ?thesis using heap_ok_bounds [OF ok u(1)] u(3) by simp
qed

lemma list_sys_buffer: "list_sys lim e l blk B s \<Longrightarrow> buffer_ok e l"
  using block_no_wrap [of lim s B "items l" blk] by (auto simp: list_sys_def buffer_ok_def)

lemma in_buffer_block: "list_sys lim e l blk B s \<Longrightarrow> in_buffer e l x \<Longrightarrow> in_region (items l) (unat blk) x"
  by (auto simp: list_sys_def in_buffer_def intro: in_region_mono)

lemma list_sys_apart:
  assumes "list_sys lim e l blk B s" and "(q, k) \<in> B" and "q \<noteq> items l" and "in_region q (unat k) x"
  shows "\<not> in_buffer e l x"
proof -
  have "region_disjoint (items l) (unat blk) q (unat k)"
    using assms(1,2,3) hp.blocks_apart [of lim s B "items l" blk q k] by (auto simp: list_sys_def)
  then show ?thesis using in_buffer_block [OF assms(1)] assms(4) by (auto simp: region_disjoint_def)
qed

context element
begin

lemma list_push:
  fixes s :: "'z heap_scheme" and item :: 'v
  assumes sys: "list_sys lim e l blk B s" and room: "unat (llength l) < unat (capacity l)"
  defines "m' \<equiv> put_item e l (llength l) item (ram s)" and "l' \<equiv> l\<lparr>llength := llength l + 1\<rparr>"
  shows "list_sys lim e l' blk B (s\<lparr>ram := m'\<rparr>)"
    and "elems e l' m' = elems e l (ram s) @ [item]" and "others_kept (items l) B (ram s) m'"
proof -
  have b: "buffer_ok e l" by (rule list_sys_buffer [OF sys])
  have n: "unat (llength l + 1) = Suc (unat (llength l))"
    using room unat_inc [of "llength l" "capacity l"] by (simp add: word_less_nat_alt)
  have frame: "m' x = ram s x" if "\<not> in_buffer e l x" for x
    using put_item_frame [OF b room that, of item "ram s"] by (simp add: m'_def)
  then have "heap_holds lim (s\<lparr>ram := m'\<rparr>) B"
    using sys in_buffer_block [OF sys] by (intro payload_update [of lim s B "items l" blk]) (auto simp: list_sys_def)
  then show "list_sys lim e l' blk B (s\<lparr>ram := m'\<rparr>)" using sys room n by (simp add: list_sys_def l'_def)
  have at: "item_at e l' (of_nat j) m' = (if j = unat (llength l) then item else item_at e l (of_nat j) (ram s))"
    if "j \<le> unat (llength l)" for j
    using item_at_put [OF b room, of j item "ram s"] that room
    by (simp add: m'_def l'_def item_at_def [of e "l\<lparr>llength := llength l + 1\<rparr>"] item_at_def [of e l, symmetric])
  show "elems e l' m' = elems e l (ram s) @ [item]"
    using at [of "unat (llength l)"] at n by (simp add: elems_def l'_def)
  show "others_kept (items l) B (ram s) m'"
    unfolding others_kept_def using frame list_sys_apart [OF sys] by blast
qed

lemma copy_items:
  assumes new: "buffer_ok e l" and old: "buffer_ok e o'" and n: "llength l = llength o'"
    and apart: "\<And>x. in_buffer e o' x \<Longrightarrow> \<not> in_buffer e l x"
  shows "elems e l (copy_items e l o' m) = elems e o' m"
    and "\<And>x. \<not> in_buffer e l x \<Longrightarrow> copy_items e l o' m x = m x"
proof -
  define f where "f i m = put_item e l i (item_at e o' i m) m" for i m
  have "(\<forall>j<k. item_at e l (of_nat j) (fold f (map of_nat [0..<k]) m) = item_at e o' (of_nat j) m) \<and>
     (\<forall>x. \<not> in_buffer e l x \<longrightarrow> fold f (map of_nat [0..<k]) m x = m x)" if "k \<le> unat (llength o')" for k
    using that
  proof (induction k)
    case (Suc k)
    let ?m = "fold f (map of_nat [0..<k]) m"
    have IH: "\<forall>j<k. item_at e l (of_nat j) ?m = item_at e o' (of_nat j) m" "\<forall>x. \<not> in_buffer e l x \<longrightarrow> ?m x = m x"
      using Suc by auto
    have k: "k < unat (capacity o')" "k < unat (capacity l)" using Suc.prems old new n by (auto simp: buffer_ok_def)
    have "item_at e o' (of_nat k) ?m = item_at e o' (of_nat k) m"
      unfolding item_at_def using item_in_buffer [OF old k(1)] apart IH(2) by (intro load_cong) blast
    then have "f (of_nat k) ?m = put_item e l (of_nat k) (item_at e o' (of_nat k) m) ?m" by (simp add: f_def)
    then show ?case
      using IH item_at_put [OF new k(2)] put_item_frame [OF new k(2)] k(2) by (auto simp: less_Suc_eq)
  qed simp
  note k = this [of "unat (llength o')"]
  have c: "copy_items e l o' m = fold f (map of_nat [0..<unat (llength o')]) m"
    by (simp add: copy_items_def f_def [abs_def] count_upto_def)
  show "elems e l (copy_items e l o' m) = elems e o' m" using k by (intro nth_equalityI) (simp_all add: n c)
  show "\<And>x. \<not> in_buffer e l x \<Longrightarrow> copy_items e l o' m x = m x" using k by (simp add: c)
qed

lemma grow_total:
  fixes s :: "'z heap_scheme"
  assumes sys: "list_sys lim e l blk B s" and room: "heap_room lim (esize e * (capacity l * 2)) s"
    and small: "unat (esize e) * (unat (capacity l) * 2) < 2 ^ 64"
  shows "grow e l s = Some (Inl (Panic ''Out of memory'')) \<or>
    (\<exists>l' t blk'. grow e l s = Some (Inr (l', t)) \<and>
       list_sys lim e l' blk' (insert (items l', blk') (B - {(items l, blk)})) t \<and>
       llength l' = llength l \<and> unat (llength l') < unat (capacity l') \<and> items l' \<noteq> items l \<and>
       items l' \<notin> fst ` B \<and>
       elems e l' (ram t) = elems e l (ram s) \<and> others_kept (items l) B (ram s) (ram t))"
proof -
  let ?sz = "esize e * (capacity l * 2)"
  have hB: "heap_holds lim s B" and blk: "(items l, blk) \<in> B" and c0: "0 < unat (capacity l)"
    "unat (llength l) \<le> unat (capacity l)" using sys by (simp_all add: list_sys_def)
  obtain ss where ss: "heap_sys lim s ss" "blocks ss = B" using hB by (auto simp: heap_holds_def)
  have "unat (capacity l) * 2 \<le> unat (esize e) * (unat (capacity l) * 2)" using size_pos by simp
  then have "unat (capacity l) * 2 < 2 ^ 64" using small by (rule le_less_trans)
  then have c2: "unat (capacity l * 2) = unat (capacity l) * 2"
    by (subst unat_mult_no_wrap) simp_all
  then have sz: "unat ?sz = unat (esize e) * (unat (capacity l) * 2)"
    using small by (subst unat_mult_no_wrap) simp_all
  from room malloc_total [OF ss(1), of ?sz] consider "malloc ?sz s = Some (Inl (Panic ''Out of memory''))"
    | p u where "malloc ?sz s = Some (Inr (p, u))" by (auto simp: heap_room_def)
  then show ?thesis
  proof cases
    case 1
    then show ?thesis by (simp add: grow_def Let_def)
  next
    case (2 p u)
    then have al: "heap_alloc lim ?sz s = Some (p, u)" using room by (simp add: heap_alloc_def)
    obtain blk' where b': "unat ?sz \<le> unat blk'" "p \<notin> fst ` B" "heap_holds lim u (insert (p, blk') B)"
      using hp.alloc_adds [OF hB al] by blast
    note keep = hp.alloc_keeps [OF hB al]
    define l' where "l' = l\<lparr>items := p, capacity := capacity l * 2\<rparr>"
    define v where "v = u\<lparr>ram := copy_items e l' l (ram u)\<rparr>"
    have l': "items l' = p" "llength l' = llength l" "capacity l' = capacity l * 2" by (simp_all add: l'_def)
    have pl: "p \<noteq> items l" using b'(2) blk by force
    have sysu: "list_sys lim e l' blk' (insert (p, blk') B) u"
      using b' c0 sz c2 by (simp add: list_sys_def l')
    have sysu0: "list_sys lim e l blk (insert (p, blk') B) u" using sys b'(3) by (simp add: list_sys_def)
    have ap: "\<not> in_buffer e l' x" if "in_buffer e l x" for x
      using list_sys_apart [OF sysu _ _ in_buffer_block [OF sys that]] blk pl by (simp add: l')
    note cp = copy_items [where m = "ram u", OF list_sys_buffer [OF sysu] list_sys_buffer [OF sys] l'(2) ap]
    have hv: "heap_holds lim v (insert (p, blk') B)" unfolding v_def
      using in_buffer_block [OF sysu] cp(2) by (intro payload_update [OF b'(3), of p blk']) (auto simp: l')
    have blkv: "(items l, blk) \<in> insert (p, blk') B" using blk by simp
    define t where "t = free (items l) v"
    have ht: "heap_holds lim t (insert (p, blk') (B - {(items l, blk)}))"
      using hp.release_removes [OF hv blkv] pl by (simp add: t_def insert_Diff_if)
    note keep' = hp.release_keeps [OF hv blkv]
    have "list_sys lim e l' blk' (insert (items l', blk') (B - {(items l, blk)})) t"
      using sysu ht by (simp add: list_sys_def l')
    moreover have "elems e l' (ram t) = elems e l (ram s)"
    proof -
      have "elems e l' (ram t) = elems e l' (ram v)"
        using keep' [of p blk'] in_buffer_block [OF sysu]
        by (intro elems_cong [OF list_sys_buffer [OF sysu]]) (simp add: t_def l')
      also have "\<dots> = elems e l (ram u)" using cp(1) by (simp add: v_def)
      also have "\<dots> = elems e l (ram s)"
        using keep [OF blk] in_buffer_block [OF sys] by (intro elems_cong [OF list_sys_buffer [OF sys]]) blast
      finally show ?thesis .
    qed
    moreover have "others_kept (items l) B (ram s) (ram t)"
      unfolding others_kept_def
    proof (clarify)
      fix q k x assume q: "(q, k) \<in> B" "q \<noteq> items l" "in_region q (unat k) x"
      then have "p \<noteq> q" using b'(2) by force
      then have "\<not> in_buffer e l' x" using list_sys_apart [OF sysu _ _ q(3)] q(1) by (simp add: l')
      then show "ram t x = ram s x"
        using keep' [of q k x] keep [OF q(1,3)] cp(2) [of x] q by (simp add: t_def v_def)
    qed
    moreover have "grow e l s = Some (Inr (l', t))"
      using 2 by (simp add: grow_def Let_def t_def v_def l'_def)
    ultimately show ?thesis using c0 c2 pl b'(2) by (auto simp: l')
  qed
qed

lemma list_add_total:
  fixes s :: "'z heap_scheme"
  assumes sys: "list_sys lim e l blk B s"
    and room: "llength l = capacity l \<Longrightarrow> heap_room lim (esize e * (capacity l * 2)) s \<and>
       unat (esize e) * (unat (capacity l) * 2) < 2 ^ 64"
  shows "list_add e item l s = Some (Inl (Panic ''Out of memory'')) \<or>
    (\<exists>l' t blk'. list_add e item l s = Some (Inr (l', t)) \<and>
       list_sys lim e l' blk' (insert (items l', blk') (B - {(items l, blk)})) t \<and>
       elems e l' (ram t) = elems e l (ram s) @ [item] \<and> others_kept (items l) B (ram s) (ram t))"
proof (cases "llength l = capacity l")
  case True
  then consider "grow e l s = Some (Inl (Panic ''Out of memory''))"
    | l' t blk' where "grow e l s = Some (Inr (l', t))"
       "list_sys lim e l' blk' (insert (items l', blk') (B - {(items l, blk)})) t"
       "unat (llength l') < unat (capacity l')" "items l' \<notin> fst ` B"
       "elems e l' (ram t) = elems e l (ram s)" "others_kept (items l) B (ram s) (ram t)"
    using grow_total [OF sys] room by blast
  then show ?thesis
  proof cases
    case 1
    then show ?thesis by (simp add: list_add_def True)
  next
    case (2 l' t blk')
    note push = list_push [OF 2(2,3), of item]
    define m' where "m' = put_item e l' (llength l') item (ram t)"
    have k: "others_kept (items l) B (ram s) m'"
      unfolding others_kept_def
    proof (clarify)
      fix q k x assume q: "(q, k) \<in> B" "q \<noteq> items l" "in_region q (unat k) x"
      then have "q \<noteq> items l'" using 2(4) by force
      then have "m' x = ram t x" using push(3) q unfolding others_kept_def m'_def by blast
      then show "m' x = ram s x" using 2(6) q unfolding others_kept_def by auto
    qed
    have "list_add e item l s = Some (Inr (l'\<lparr>llength := llength l' + 1\<rparr>, t\<lparr>ram := m'\<rparr>))"
      using 2(1) True by (simp add: list_add_def m'_def)
    with push(1,2) 2(5) k show ?thesis
      by (intro disjI2 exI [of _ "l'\<lparr>llength := llength l' + 1\<rparr>"] exI [of _ "t\<lparr>ram := m'\<rparr>"] exI [of _ blk'])
        (simp add: m'_def)
  qed
next
  case False
  then have lt: "unat (llength l) < unat (capacity l)"
    using sys by (simp add: list_sys_def word_unat_eq_iff)
  have "insert (items l, blk) (B - {(items l, blk)}) = B" using sys by (auto simp: list_sys_def)
  with list_push [OF sys lt, of item] False show ?thesis
    by (intro disjI2 exI [of _ "l\<lparr>llength := llength l + 1\<rparr>"]
          exI [of _ "s\<lparr>ram := put_item e l (llength l) item (ram s)\<rparr>"] exI [of _ blk]) (simp add: list_add_def)
qed

end

section \<open>The list of the kernel\<close>

interpretation u16_list: element u16_elem
proof unfold_locales
  fix m a and v :: u16
  have "load_le 2 (store_le 2 m a (ucast v)) a = take_bit 16 (ucast v)"
    using load_le_store_le_same [of 2 m a "ucast v"] by simp
  moreover have "ucast (take_bit 16 (ucast v :: u64)) = v"
    by (intro bit_word_eqI) (auto simp: bit_simps)
  ultimately show "ld u16_elem (st u16_elem m a v) a = v"
    by (simp add: u16_elem_def load16_def store16_def)
qed (auto simp: u16_elem_def load16_def store16_def store_le_apply intro!: arg_cong [where f = ucast] load_le_cong)

lemma u16_element: "element u16_elem" ..

text \<open>C24: \<open>List<T>::sort\<close> leaves the elements in ascending order, with every element as often as
  before, and writes nowhere but into the buffer of the list. \<open>key\<close> is the order that \<open>operator>\<close> of
  \<open>T\<close> decides.\<close>

theorem list_sort_sorts:
  assumes "element e" and "buffer_ok e l" and "\<And>a b. gt e a b \<longleftrightarrow> key b < (key a :: int)"
  shows "sorted (map key (elems e l (list_sort e l m))) \<and> mset (elems e l (list_sort e l m)) = mset (elems e l m) \<and>
     (\<forall>x. \<not> in_buffer e l x \<longrightarrow> list_sort e l m x = m x)"
proof -
  have s: "elems e l (list_sort e l m) = bubble (gt e) (unat (llength l)) (unat (llength l)) (elems e l m)"
    by (rule element.sort_elems [OF assms(1,2)])
  show ?thesis
    using bubble_sorts [of "gt e" key "elems e l m", OF assms(3)] element.sort_frame [OF assms(1,2)] by (simp add: s)
qed

definition list_example :: klist where
  "list_example = \<lparr>items = 0x1000, llength = 3, capacity = 4\<rparr>"

definition mem_example :: mem where
  "mem_example = store16 (store16 (store16 (\<lambda>_. 0) 0x1000 300) 0x1002 1) 0x1004 2"

lemma load16_bytes: "load16 m a = ucast (ucast (m a) OR push_bit 8 (ucast (m (a + 1)) :: u64))"
  by (simp add: load16_def numeral_2_eq_2)

lemma store16_bytes: "store16 m a v = m(a := ucast v, a + 1 := ucast (drop_bit 8 v))"
proof -
  have "(ucast (drop_bit 8 (ucast v :: u64)) :: u8) = ucast (drop_bit 8 v)"
    by (rule bit_word_eqI) (auto simp: bit_simps)
  moreover have "(ucast (ucast v :: u64) :: u8) = ucast v"
    by (rule bit_word_eqI) (auto simp: bit_simps)
  ultimately show ?thesis by (simp add: store16_def numeral_2_eq_2)
qed

lemma list_example_elems: "elems u16_elem list_example mem_example = [300, 1, 2]"
  by (simp add: elems_def item_at_def list_example_def mem_example_def u16_elem_def load16_bytes store16_bytes upt_rec)

theorem list_sort_sorts_witness:
  "sorted (map uint (elems u16_elem list_example (list_sort u16_elem list_example mem_example))) \<and>
   mset (elems u16_elem list_example (list_sort u16_elem list_example mem_example)) = {#300, 1, 2#}"
  using list_sort_sorts [OF u16_element, of list_example uint mem_example]
  by (simp add: list_example_elems) (simp add: buffer_ok_def list_example_def u16_elem_def word_less_def)

text \<open>C26: the other operations of \<open>List<T>\<close> are those of a list: \<open>reverse\<close> reverses it, \<open>remove(index)\<close> drops the
  element at the index and does nothing beyond the end, \<open>remove(item)\<close> the first occurrence, \<open>indexOf\<close> is the index of the first
  occurrence or \<open>-1\<close>, \<open>contains\<close> is membership, \<open>set\<close> replaces one element and \<open>get\<close> reads one.\<close>

theorem list_operations:
  assumes "element e" and "buffer_ok e l"
  shows "elems e l (list_reverse e l m) = rev (elems e l m) \<and>
    (index < llength l \<longrightarrow> (\<exists>l' m'. remove_at e index (l, m) = (l', m') \<and>
       elems e l' m' = take (unat index) (elems e l m) @ drop (Suc (unat index)) (elems e l m))) \<and>
    (llength l \<le> index \<longrightarrow> remove_at e index (l, m) = (l, m)) \<and>
    (\<exists>l' m'. remove_item e item (l, m) = (l', m') \<and> elems e l' m' = remove1 item (elems e l m)) \<and>
    (if item \<in> set (elems e l m)
     then elems e l m ! unat (indexOf e item l m) = item \<and> item \<notin> set (take (unat (indexOf e item l m)) (elems e l m))
     else indexOf e item l m = - 1) \<and>
    (list_contains e item l m \<longleftrightarrow> item \<in> set (elems e l m)) \<and>
    elems e l (list_set e index item l m) = (elems e l m)[unat index := item] \<and>
    list_get e index l m = (if index < llength l then elems e l m ! unat index else null_item e)"
proof (intro conjI impI)
  show "elems e l (list_reverse e l m) = rev (elems e l m)" by (rule element.reverse_elems [OF assms])
  show "\<exists>l' m'. remove_at e index (l, m) = (l', m') \<and>
       elems e l' m' = take (unat index) (elems e l m) @ drop (Suc (unat index)) (elems e l m)" if "index < llength l"
    using element.remove_at_elems [OF assms] that unfolding word_less_nat_alt by blast
  show "remove_at e index (l, m) = (l, m)" if "llength l \<le> index" using that by (simp add: remove_at_def)
  show "\<exists>l' m'. remove_item e item (l, m) = (l', m') \<and> elems e l' m' = remove1 item (elems e l m)"
    by (rule element.remove_item_elems [OF assms])
  note first = element.find_item_first [OF assms(1), where l = l and m = m and item = item]
  have mem: "item \<in> set (elems e l m)" if "find_item e l m item (count_upto (llength l)) = Some i" for i
    using first that nth_mem [of "unat i" "elems e l m"] by auto
  show "if item \<in> set (elems e l m)
     then elems e l m ! unat (indexOf e item l m) = item \<and> item \<notin> set (take (unat (indexOf e item l m)) (elems e l m))
     else indexOf e item l m = - 1"
    using first mem by (auto simp: indexOf_def split: option.splits)
  show "list_contains e item l m \<longleftrightarrow> item \<in> set (elems e l m)"
    using first mem by (auto simp: list_contains_def split: option.splits)
  show "elems e l (list_set e index item l m) = (elems e l m)[unat index := item]"
    using element.elems_put [OF assms, of "unat index" item m]
    by (auto simp: list_set_def word_le_nat_alt not_le list_update_beyond)
  show "list_get e index l m = (if index < llength l then elems e l m ! unat index else null_item e)"
    by (auto simp: list_get_def word_less_nat_alt word_le_nat_alt)
qed

theorem list_operations_witness:
  "elems u16_elem list_example (list_reverse u16_elem list_example mem_example) = [2, 1, 300] \<and>
   list_contains u16_elem 2 list_example mem_example \<and>
   (\<exists>l' m'. remove_item u16_elem 300 (list_example, mem_example) = (l', m') \<and> elems u16_elem l' m' = [1, 2])"
proof -
  have "buffer_ok u16_elem list_example" by (simp add: buffer_ok_def list_example_def u16_elem_def)
  from list_operations [OF u16_element this, of mem_example _ 2] list_operations [OF u16_element this, of mem_example _ 300]
  show ?thesis by (simp add: list_example_elems)
qed

text \<open>C25: \<open>add\<close> always returns: it halts for lack of frames or appends the item. When the buffer is full it
  moves to a new block of twice the capacity and frees the old one; in every case the heap stays sound, the
  list owns a block large enough for its capacity and no byte of any other block changes.\<close>

theorem list_add_appends:
  fixes s :: "'z heap_scheme"
  assumes "element e" and "list_sys lim e l blk B s"
    and "llength l = capacity l \<longrightarrow> heap_room lim (esize e * (capacity l * 2)) s \<and>
       unat (esize e) * (unat (capacity l) * 2) < 2 ^ 64"
  shows "case list_add e item l s of
      None \<Rightarrow> False
    | Some (Inl er) \<Rightarrow> er = Panic ''Out of memory''
    | Some (Inr (l', t)) \<Rightarrow> elems e l' (ram t) = elems e l (ram s) @ [item] \<and>
        (\<exists>blk'. list_sys lim e l' blk' (insert (items l', blk') (B - {(items l, blk)})) t) \<and>
        (\<forall>(q, k)\<in>B. q \<noteq> items l \<longrightarrow> (\<forall>x. in_region q (unat k) x \<longrightarrow> ram t x = ram s x))"
  using element.list_add_total [OF assms(1,2), of item] assms(3) unfolding others_kept_def by auto

theorem list_add_appends_witness:
  "\<exists>t u. initHeap 0x800000 1 heap_example = Inr t \<and> malloc 100 t = Some (Inr (0x80001d, u)) \<and>
     (let l = \<lparr>items = 0x80001d, llength = 50, capacity = 50\<rparr> in
      case list_add u16_elem 7 l u of None \<Rightarrow> False | Some (Inl er) \<Rightarrow> er = Panic ''Out of memory''
      | Some (Inr (l', v)) \<Rightarrow> elems u16_elem l' (ram v) = elems u16_elem l (ram u) @ [7])"
proof -
  let ?ss = "[Seg 0x800000 112 False, Seg 0x80008d 3926 True]"
  obtain t u where t: "initHeap 0x800000 1 heap_example = Inr t" "malloc 100 t = Some (Inr (0x80001d, u))"
    "heap_sys 0x900000 u ?ss" by (rule heap_example_malloc)
  let ?l = "\<lparr>items = 0x80001d, llength = 50, capacity = 50\<rparr> :: klist"
  have "heap_ok u ?ss" using t(3) by (simp add: heap_sys_def heap_inv_def)
  then have "unat (heapEnd u) = 0x801000" using last_seg_end [of u ?ss] by simp
  then have room: "heap_room 0x900000 (esize u16_elem * (capacity ?l * 2)) u"
    by (simp add: heap_room_def align16_def round_page_def u16_elem_def)
  have "blocks ?ss = {(0x80001d, 112)}" by simp
  then have "list_sys 0x900000 u16_elem ?l 112 {(0x80001d, 112)} u"
    using t(3) by (auto simp: list_sys_def heap_holds_def u16_elem_def)
  from list_add_appends [OF u16_element this, of 7] room t(1,2) show ?thesis
    by (intro exI [of _ t] exI [of _ u]) (auto simp: u16_elem_def split: option.splits sum.splits)
qed

text \<open>A list made with capacity 0 has no buffer, doubling keeps the capacity at 0, and \<open>add\<close> stores
  through the null pointer after freeing it.\<close>

theorem list_capacity_zero:
  "List_new e 0 s = Some (Inr (\<lparr>items = 0, llength = 0, capacity = 0\<rparr>, s)) \<and>
   list_add e item \<lparr>items = 0, llength = 0, capacity = 0\<rparr> s =
     Some (Inr (\<lparr>items = 0, llength = 1, capacity = 0\<rparr>, free 0 s\<lparr>ram := st e (ram (free 0 s)) 0 item\<rparr>))"
proof -
  have "malloc 0 s = Some (Inr (0, s))" by (subst malloc.simps) (simp add: align16_def)
  then show ?thesis by (simp add: List_new_def list_add_def grow_def copy_items_def put_item_def Let_def)
qed

end
