(* ===== verification/Kstring.thy ===== *)
theory Kstring
  imports Kmem "HOL-Library.Signed_Division"
begin

text \<open>
  \<^verbatim>\<open>kernel/lib/string.cpp\<close>: \<open>itoa\<close>, \<open>uitoa\<close> and \<open>strncmp\<close> on the byte memory. The conversions write the
  digits from the least significant one on and then reverse them in place. Both digit loops are
  instances of one interface, so the text they leave is derived once.
\<close>

section \<open>Definitions\<close>

definition digit_table :: "u8 list" where
  "digit_table = map of_char ''zyxwvutsrqponmlkjihgfedcba9876543210123456789abcdefghijklmnopqrstuvwxyz''"

text \<open>The conversion loop of \<open>itoa\<close>; division and remainder truncate towards zero.\<close>

partial_function (option) itoa_loop :: "int \<Rightarrow> int \<Rightarrow> u64 \<Rightarrow> mem \<Rightarrow> (u64 \<times> mem) option" where
  "itoa_loop base value ptr m =
     (let m = m(ptr := digit_table ! nat (35 + value smod base));
          ptr = ptr + 1;
          value = value sdiv base
      in if value \<noteq> 0 then itoa_loop base value ptr m else Some (ptr, m))"

partial_function (option) uitoa_loop :: "u64 \<Rightarrow> u64 \<Rightarrow> u64 \<Rightarrow> mem \<Rightarrow> (u64 \<times> mem) option" where
  "uitoa_loop base value ptr m =
     (let m = m(ptr := digit_table ! unat (35 + value mod base));
          ptr = ptr + 1;
          value = value div base
      in if value \<noteq> 0 then uitoa_loop base value ptr m else Some (ptr, m))"

text \<open>The loop that inverts the digits.\<close>

function invert :: "u64 \<Rightarrow> u64 \<Rightarrow> mem \<Rightarrow> mem" where
  "invert low ptr m =
     (if low < ptr then
        let tmp = m low;
            m = m(low := m ptr);
            m = m(ptr := tmp)
        in invert (low + 1) (ptr - 1) m
      else m)"
  by pat_completeness auto

termination
proof (relation "measure (\<lambda>(low, ptr, m). unat ptr - unat low)")
  fix low ptr :: u64 and m m' m'' :: mem and t
  assume "low < ptr"
  then have "unat (low + 1) = Suc (unat low)" "unat (ptr - 1) = unat ptr - 1" "unat low < unat ptr"
    using unat_inc [of low ptr] unat_sub_le [of 1 ptr] by (simp_all add: word_less_nat_alt)
  then show "((low + 1, ptr - 1, m''), low, ptr, m) \<in> measure (\<lambda>(low, ptr, m). unat ptr - unat low)"
    by simp
qed simp

declare invert.simps [simp del]

definition itoa :: "i64 \<Rightarrow> u64 \<Rightarrow> i64 \<Rightarrow> mem \<Rightarrow> (u64 \<times> mem) option" where
  "itoa value str base m =
     (if sint base < 2 \<or> sint base > 36 then Some (str, m(str := 0))
      else
        let (ptr, m) = (if sint value < 0 \<and> sint base = 10 then (str + 1, m(str := of_char CHR ''-'')) else (str, m));
            low = ptr
        in case itoa_loop (sint base) (sint value) ptr m of
             None \<Rightarrow> None
           | Some (ptr, m) \<Rightarrow> Some (str, invert low (ptr - 1) (m(ptr := 0))))"

definition uitoa :: "u64 \<Rightarrow> u64 \<Rightarrow> u64 \<Rightarrow> mem \<Rightarrow> (u64 \<times> mem) option" where
  "uitoa value str base m =
     (if base < 2 \<or> base > 36 then Some (str, m(str := 0))
      else case uitoa_loop base value str m of
             None \<Rightarrow> None
           | Some (ptr, m) \<Rightarrow> Some (str, invert str (ptr - 1) (m(ptr := 0))))"

text \<open>\<open>num\<close> decreases with every step, so the loop of \<open>strncmp\<close> ends.\<close>

function strncmp :: "mem \<Rightarrow> u64 \<Rightarrow> u64 \<Rightarrow> u64 \<Rightarrow> int" where
  "strncmp m str1 str2 num =
     (if num \<noteq> 0 \<and> m str1 \<noteq> 0 \<and> m str1 = m str2 then strncmp m (str1 + 1) (str2 + 1) (num - 1)
      else if num = 0 then 0
      else uint (m str1) - uint (m str2))"
  by pat_completeness auto

termination
proof (relation "measure (\<lambda>(m, str1, str2, num). unat num)")
  fix m :: mem and str1 str2 num :: u64
  assume "num \<noteq> 0 \<and> m str1 \<noteq> 0 \<and> m str1 = m str2"
  then have "1 \<le> unat num" using unat_diff_pos [of num 0] by simp
  then have "unat (num - 1) = unat num - 1" by (subst unat_sub_le) simp_all
  with \<open>1 \<le> unat num\<close> show "((m, str1 + 1, str2 + 1, num - 1), m, str1, str2, num) \<in> measure (\<lambda>(m, str1, str2, num). unat num)"
    by simp
qed simp

declare strncmp.simps [simp del]

section \<open>Strings in memory\<close>

lemma unat_minus_neg: "x \<noteq> 0 \<Longrightarrow> unat (- x :: u64) = 2 ^ 64 - unat x"
  using unat_sub_if' [of 0 x] by (simp add: word_unat_eq_iff)

primrec put_bytes :: "mem \<Rightarrow> u64 \<Rightarrow> u8 list \<Rightarrow> mem" where
  "put_bytes m p [] = m"
| "put_bytes m p (b # bs) = put_bytes (m(p := b)) (p + 1) bs"

lemma put_bytes_apply:
  "length bs \<le> 2 ^ 64 \<Longrightarrow> put_bytes m p bs x = (if in_region p (length bs) x then bs ! unat (x - p) else m x)"
proof (induction bs arbitrary: m p)
  case (Cons b bs)
  show ?case
  proof (cases "x = p")
    case True
    have "p - (p + 1) = (-1 :: u64)" by simp
    then have "unat (p - (p + 1)) = 2 ^ 64 - 1"
      by (simp only:) (simp add: unsigned_minus_1_eq_mask mask_eq_exp_minus_1)
    then have "\<not> in_region (p + 1) (length bs) x" using Cons.prems True by (simp add: in_region_def)
    then show ?thesis using Cons True by (simp add: in_region_def)
  next
    case False
    then show ?thesis using Cons by (simp add: in_region_Suc unat_step_down [OF False])
  qed
qed simp

lemma put_bytes_append: "put_bytes m p (bs @ cs) = put_bytes (put_bytes m p bs) (p + of_nat (length bs)) cs"
  by (induction bs arbitrary: m p) (simp_all add: add.assoc)

text \<open>\<open>string_at m a s\<close>: the zero-terminated string \<open>s\<close> starts at \<open>a\<close>.\<close>

definition string_at :: "mem \<Rightarrow> u64 \<Rightarrow> u8 list \<Rightarrow> bool" where
  "string_at m a s \<longleftrightarrow> bytes_at m a (length s) = s \<and> m (a + of_nat (length s)) = 0 \<and> 0 \<notin> set s"

lemma string_at_cstring: "string_at m a s \<Longrightarrow> cstring m a (length s)"
proof -
  assume s: "string_at m a s"
  have "m (a + of_nat i) \<in> set s" if "i < length s" for i
  proof -
    have "bytes_at m a (length s) ! i = m (a + of_nat i)" using that by (simp add: bytes_at_def)
    then have "s ! i = m (a + of_nat i)" using s by (simp add: string_at_def)
    then show ?thesis using nth_mem [OF that] by simp
  qed
  with s show ?thesis by (force simp: string_at_def cstring_def)
qed

lemma string_at_Nil [simp]: "string_at m a [] \<longleftrightarrow> m a = 0"
  by (simp add: string_at_def bytes_at_def)

lemma bytes_at_Suc: "bytes_at m a (Suc n) = m a # bytes_at m (a + 1) n"
  by (simp add: bytes_at_def upt_conv_Cons map_Suc_upt [symmetric] add.assoc del: upt_Suc)

lemma string_at_Cons [simp]: "string_at m a (c # s) \<longleftrightarrow> m a = c \<and> c \<noteq> 0 \<and> string_at m (a + 1) s"
  by (auto simp: string_at_def bytes_at_Suc add.assoc)

lemma bytes_at_put_bytes: "length bs < 2 ^ 64 \<Longrightarrow> bytes_at (put_bytes m p bs) p (length bs) = bs"
  by (intro nth_equalityI) (simp_all add: bytes_at_def put_bytes_apply in_region_def unat_of_nat_small)

lemma put_bytes_string:
  assumes "length s < 2 ^ 64" and "0 \<notin> set s"
  shows "string_at (put_bytes m p (s @ [0])) p s"
proof -
  have "bytes_at (put_bytes m p (s @ [0])) p (length s) = s"
    using assms(1) by (intro nth_equalityI)
      (simp_all add: bytes_at_def put_bytes_apply [of "s @ [0]"] in_region_def nth_append unat_of_nat_small)
  moreover have "put_bytes m p (s @ [0]) (p + of_nat (length s)) = 0"
    using assms(1) put_bytes_apply [of "s @ [0]" m p "p + of_nat (length s)"]
    by (simp add: in_region_def unat_of_nat_small)
  ultimately show ?thesis using assms(2) by (simp add: string_at_def)
qed

lemma in_region_offset: "i < n \<Longrightarrow> n \<le> 2 ^ 64 \<Longrightarrow> in_region a n (a + of_nat i)"
  by (simp add: in_region_def unat_of_nat_small)

lemma string_at_cong:
  assumes "\<And>x. in_region a (Suc (length str)) x \<Longrightarrow> m' x = m x" and "Suc (length str) \<le> 2 ^ 64"
  shows "string_at m' a str \<longleftrightarrow> string_at m a str"
proof -
  have "m' (a + of_nat i) = m (a + of_nat i)" if "i \<le> length str" for i
    using assms that by (intro assms(1) in_region_offset) simp_all
  then have "bytes_at m' a (length str) = bytes_at m a (length str)" "m' (a + of_nat (length str)) = m (a + of_nat (length str))"
    by (simp_all add: bytes_at_def)
  then show ?thesis by (simp add: string_at_def)
qed

lemma ucast_length: "n < 2 ^ 32 \<Longrightarrow> (ucast (of_nat n :: u32) :: u64) = of_nat n"
  by (intro word_eqI_unat) (simp add: unsigned_ucast_eq unat_of_nat take_bit_nat_eq_self)

lemma memcpy_string:
  assumes "string_at m a str" and "length str < 2 ^ 32"
    and "\<And>x. in_region dest (length str) x \<Longrightarrow> \<not> in_region a (Suc (length str)) x"
  shows "memcpy m dest a (of_nat (length str)) = put_bytes m dest str"
proof -
  have n: "unat (of_nat (length str) :: u64) = length str" using assms(2) by (simp add: unat_of_nat_small)
  have "region_disjoint dest (length str) a (length str)"
    using assms(3) in_region_mono [of a "length str" _ "Suc (length str)"] by (auto simp: region_disjoint_def)
  then have "memcpy m dest a (of_nat (length str)) = moved m dest a (of_nat (length str))"
    by (intro memcpy_moved) (simp add: n)
  also have "\<dots> = put_bytes m dest str"
  proof
    fix x
    have "m (a + (x - dest)) = str ! unat (x - dest)" if "in_region dest (length str) x"
    proof -
      have "bytes_at m a (length str) ! unat (x - dest) = m (a + (x - dest))"
        using that by (simp add: bytes_at_def in_region_def)
      with assms(1) show ?thesis by (simp add: string_at_def)
    qed
    then show "moved m dest a (of_nat (length str)) x = put_bytes m dest str x"
      using assms(2) by (simp add: moved_def n put_bytes_apply)
  qed
  finally show ?thesis .
qed

lemma put_bytes_frame:
  assumes "length bs + off \<le> n" and "n \<le> 2 ^ 64" and "\<not> in_region p n x"
  shows "put_bytes m (p + of_nat off) bs x = m x"
proof -
  have "\<not> in_region (p + of_nat off) (length bs) x"
  proof
    assume "in_region (p + of_nat off) (length bs) x"
    then obtain i where "i < length bs" "x = p + of_nat off + of_nat i"
      using assms(1,2) in_region_iff_offset [of "length bs"] by auto
    then have "x = p + of_nat (off + i)" "off + i < n" using assms(1) by (simp_all add: add.assoc)
    then show False using in_region_offset [OF _ assms(2)] assms(3) by blast
  qed
  then show ?thesis using assms(1,2) by (simp add: put_bytes_apply)
qed

lemma put_bytes_overwrite:
  assumes "length bs = length bs'" and "length as + length bs + length cs < 2 ^ 64"
  shows "put_bytes (put_bytes m p (as @ bs @ cs)) (p + of_nat (length as)) bs' = put_bytes m p (as @ bs' @ cs)"
proof
  fix x
  show "put_bytes (put_bytes m p (as @ bs @ cs)) (p + of_nat (length as)) bs' x = put_bytes m p (as @ bs' @ cs) x"
  proof (cases "in_region p (length as + length bs + length cs) x")
    case True
    then obtain i where i: "i < length as + length bs + length cs" "x = p + of_nat i"
      using in_region_iff_offset [OF less_imp_le [OF assms(2)]] by blast
    then have xi: "unat (x - p) = i" using assms(2) by (simp add: unat_of_nat_small)
    have "unat (x - (p + of_nat (length as))) = i - length as" if "length as \<le> i"
    proof -
      have "x - (p + of_nat (length as)) = of_nat (i - length as)" using that by (simp add: i(2) of_nat_diff)
      then show ?thesis using i(1) assms(2) by (simp add: unat_of_nat_small)
    qed
    moreover have "length bs \<le> unat (x - (p + of_nat (length as)))" if "i < length as"
    proof -
      have "unat (p + of_nat (length as) - x) = length as - i"
      proof -
        have "p + of_nat (length as) - x = of_nat (length as - i)" using that by (simp add: i(2) of_nat_diff)
        then show ?thesis using assms(2) by (simp add: unat_of_nat_small)
      qed
      then have "unat (x - (p + of_nat (length as))) = 2 ^ 64 - (length as - i)"
        using that unat_minus_neg [of "p + of_nat (length as) - x"] by (auto simp: word_unat_eq_iff)
      then show ?thesis using assms(2) that by simp
    qed
    ultimately show ?thesis
      using i assms xi
      by (auto simp: put_bytes_apply [of bs'] put_bytes_apply [of "as @ bs @ cs"] put_bytes_apply [of "as @ bs' @ cs"]
          in_region_def nth_append not_less)
  next
    case False
    then have "\<not> in_region p (length (as @ bs @ cs)) x" "\<not> in_region p (length (as @ bs' @ cs)) x"
      using assms(1) by (simp_all add: add.assoc)
    moreover have "put_bytes (put_bytes m p (as @ bs @ cs)) (p + of_nat (length as)) bs' x = put_bytes m p (as @ bs @ cs) x"
      using False assms by (intro put_bytes_frame [where n = "length as + length bs + length cs"]) simp_all
    moreover have "length (as @ bs @ cs) \<le> 2 ^ 64" "length (as @ bs' @ cs) \<le> 2 ^ 64" using assms by simp_all
    ultimately show ?thesis
      by (simp only: put_bytes_apply [of "as @ bs @ cs"] put_bytes_apply [of "as @ bs' @ cs"] if_False)
  qed
qed

section \<open>Digits\<close>

function digits_of :: "nat \<Rightarrow> nat \<Rightarrow> nat list" where
  "digits_of b n = (if n < b \<or> b < 2 then [n] else digits_of b (n div b) @ [n mod b])"
  by pat_completeness auto
termination by (relation "measure snd") auto

declare digits_of.simps [simp del]

definition digit_char :: "nat \<Rightarrow> u8" where
  "digit_char d = digit_table ! (35 + d)"

lemma digits_of_less: "2 \<le> b \<Longrightarrow> d \<in> set (digits_of b n) \<Longrightarrow> d < b"
proof (induction b n rule: digits_of.induct)
  case (1 b n)
  show ?case
  proof (cases "n < b")
    case True
    then show ?thesis using 1 by (simp add: digits_of.simps [of b n])
  next
    case False
    then have "d \<in> set (digits_of b (n div b)) \<or> d = n mod b" using 1 by (auto simp: digits_of.simps [of b n])
    then show ?thesis using 1 False by auto
  qed
qed

lemma digits_of_length: "2 \<le> b \<Longrightarrow> n < b ^ Suc k \<Longrightarrow> length (digits_of b n) \<le> Suc k"
proof (induction k arbitrary: n)
  case 0
  then show ?case by (simp add: digits_of.simps)
next
  case (Suc k)
  show ?case
  proof (cases "n < b")
    case False
    have "n div b < b ^ Suc k" using Suc.prems by (simp add: less_mult_imp_div_less mult.commute)
    then show ?thesis using Suc.IH [of "n div b"] False Suc.prems by (simp add: digits_of.simps [of b n])
  qed (simp add: digits_of.simps [of b n])
qed

lemma digits_of_value: "2 \<le> b \<Longrightarrow> foldl (\<lambda>a d. a * b + d) 0 (digits_of b n) = n"
proof (induction b n rule: digits_of.induct)
  case (1 b n)
  show ?case
  proof (cases "n < b")
    case True
    then show ?thesis by (simp add: digits_of.simps [of b n])
  next
    case False
    then show ?thesis using 1 by (simp add: digits_of.simps [of b n])
  qed
qed

lemma digit_chars: "\<forall>d\<in>set [0..<36]. digit_char d = of_nat (if d < 10 then 48 + d else 87 + d)"
  by (simp add: digit_char_def digit_table_def upt_rec)

lemma digit_char_eq: "d < 36 \<Longrightarrow> digit_char d = of_nat (if d < 10 then 48 + d else 87 + d)"
  using digit_chars by simp

lemma digit_char_unat: "d < 36 \<Longrightarrow> unat (digit_char d) = (if d < 10 then 48 + d else 87 + d)"
  by (auto simp: digit_char_eq unat_of_nat take_bit_nat_eq_self simp del: of_nat_add)

section \<open>The digit loops\<close>

text \<open>
  What the two conversion loops have in common: each step stores the digit of the magnitude modulo the
  base and goes on with the quotient as long as that is not zero.
\<close>

locale digit_loop =
  fixes loop :: "'v \<Rightarrow> u64 \<Rightarrow> mem \<Rightarrow> (u64 \<times> mem) option" and mag :: "'v \<Rightarrow> nat" and quot :: "'v \<Rightarrow> 'v" and b :: nat
  assumes base: "2 \<le> b" "b \<le> 36"
    and step: "loop v p m = (if mag v div b \<noteq> 0 then loop (quot v) (p + 1) (m(p := digit_char (mag v mod b)))
       else Some (p + 1, m(p := digit_char (mag v mod b))))"
    and mag_quot: "mag (quot v) = mag v div b"
begin

lemma loop_writes:
  "loop v p m = Some (p + of_nat (length (digits_of b (mag v))), put_bytes m p (rev (map digit_char (digits_of b (mag v)))))"
proof (induction "mag v" arbitrary: v p m rule: less_induct)
  case less
  show ?case
  proof (cases "mag v < b")
    case True
    then show ?thesis by (subst step) (simp add: digits_of.simps [of b "mag v"])
  next
    case False
    then have nz: "mag v div b \<noteq> 0" using base by (simp add: div_eq_0_iff)
    have "mag (quot v) < mag v" using False base by (simp add: mag_quot)
    from less [OF this, of "p + 1" "m(p := digit_char (mag v mod b))"] show ?thesis
      using nz False base by (subst step) (simp add: mag_quot digits_of.simps [of b "mag v"] add.assoc)
  qed
qed

end

lemma invert_apply:
  "invert low hi m x = (if low \<le> x \<and> x \<le> hi then m (low + hi - x) else m x)"
proof (induction low hi m rule: invert.induct)
  case (1 low hi m)
  show ?case
  proof (cases "low < hi")
    case True
    let ?m = "m(low := m hi, hi := m low)"
    have u: "unat (low + 1) = Suc (unat low)" "unat (hi - 1) = unat hi - 1" "unat low < unat hi"
      using True unat_inc [of low hi] unat_sub_le [of 1 hi] by (simp_all add: word_less_nat_alt)
    have "invert low hi m x = invert (low + 1) (hi - 1) ?m x"
      using True by (subst invert.simps) (simp add: Let_def)
    also have "\<dots> = (if low + 1 \<le> x \<and> x \<le> hi - 1 then ?m (low + hi - x) else ?m x)"
    proof -
      have e: "low + 1 + (hi - 1) - x = low + hi - x" by simp
      show ?thesis using 1 [OF True refl refl refl] unfolding e .
    qed
    also have "\<dots> = (if low \<le> x \<and> x \<le> hi then m (low + hi - x) else m x)"
    proof (cases "x = low \<or> x = hi")
      case True
      then show ?thesis using u by (auto simp: word_le_nat_alt)
    next
      case False
      then have "unat x \<noteq> unat low" "unat x \<noteq> unat hi" by (simp_all add: word_unat_eq_iff)
      then have "low + 1 \<le> x \<and> x \<le> hi - 1 \<longleftrightarrow> low \<le> x \<and> x \<le> hi" using u by (auto simp: word_le_nat_alt)
      moreover have "low + hi - x \<noteq> low" "low + hi - x \<noteq> hi" using False by (auto simp: algebra_simps)
      ultimately show ?thesis using False by simp
    qed
    finally show ?thesis .
  next
    case False
    then have "x = low \<and> x = hi" if "low \<le> x \<and> x \<le> hi" using that by auto
    then show ?thesis using False by (subst invert.simps) auto
  qed
qed

text \<open>Inverting the bytes just written, all but the terminator, writes them in reverse.\<close>

lemma invert_put_bytes:
  assumes "bs \<noteq> []" and "unat p + length bs < 2 ^ 64"
  shows "invert p (p + of_nat (length bs) - 1) ((put_bytes m p bs)(p + of_nat (length bs) := 0)) = put_bytes m p (rev bs @ [0])"
proof
  fix x
  let ?n = "length bs" and ?m = "(put_bytes m p bs)(p + of_nat (length bs) := 0)"
  let ?hi = "p + of_nat ?n - 1"
  have e: "unat (p + of_nat ?n) = unat p + ?n" using assms(2) by (intro unat_add_of_nat) simp
  moreover have "1 \<le> ?n" using assms(1) by (cases bs) simp_all
  ultimately have hi: "unat ?hi = unat p + ?n - 1" using unat_sub_le [of 1 "p + of_nat ?n"] by simp
  have put: "put_bytes m p cs y = (if unat p \<le> unat y \<and> unat y < unat p + length cs then cs ! (unat y - unat p) else m y)"
    if "length cs \<le> Suc ?n" for cs y
    using that assms(2) put_bytes_apply [of cs m p y] in_region_no_wrap [of p "length cs" y] by (auto simp: unat_sub_le)
  show "invert p ?hi ?m x = put_bytes m p (rev bs @ [0]) x"
  proof (cases "unat p \<le> unat x \<and> unat x \<le> unat ?hi")
    case True
    define j where "j = unat x - unat p"
    have j: "unat x = unat p + j" "j < ?n" using True hi \<open>1 \<le> ?n\<close> by (auto simp: j_def)
    have "x = p + of_nat j" using j assms(2) by (intro word_eqI_unat) (simp add: unat_add_of_nat)
    moreover obtain k where k: "k = ?n - 1 - j" "k < ?n" using \<open>1 \<le> ?n\<close> by simp
    ultimately have "p + ?hi - x = p + of_nat k" using j(2) by (simp add: of_nat_diff algebra_simps)
    moreover have "unat p + k < 2 ^ 64" using assms(2) k by simp
    ultimately have y: "unat (p + ?hi - x) = unat p + k" by (simp only: unat_add_of_nat)
    then have "unat (p + ?hi - x) \<noteq> unat (p + of_nat ?n)" using e k by simp
    then have "p + ?hi - x \<noteq> p + of_nat ?n" by metis
    then have "invert p ?hi ?m x = put_bytes m p bs (p + ?hi - x)"
      using True unfolding invert_apply word_le_nat_alt by (simp only: if_True simp_thms fun_upd_other)
    also have "\<dots> = bs ! k" using k(2) unfolding put [of bs, OF le_SucI [OF le_refl]] y by simp
    also have "\<dots> = put_bytes m p (rev bs @ [0]) x" using j k(1) by (simp add: put nth_append rev_nth)
    finally show ?thesis .
  next
    case False
    then have "invert p ?hi ?m x = ?m x" unfolding invert_apply word_le_nat_alt by (simp only: if_False)
    also have "\<dots> = put_bytes m p (rev bs @ [0]) x"
      using False hi e \<open>1 \<le> ?n\<close> by (auto simp: put nth_append word_unat_eq_iff)
    finally show ?thesis .
  qed
qed

section \<open>What the conversions print\<close>

lemma smod_digit: "2 \<le> b \<Longrightarrow> b \<le> 36 \<Longrightarrow> digit_table ! nat (35 + v smod b) = digit_char (nat \<bar>v\<bar> mod nat b)"
proof -
  assume b: "2 \<le> b" "b \<le> 36"
  define d where "d = nat \<bar>v\<bar> mod nat b"
  have d: "d < 36" "\<bar>v\<bar> mod b = int d" using b by (auto simp: d_def nat_mod_distrib [symmetric] less_le_trans [of _ "nat b"])
  have mirror: "\<forall>d\<in>set [0..<36]. digit_table ! (35 - d) = digit_char d"
    by (simp add: digit_char_def digit_table_def upt_rec)
  have s: "v smod b = sgn v * int d" using b d(2) by (simp add: signed_modulo_int_def)
  consider "v = 0" | "0 < v" | "v < 0" by linarith
  then show ?thesis
  proof cases
    case 1
    then show ?thesis using s by (simp add: digit_char_def)
  next
    case 2
    then have "nat (35 + v smod b) = 35 + d" using s by simp
    then show ?thesis by (simp add: digit_char_def d_def [symmetric])
  next
    case 3
    then have "nat (35 + v smod b) = 35 - d" using s d(1) by simp
    then show ?thesis using mirror d(1) by (simp add: d_def [symmetric])
  qed
qed

lemma itoa_digit_loop:
  assumes "2 \<le> b" and "b \<le> 36"
  shows "digit_loop (itoa_loop b) (\<lambda>v. nat \<bar>v\<bar>) (\<lambda>v. v sdiv b) (nat b)"
proof unfold_locales
  fix v p m
  have "0 \<le> \<bar>v\<bar> div b" using assms(1) by (simp add: pos_imp_zdiv_nonneg_iff)
  then have q: "nat \<bar>v sdiv b\<bar> = nat \<bar>v\<bar> div nat b"
    using assms(1) by (simp add: signed_divide_int_def abs_mult nat_mult_distrib nat_div_distrib)
  then show "nat \<bar>v sdiv b\<bar> = nat \<bar>v\<bar> div nat b" .
  have "v sdiv b \<noteq> 0 \<longleftrightarrow> nat \<bar>v\<bar> div nat b \<noteq> 0" using q by linarith
  then show "itoa_loop b v p m = (if nat \<bar>v\<bar> div nat b \<noteq> 0
      then itoa_loop b (v sdiv b) (p + 1) (m(p := digit_char (nat \<bar>v\<bar> mod nat b)))
      else Some (p + 1, m(p := digit_char (nat \<bar>v\<bar> mod nat b))))"
    using smod_digit [OF assms] by (subst itoa_loop.simps) (simp add: Let_def)
qed (use assms in simp_all)

lemma uitoa_digit_loop:
  assumes "2 \<le> b" and "b \<le> 36"
  shows "digit_loop (uitoa_loop b) unat (\<lambda>v. v div b) (unat b)"
proof unfold_locales
  have b: "2 \<le> unat b" "unat b \<le> 36" using assms by (simp_all add: word_le_nat_alt)
  then show "2 \<le> unat b" "unat b \<le> 36" .
  fix v p m
  show q: "unat (v div b) = unat v div unat b" by (rule unat_div)
  have "unat (v mod b) < 36" using b by (simp add: unat_mod less_le_trans [of _ "unat b"])
  then have d: "unat (35 + v mod b) = 35 + unat v mod unat b" by (subst unat_add_no_wrap) (simp_all add: unat_mod)
  have "v div b \<noteq> 0 \<longleftrightarrow> unat v div unat b \<noteq> 0" by (simp add: word_unat_eq_iff unat_div)
  then show "uitoa_loop b v p m = (if unat v div unat b \<noteq> 0
      then uitoa_loop b (v div b) (p + 1) (m(p := digit_char (unat v mod unat b)))
      else Some (p + 1, m(p := digit_char (unat v mod unat b))))"
    by (subst uitoa_loop.simps) (simp only: Let_def d digit_char_def)
qed

text \<open>The concrete loops that the kernel runs are instances.\<close>

interpretation itoa10: digit_loop "itoa_loop 10" "\<lambda>v. nat \<bar>v\<bar>" "\<lambda>v. v sdiv 10" "nat 10"
  by (rule itoa_digit_loop) simp_all

interpretation itoa8: digit_loop "itoa_loop 8" "\<lambda>v. nat \<bar>v\<bar>" "\<lambda>v. v sdiv 8" "nat 8"
  by (rule itoa_digit_loop) simp_all

interpretation uitoa10: digit_loop "uitoa_loop 10" unat "\<lambda>v. v div 10" "unat (10 :: u64)"
  by (rule uitoa_digit_loop) simp_all

interpretation uitoa16: digit_loop "uitoa_loop 16" unat "\<lambda>v. v div 16" "unat (16 :: u64)"
  by (rule uitoa_digit_loop) simp_all

definition itoa_text :: "i64 \<Rightarrow> i64 \<Rightarrow> u8 list" where
  "itoa_text value base = (if sint value < 0 \<and> sint base = 10 then [of_char CHR ''-''] else []) @
     map digit_char (digits_of (nat (sint base)) (nat \<bar>sint value\<bar>))"

definition uitoa_text :: "u64 \<Rightarrow> u64 \<Rightarrow> u8 list" where
  "uitoa_text value base = map digit_char (digits_of (unat base) (unat value))"

lemma digits_nonempty: "digits_of b n \<noteq> []"
  by (subst digits_of.simps) simp

lemma digits_length_word:
  assumes "2 \<le> b" and "n < 2 ^ 64"
  shows "length (digits_of b n) \<le> 64"
proof -
  have "(2 :: nat) ^ Suc 63 \<le> b ^ Suc 63" using assms(1) by (rule power_mono) simp
  then have "n < b ^ Suc 63" using assms(2) by simp
  then show ?thesis using digits_of_length [OF assms(1), of n 63] by simp
qed

lemma digit_char_nonzero: "d < 36 \<Longrightarrow> digit_char d \<noteq> 0"
  using digit_char_unat [of d] by (auto split: if_splits)

lemma digit_text_nonzero: "2 \<le> b \<Longrightarrow> b \<le> 36 \<Longrightarrow> 0 \<notin> set (map digit_char (digits_of b n))"
  using digits_of_less [of b _ n] digit_char_nonzero by fastforce

lemma abs_sint: "nat \<bar>sint (v :: i64)\<bar> < 2 ^ 64"
proof -
  have "- (2 ^ 63) \<le> sint v \<and> sint v < 2 ^ 63" using sint_greater_eq [of v] sint_less [of v] by simp
  then have "nat \<bar>sint v\<bar> \<le> 2 ^ 63" by (simp add: nat_le_iff abs_le_iff)
  then show ?thesis by (rule le_less_trans) simp
qed

lemma itoa_writes:
  assumes "2 \<le> sint base" and "sint base \<le> 36" and "unat str + 65 < 2 ^ 64"
  shows "itoa value str base m = Some (str, put_bytes m str (itoa_text value base @ [0]))"
    and "length (itoa_text value base) \<le> 65" and "0 \<notin> set (itoa_text value base)"
proof -
  define ds where "ds = map digit_char (digits_of (nat (sint base)) (nat \<bar>sint value\<bar>))"
  have len: "length ds \<le> 64" using assms digits_length_word [OF _ abs_sint] by (simp add: ds_def)
  have ne: "rev ds \<noteq> []" by (simp add: ds_def digits_nonempty)
  have z: "0 \<notin> set ds" using assms digit_text_nonzero unfolding ds_def by simp
  show "length (itoa_text value base) \<le> 65" using len unfolding itoa_text_def ds_def [symmetric] by simp
  show "0 \<notin> set (itoa_text value base)" using z unfolding itoa_text_def ds_def [symmetric] by simp
  note w = digit_loop.loop_writes [OF itoa_digit_loop [OF assms(1,2)], of "sint value"]
  have w': "itoa_loop (sint base) (sint value) p m = Some (p + of_nat (length (rev ds)), put_bytes m p (rev ds))" for p m
    using w by (simp add: ds_def rev_map)
  have inv: "invert p (p + of_nat (length (rev ds)) - 1) ((put_bytes m p (rev ds))(p + of_nat (length (rev ds)) := 0)) =
      put_bytes m p (ds @ [0])" if "unat p + 64 < 2 ^ 64" for p m
    using invert_put_bytes [OF ne, of p m] that len by simp
  have p1: "unat (str + 1) + 64 < 2 ^ 64" using assms(3) unat_plus_le [of str 1] by simp
  show "itoa value str base m = Some (str, put_bytes m str (itoa_text value base @ [0]))"
    using assms inv [OF p1] inv [of str m] unfolding itoa_def w' itoa_text_def ds_def [symmetric]
    by simp
qed

lemma uitoa_writes:
  assumes "2 \<le> base" and "base \<le> 36" and "unat str + 64 < 2 ^ 64"
  shows "uitoa value str base m = Some (str, put_bytes m str (uitoa_text value base @ [0]))"
    and "length (uitoa_text value base) \<le> 64" and "0 \<notin> set (uitoa_text value base)"
proof -
  define ds where "ds = map digit_char (digits_of (unat base) (unat value))"
  have b: "2 \<le> unat base" "unat base \<le> 36" using assms by (simp_all add: word_le_nat_alt)
  have len: "length ds \<le> 64" using digits_length_word [OF b(1), of "unat value"] unat_lt_64 by (simp add: ds_def)
  have ne: "rev ds \<noteq> []" by (simp add: ds_def digits_nonempty)
  show "length (uitoa_text value base) \<le> 64" using len by (simp add: uitoa_text_def ds_def)
  show "0 \<notin> set (uitoa_text value base)" unfolding uitoa_text_def by (rule digit_text_nonzero [OF b])
  have w: "uitoa_loop base value str m = Some (str + of_nat (length (rev ds)), put_bytes m str (rev ds))"
    using digit_loop.loop_writes [OF uitoa_digit_loop [OF assms(1,2)]] by (simp add: ds_def rev_map)
  show "uitoa value str base m = Some (str, put_bytes m str (uitoa_text value base @ [0]))"
    using invert_put_bytes [OF ne, of str m] assms len unfolding uitoa_def w uitoa_text_def ds_def [symmetric]
    by (auto simp: not_less)
qed

end
