(* ===== verification/String_Builder.thy ===== *)
theory String_Builder
  imports Heap_Client Kstring
begin

text \<open>
  \<^verbatim>\<open>FastStringBuilder\<close> of \<^verbatim>\<open>kernel/lib/string.cpp\<close> and \<^verbatim>\<open>string.h\<close>: an array of string pointers that
  \<open>build\<close> concatenates into a fresh heap block. String literals live at addresses that the linker
  chooses; they are arguments.
\<close>

section \<open>Definitions\<close>

record FastStringBuilder =
  parts :: u64
  nParts :: int
  partOffset :: int
  outputBuf :: u64
  outputBufSize :: u32

definition part_addr :: "FastStringBuilder \<Rightarrow> int \<Rightarrow> u64" where
  "part_addr b i = parts b + of_int (8 * i)"

definition FastStringBuilder_new :: "int \<Rightarrow> 'z heap_scheme \<Rightarrow> (FastStringBuilder \<times> 'z heap_scheme) res option" where
  "FastStringBuilder_new n s = (case malloc (8 * of_int n) s of
       None \<Rightarrow> None
     | Some r \<Rightarrow> Some (bind_r r (\<lambda>(p, s).
         Inr (\<lparr>parts = p, nParts = n, partOffset = 0, outputBuf = 0, outputBufSize = 0\<rparr>, s))))"

text \<open>\<open>sizeof(nParts)\<close> is 4, whatever the length of the array.\<close>

definition FastStringBuilder_destroy :: "FastStringBuilder \<Rightarrow> 'z heap_scheme \<Rightarrow> 'z heap_scheme" where
  "FastStringBuilder_destroy b s = sfree (outputBuf b) (ucast (outputBufSize b)) (sfree (parts b) 4 s)"

definition append_part :: "u64 \<Rightarrow> u64 \<Rightarrow> FastStringBuilder \<times> mem \<Rightarrow> FastStringBuilder \<times> mem" where
  "append_part oob ptr = (\<lambda>(b, m).
     if partOffset b \<ge> nParts b then (b, store64 m (part_addr b (nParts b - 1)) oob)
     else (b\<lparr>partOffset := partOffset b + 1\<rparr>, store64 m (part_addr b (partOffset b)) ptr))"

text \<open>The first loop of \<open>build\<close> adds up the lengths, the second copies.\<close>

primrec full_size :: "FastStringBuilder \<Rightarrow> mem \<Rightarrow> int list \<Rightarrow> u64 \<Rightarrow> u64 option" where
  "full_size b m [] sz = Some sz"
| "full_size b m (i # is) sz = (case strlen m (load64 m (part_addr b i)) of
       None \<Rightarrow> None | Some n \<Rightarrow> full_size b m is (sz + (ucast (n + 1))))"

primrec copy_parts :: "FastStringBuilder \<Rightarrow> int list \<Rightarrow> u64 \<Rightarrow> mem \<Rightarrow> mem option" where
  "copy_parts b [] off m = Some m"
| "copy_parts b (i # is) off m = (case strlen m (load64 m (part_addr b i)) of
       None \<Rightarrow> None
     | Some n \<Rightarrow> copy_parts b is (off + ucast n) (memcpy m (outputBuf b + off) (load64 m (part_addr b i)) (ucast n)))"

definition build :: "u64 \<Rightarrow> FastStringBuilder \<Rightarrow> 'z heap_scheme \<Rightarrow>
    (u64 \<times> FastStringBuilder \<times> 'z heap_scheme) res option" where
  "build unable b s =
     (case full_size b (ram s) [0..nParts b - 1] 0 of
        None \<Rightarrow> None
      | Some fullSize \<Rightarrow>
          let s = (if outputBuf b \<noteq> 0 then free (outputBuf b) s else s) in
          case malloc fullSize s of
            None \<Rightarrow> None
          | Some (Inl e) \<Rightarrow> Some (Inl e)
          | Some (Inr (p, s)) \<Rightarrow>
              let b = b\<lparr>outputBuf := p\<rparr> in
              if p = 0 then Some (Inr (unable, b, s))
              else case copy_parts b [0..nParts b - 1] 0 (ram s) of
                None \<Rightarrow> None
              | Some m \<Rightarrow> Some (Inr (p, b\<lparr>outputBufSize := ucast fullSize\<rparr>, s\<lparr>ram := m\<rparr>)))"

text \<open>\<open>delete this\<close> runs the destructor and frees the object.\<close>

definition buildAndDestroy :: "u64 \<Rightarrow> u64 \<Rightarrow> FastStringBuilder \<Rightarrow> 'z heap_scheme \<Rightarrow> (u64 \<times> 'z heap_scheme) res option" where
  "buildAndDestroy unable this b s = (case build unable b s of
       None \<Rightarrow> None
     | Some r \<Rightarrow> Some (bind_r r (\<lambda>(p, b, s). Inr (p, free this (FastStringBuilder_destroy b s)))))"

end
