(* ===== verification/Heap_Stable.thy ===== *)
theory Heap_Stable
  imports Heap_Spec
begin

text \<open>
  Steps of the heap seen by a client that relies on bytes outside of the heap and in its own blocks: what \<open>malloc\<close>,
  \<open>sfree\<close> and writes inside of a block keep of them, and how far the heap can grow.
\<close>

text \<open>Giving a block back does not move the end of the heap.\<close>

lemma combineForward_heapEnd [simp]: "heapEnd (combineForward p s) = heapEnd s"
  by (simp add: combineForward_def Let_def)

lemma combineBackward_heapEnd [simp]: "heapEnd (combineBackward p s) = heapEnd s"
  by (simp add: combineBackward_def Let_def)

lemma free_heapEnd [simp]: "heapEnd (free p s) = heapEnd s" "heapEnd (sfree p sz s) = heapEnd s"
  by (simp_all add: free_def sfree_def Let_def)

text \<open>The window of the heap can be made smaller as long as it holds the heap.\<close>

lemma heap_sys_shrink:
  assumes "heap_sys lim s ss" and "unat (heapEnd s) \<le> l" and "l \<le> lim"
  shows "heap_sys l s ss"
proof -
  have inv: "heap_inv s ss" and env: "heap_env lim s" using assms(1) by (simp_all add: heap_sys_def)
  have "unat x < unat (heapStart s) \<or> l \<le> unat x" if "paging_area (globalPageTable s) s x" for x
    using env that assms(3) unfolding heap_env_def by (meson le_trans)
  then have "heap_env l s" using env assms(2,3) unfolding heap_env_def by simp
  with inv show ?thesis by (simp add: heap_sys_def)
qed

lemma malloc_heapEnd:
  assumes "heap_holds lim s B" and "heap_room lim sz s" and "malloc sz s = Some (Inr (p, t))"
  shows "unat (heapEnd t) \<le> unat (heapEnd s) + 2 * round_page (unat (align16 sz))"
proof -
  let ?l = "unat (heapEnd s) + 2 * round_page (unat (align16 sz))"
  obtain ss where "heap_sys lim s ss" using assms(1) by (auto simp: heap_holds_def)
  then have l: "heap_sys ?l s ss" by (rule heap_sys_shrink) (use assms(2) in \<open>simp_all add: heap_room_def\<close>)
  have "allocated ?l sz s ss p t" using malloc_total [OF l, of sz] assms(2,3) by (simp add: heap_room_def)
  then obtain ts where "heap_sys ?l t ts" unfolding allocated_def by blast
  then show ?thesis unfolding heap_sys_def heap_env_def by blast
qed

lemma malloc_cases:
  fixes s :: "'z heap_scheme"
  assumes "heap_holds lim s B" and "heap_room lim sz s"
  obtains "malloc sz s = Some (Inl (Panic ''Out of memory''))"
  | p t len where "malloc sz s = Some (Inr (p, t))" and "p \<noteq> 0" and "unat sz \<le> unat len" and "p \<notin> fst ` B"
    and "heap_holds lim t (insert (p, len) B)" and "\<forall>x. hp.stable lim s B x \<longrightarrow> ram t x = ram s x"
    and "\<forall>C x. hp.stable lim s C x \<longrightarrow> hp.stable lim t C x"
    and "unat (heapEnd t) \<le> unat (heapEnd s) + 2 * round_page (unat (align16 sz))"
proof -
  obtain ss where ss: "heap_sys lim s ss" "blocks ss = B" using assms(1) by (auto simp: heap_holds_def)
  from malloc_total [OF ss(1), of sz] assms(2) consider "malloc sz s = Some (Inl (Panic ''Out of memory''))"
    | p t where "malloc sz s = Some (Inr (p, t))" "p \<noteq> 0" by (auto simp: heap_room_def allocated_def)
  then show thesis
  proof cases
    case 1
    then show thesis by (rule that(1))
  next
    case (2 p t)
    then have al: "heap_alloc lim sz s = Some (p, t)" using assms(2) by (simp add: heap_alloc_def)
    obtain len where len: "unat sz \<le> unat len" "p \<notin> fst ` B" "heap_holds lim t (insert (p, len) B)"
      using hp.alloc_adds [OF assms(1) al] by blast
    have "hp.stable lim t C x" if "hp.stable lim s C x" for C x
      using that hp.alloc_outside [OF assms(1) al] unfolding hp.stable_def by blast
    then show thesis
      using that(2) [OF 2(1,2) len _ _ malloc_heapEnd [OF assms 2(1)]] hp.alloc_stable(1) [OF assms(1) al] by blast
  qed
qed

lemma stable_insert: "hp.stable lim s B x \<Longrightarrow> hp.stable lim s (insert b B) x"
  by (auto simp: hp.stable_def)

lemma block_stable: "(p, len) \<in> B \<Longrightarrow> in_region p (unat len) x \<Longrightarrow> hp.stable lim s B x"
  by (auto simp: hp.stable_def)

text \<open>Bytes the client relies on lie in no new block.\<close>

lemma stable_apart:
  assumes "heap_holds lim s (insert (p, len) B)" and "p \<notin> fst ` B" and "hp.stable lim s B x"
  shows "\<not> in_region p (unat len) x"
proof -
  consider "outer lim s x" | q l where "(q, l) \<in> B" "in_region q (unat l) x" using assms(3) by (auto simp: hp.stable_def)
  then show ?thesis
  proof cases
    case 1
    then show ?thesis using block_outer [OF assms(1), of p len x] by auto
  next
    case (2 q l)
    then have "q \<noteq> p" using assms(2) by force
    then have "region_disjoint p (unat len) q (unat l)" using hp.blocks_apart [OF assms(1), of p len q l] 2(1) by simp
    then show ?thesis using 2(2) by (auto simp: region_disjoint_def)
  qed
qed

text \<open>Writing inside of a block.\<close>

lemma payload_stable:
  fixes s :: "'z heap_scheme"
  assumes h: "heap_holds lim s B" and b: "(p, len) \<in> B" and m: "\<forall>x. \<not> in_region p (unat len) x \<longrightarrow> m x = ram s x"
  shows "heap_holds lim (s\<lparr>ram := m\<rparr>) B" and "hp.stable lim (s\<lparr>ram := m\<rparr>) C = hp.stable lim s C"
proof -
  show "heap_holds lim (s\<lparr>ram := m\<rparr>) B" by (rule payload_update [OF h b]) (use m in blast)
  obtain ss where ss: "heap_sys lim s ss" "blocks ss = B" using h by (auto simp: heap_holds_def)
  have ok: "heap_ok s ss" and env: "heap_env lim s" using ss(1) by (simp_all add: heap_sys_def heap_inv_def)
  obtain u where u: "u \<in> set ss" "\<forall>x. in_region p (unat len) x \<longleftrightarrow> in_payload u x"
    using blocksE [OF ok, of p len] b ss(2) by metis
  have "m x = ram s x" if "paging_area (globalPageTable s) s x" for x
  proof -
    have "unat x < unat (heapStart s) \<or> lim \<le> unat x" using env that by (auto simp: heap_env_def)
    then have "\<not> in_payload u x" using heap_ok_bounds [OF ok u(1)] env by (auto simp: in_payload_def heap_env_def)
    then show ?thesis using m u(2) by blast
  qed
  from outside_write(2) [OF _ this] env
  have "paging_area (globalPageTable s) (s\<lparr>ram := m\<rparr>) = paging_area (globalPageTable s) s" by (simp add: heap_env_def)
  then have "outer lim (s\<lparr>ram := m\<rparr>) = outer lim s" by (simp add: outer_def fun_eq_iff)
  then show "hp.stable lim (s\<lparr>ram := m\<rparr>) C = hp.stable lim s C" by (simp add: hp.stable_def fun_eq_iff)
qed

text \<open>A block that \<open>sfree\<close> gives back, with its first bytes cleared.\<close>

lemma sfree_stable:
  fixes s :: "'z heap_scheme"
  assumes h: "heap_holds lim s (insert (p, len) B)" and new: "p \<notin> fst ` B" and sz: "unat sz \<le> unat len"
  shows "heap_holds lim (sfree p sz s) B"
    and "hp.stable lim s B x \<Longrightarrow> ram (sfree p sz s) x = ram s x"
    and "hp.stable lim s C x \<Longrightarrow> hp.stable lim (sfree p sz s) C x"
proof -
  have B: "insert (p, len) B - {(p, len)} = B" using new by force
  obtain ss where ss: "heap_sys lim s ss" "blocks ss = insert (p, len) B" using h by (auto simp: heap_holds_def)
  show h': "heap_holds lim (sfree p sz s) B" using sfree_block(1) [OF ss(1) _ sz, of p] ss(2) B by (auto simp: heap_holds_def)
  note rel = hp.release_stable [OF h, of p len x, unfolded B, OF insertI1]
  show kept: "ram (sfree p sz s) x = ram s x" if x: "hp.stable lim s B x"
    using rel(1) [OF x] stable_apart [OF h new x] in_region_mono [OF _ sz, of p x] by (auto simp: sfree_free memset_apply)
  show "hp.stable lim (sfree p sz s) C x" if "hp.stable lim s C x"
    using that sfree_block(4) [OF ss(1) _ sz, of p] ss(2) by (auto simp: hp.stable_def outer_kept_def)
qed

end
