(* ===== verification/String_Builder_Props.thy ===== *)
theory String_Builder_Props
  imports String_Builder Heap_Stable
begin

text \<open>
  \<open>build\<close> concatenates the parts into a block of its own. Its loops run over pointers and strings that the
  heap operations must not disturb; these lie in blocks the builder relies on or outside of the heap.
\<close>

section \<open>The loops\<close>

definition part_bytes :: "FastStringBuilder \<Rightarrow> mem \<Rightarrow> int \<Rightarrow> u8 list \<Rightarrow> u64 \<Rightarrow> bool" where
  "part_bytes b m i str x \<longleftrightarrow> in_region (part_addr b i) 8 x \<or>
     in_region (load64 m (part_addr b i)) (Suc (length str)) x"

definition part_holds :: "FastStringBuilder \<Rightarrow> mem \<Rightarrow> int \<Rightarrow> u8 list \<Rightarrow> bool" where
  "part_holds b m i str \<longleftrightarrow> string_at m (load64 m (part_addr b i)) str \<and> Suc (length str) < 2 ^ 32"

lemma part_holds_cong:
  assumes "part_holds b m i str" and "\<And>x. part_bytes b m i str x \<Longrightarrow> m' x = m x"
  shows "part_holds b m' i str" and "load64 m' (part_addr b i) = load64 m (part_addr b i)"
    and "part_bytes b m' i str = part_bytes b m i str"
proof -
  show l: "load64 m' (part_addr b i) = load64 m (part_addr b i)"
    using assms(2) by (intro c64.load_cong) (simp add: part_bytes_def)
  have "string_at m' (load64 m (part_addr b i)) str = string_at m (load64 m (part_addr b i)) str"
    using assms by (intro string_at_cong) (auto simp: part_bytes_def part_holds_def)
  with assms(1) l show "part_holds b m' i str" by (simp add: part_holds_def)
  from l show "part_bytes b m' i str = part_bytes b m i str" by (simp add: part_bytes_def fun_eq_iff)
qed

lemma part_strlen: "part_holds b m i str \<Longrightarrow> strlen m (load64 m (part_addr b i)) = Some (of_nat (length str))"
  using strlen_loop_cstring [OF string_at_cstring, of m "load64 m (part_addr b i)" str 0]
  by (simp add: part_holds_def strlen_def)

text \<open>What \<open>build\<close> allocates: every part with a terminator.\<close>

definition built_size :: "u8 list list \<Rightarrow> nat" where
  "built_size ss = (\<Sum>str\<leftarrow>ss. Suc (length str))"

lemma full_size_sum:
  assumes "list_all2 (part_holds b m) is ss"
  shows "full_size b m is sz = Some (sz + of_nat (built_size ss))"
  using assms
proof (induction "is" ss arbitrary: sz rule: list_all2_induct)
  case (Cons i "is" str ss)
  have "(ucast (of_nat (length str) + 1 :: u32) :: u64) = of_nat (Suc (length str))"
    using Cons.hyps(1) ucast_length [of "Suc (length str)"] by (simp add: part_holds_def add.commute)
  with Cons show ?case by (simp add: part_strlen add.assoc add.commute add.left_commute built_size_def)
qed (simp add: built_size_def)

lemma copy_parts_concat:
  assumes "list_all2 (\<lambda>i str. part_holds b m i str \<and> (\<forall>x. part_bytes b m i str x \<longrightarrow> \<not> in_region (outputBuf b) n x)) is ss"
    and "off + length (concat ss) \<le> n" and "n \<le> 2 ^ 64"
  shows "copy_parts b is (of_nat off) m = Some (put_bytes m (outputBuf b + of_nat off) (concat ss))"
  using assms
proof (induction "is" arbitrary: ss m off)
  case (Cons i "is" ss')
  obtain str ss where ss': "ss' = str # ss" using Cons.prems(1) by (auto simp: list_all2_Cons1)
  let ?m = "put_bytes m (outputBuf b + of_nat off) str"
  have h: "part_holds b m i str" "\<forall>x. part_bytes b m i str x \<longrightarrow> \<not> in_region (outputBuf b) n x" using Cons.prems(1) by (simp_all add: ss')
  have frame: "?m x = m x" if "\<not> in_region (outputBuf b) n x" for x
    using Cons.prems(2,3) that by (intro put_bytes_frame [where n = n]) (simp_all add: ss')
  have "list_all2 (\<lambda>i str. part_holds b ?m i str \<and> (\<forall>x. part_bytes b ?m i str x \<longrightarrow> \<not> in_region (outputBuf b) n x)) is ss"
    using Cons.prems(1) [unfolded ss' list_all2_Cons, THEN conjunct2]
  proof (rule list_all2_mono)
    fix j s assume "part_holds b m j s \<and> (\<forall>x. part_bytes b m j s x \<longrightarrow> \<not> in_region (outputBuf b) n x)"
    then show "part_holds b ?m j s \<and> (\<forall>x. part_bytes b ?m j s x \<longrightarrow> \<not> in_region (outputBuf b) n x)"
      using part_holds_cong [of b m j s ?m] frame by metis
  qed
  then have IH: "copy_parts b is (of_nat (off + length str)) ?m =
      Some (put_bytes ?m (outputBuf b + of_nat (off + length str)) (concat ss))"
    using Cons.prems(2,3) by (intro Cons.IH) (simp_all add: ss')
  have "memcpy m (outputBuf b + of_nat off) (load64 m (part_addr b i)) (of_nat (length str)) = ?m"
  proof (rule memcpy_string)
    fix x assume "in_region (outputBuf b + of_nat off) (length str) x"
    then obtain k where "k < length str" "x = outputBuf b + of_nat (off + k)"
      using Cons.prems(2,3) in_region_iff_offset [of "length str"] by (auto simp: add.assoc ss')
    then have "in_region (outputBuf b) n x" using Cons.prems(2,3) by (simp only:) (intro in_region_offset; simp add: ss')
    then show "\<not> in_region (load64 m (part_addr b i)) (Suc (length str)) x" using h(2) by (auto simp: part_bytes_def)
  qed (use h(1) in \<open>auto simp: part_holds_def\<close>)
  then show ?case
    using IH part_strlen [OF h(1)] ucast_length [of "length str"] h(1)
    by (simp add: part_holds_def put_bytes_append add.assoc ss')
qed simp

section \<open>Building\<close>

lemma build_effect:
  fixes s :: "'z heap_scheme"
  assumes "heap_holds lim s B" and "outputBuf b = 0" and "0 < nParts b"
    and "list_all2 (\<lambda>i str. part_holds b (ram s) i str \<and> (\<forall>x. part_bytes b (ram s) i str x \<longrightarrow> hp.stable lim s B x))
      [0..nParts b - 1] ss"
    and "heap_room lim (of_nat (built_size ss)) s" and "built_size ss \<le> 2 ^ 61"
  shows "case build unable b s of
      None \<Rightarrow> False
    | Some (Inl e) \<Rightarrow> e = Panic ''Out of memory''
    | Some (Inr (p, b', t)) \<Rightarrow> p \<noteq> 0 \<and> b' = b\<lparr>outputBuf := p, outputBufSize := ucast (of_nat (built_size ss) :: u64)\<rparr> \<and> bytes_at (ram t) p (length (concat ss)) = concat ss \<and>
        (\<exists>len. built_size ss \<le> unat len \<and> heap_holds lim t (insert (p, len) B) \<and> p \<notin> fst ` B) \<and>
        (\<exists>u. malloc (of_nat (built_size ss)) s = Some (Inr (p, u)) \<and>
           (\<forall>x. \<not> in_region p (length (concat ss)) x \<longrightarrow> ram t x = ram u x)) \<and>
        (\<forall>x. hp.stable lim s B x \<longrightarrow> ram t x = ram s x) \<and> (\<forall>C x. hp.stable lim s C x \<longrightarrow> hp.stable lim t C x)"
proof -
  let ?sz = "of_nat (built_size ss) :: u64"
  have sz: "unat ?sz = built_size ss" using assms(6) by (intro unat_of_nat_small) simp
  have fs: "full_size b (ram s) [0..nParts b - 1] 0 = Some ?sz"
    using full_size_sum [of b "ram s" _ ss 0] list_all2_mono [OF assms(4)] by force
  from malloc_cases [OF assms(1,5)] show ?thesis
  proof cases
    case 1
    then show ?thesis using fs assms(2) by (simp add: build_def)
  next
    case (2 p u len)
    note len = 2(3)[unfolded sz] 2(4,5)
    define b' where "b' = b\<lparr>outputBuf := p\<rparr>"
    have st: "ram u x = ram s x" "\<not> in_region p (unat len) x" if "hp.stable lim s B x" for x
      using that 2(6,7) stable_apart [OF len(3,2)] by blast+
    have small: "built_size ss \<le> 2 ^ 64" "length (concat ss) \<le> built_size ss"
      using assms(6) by (auto simp: built_size_def length_concat intro!: sum_list_mono)
    have "list_all2 (\<lambda>i str. part_holds b' (ram u) i str \<and>
        (\<forall>x. part_bytes b' (ram u) i str x \<longrightarrow> \<not> in_region (outputBuf b') (built_size ss) x)) [0..nParts b - 1] ss"
      using assms(4)
    proof (rule list_all2_mono)
      fix i str assume i: "part_holds b (ram s) i str \<and> (\<forall>x. part_bytes b (ram s) i str x \<longrightarrow> hp.stable lim s B x)"
      have e: "part_addr b' i = part_addr b i" by (simp add: part_addr_def b'_def)
      have c: "part_holds b (ram u) i str" "part_bytes b (ram u) i str = part_bytes b (ram s) i str"
        using part_holds_cong [of b "ram s" i str "ram u"] i st(1) by blast+
      have "part_holds b' (ram u) i str" using c(1) by (simp add: part_holds_def e)
      moreover have "\<not> in_region p (built_size ss) x" if "part_bytes b' (ram u) i str x" for x
      proof -
        have "part_bytes b (ram u) i str x" using that by (simp add: part_bytes_def e)
        then have "part_bytes b (ram s) i str x" using c(2) by simp
        then show ?thesis using i st(2) in_region_mono [OF _ len(1)] by blast
      qed
      ultimately show "part_holds b' (ram u) i str \<and>
        (\<forall>x. part_bytes b' (ram u) i str x \<longrightarrow> \<not> in_region (outputBuf b') (built_size ss) x)" by (simp add: b'_def)
    qed
    from copy_parts_concat [OF this _ small(1), of 0] small(2)
    have cp: "copy_parts b' [0..nParts b - 1] 0 (ram u) = Some (put_bytes (ram u) p (concat ss))" by (simp add: b'_def)
    define t where "t = u\<lparr>ram := put_bytes (ram u) p (concat ss)\<rparr>"
    have "build unable b s = Some (Inr (p, b'\<lparr>outputBufSize := ucast ?sz\<rparr>, t))"
      using fs 2 cp assms(2) by (simp add: build_def b'_def t_def Let_def)
    moreover have rest: "ram t x = ram u x" if "\<not> in_region p (length (concat ss)) x" for x
      using put_bytes_frame [of "concat ss" 0 "length (concat ss)" p x "ram u"] small that by (simp add: t_def)
    then have frame: "ram t x = ram u x" if "\<not> in_region p (unat len) x" for x
      using that in_region_mono [of p "length (concat ss)" x "unat len"] small(2) len(1) by auto
    moreover have "heap_holds lim t (insert (p, len) B)" "hp.stable lim t C = hp.stable lim u C" for C
      unfolding t_def using frame by (intro payload_stable [OF len(3) insertI1]; simp add: t_def)+
    moreover have "bytes_at (ram t) p (length (concat ss)) = concat ss"
      using small assms(6) unfolding t_def by (simp add: bytes_at_put_bytes del: length_concat)
    ultimately show ?thesis using 2(1,2,7) len(1,2) st rest by (auto simp: b'_def)
  qed
qed

text \<open>on a builder with \<open>n\<close> parts, each a zero-terminated string in memory that the heap leaves alone, \<open>build\<close>
  always returns: it halts for lack of frames or yields a new heap block that starts with the
  concatenation of the parts. Beyond that the block is as \<open>malloc\<close> left it, so no terminator is written.
  Everything else that the caller relies on keeps its bytes.\<close>

theorem build_concatenates:
  fixes s :: "'z heap_scheme"
  assumes "heap_holds lim s B" and "outputBuf b = 0" and "0 < nParts b"
    and "list_all2 (\<lambda>i str. part_holds b (ram s) i str \<and> (\<forall>x. part_bytes b (ram s) i str x \<longrightarrow> hp.stable lim s B x))
      [0..nParts b - 1] ss"
    and "heap_room lim (of_nat (built_size ss)) s" and "built_size ss \<le> 2 ^ 61"
  shows "case build unable b s of
      None \<Rightarrow> False
    | Some (Inl e) \<Rightarrow> e = Panic ''Out of memory''
    | Some (Inr (p, b', t)) \<Rightarrow> p \<noteq> 0 \<and> outputBuf b' = p \<and> bytes_at (ram t) p (length (concat ss)) = concat ss \<and>
        (\<exists>len. built_size ss \<le> unat len \<and> heap_holds lim t (insert (p, len) B) \<and> p \<notin> fst ` B) \<and>
        (\<exists>u. malloc (of_nat (built_size ss)) s = Some (Inr (p, u)) \<and>
           (\<forall>x. \<not> in_region p (length (concat ss)) x \<longrightarrow> ram t x = ram u x)) \<and>
        (\<forall>x. hp.stable lim s B x \<longrightarrow> ram t x = ram s x)"
  using build_effect [OF assms, of unable] by (auto split: option.splits sum.splits)

theorem build_concatenates_witness:
  "\<exists>s. let b = \<lparr>parts = 0x80001d, nParts = 1, partOffset = 1, outputBuf = 0, outputBufSize = 0\<rparr> in
     case build 0 b (s :: heap) of None \<Rightarrow> False | Some (Inl e) \<Rightarrow> e = Panic ''Out of memory''
     | Some (Inr (p, b', t)) \<Rightarrow> bytes_at (ram t) p 2 = [72, 105]"
proof -
  let ?ss = "[Seg 0x800000 112 False, Seg 0x80008d 3926 True]" and ?B = "{(0x80001d, 112)} :: (u64 \<times> u64) set"
  let ?b = "\<lparr>parts = 0x80001d, nParts = 1, partOffset = 1, outputBuf = 0, outputBufSize = 0\<rparr> :: FastStringBuilder"
  obtain t u where "initHeap 0x800000 1 heap_example = Inr t" "malloc 100 t = Some (Inr (0x80001d, u))"
    and u: "heap_sys 0x900000 u ?ss" by (rule heap_example_malloc)
  let ?m = "store64 ((ram u)(0x80002d := 72, 0x80002e := 105, 0x80002f := 0)) 0x80001d 0x80002d"
  let ?s = "u\<lparr>ram := ?m\<rparr>"
  have "blocks ?ss = ?B" by simp
  then have hu: "heap_holds 0x900000 u ?B" using u unfolding heap_holds_def by blast
  have hs: "heap_holds 0x900000 ?s ?B"
  proof (rule payload_update [OF hu, of "0x80001d" 112])
    fix x :: u64 assume x: "\<not> in_region 0x80001d (unat (112 :: u64)) x"
    then have "\<not> in_region 0x80001d 8 x" using in_region_mono [of "0x80001d" 8 x 112] by auto
    moreover have "x \<noteq> 0x80002d" "x \<noteq> 0x80002e" "x \<noteq> 0x80002f" using x by (auto simp: in_region_def)
    ultimately show "?m x = ram u x" using c64.store_frame by simp
  qed simp
  have ld: "load64 ?m 0x80001d = 0x80002d" by (simp add: mem_simps)
  have bytes: "?m x = ((ram u)(0x80002d := 72, 0x80002e := 105, 0x80002f := 0)) x" if "\<not> in_region 0x80001d 8 x" for x
    using c64.store_frame that by blast
  have ph: "part_holds ?b (ram ?s) 0 [72, 105]"
    using ld bytes by (simp add: part_holds_def part_addr_def in_region_def)
  have pb: "hp.stable 0x900000 ?s ?B x" if "part_bytes ?b (ram ?s) 0 [72, 105] x" for x
  proof -
    have "in_region 0x80001d 8 x \<or> in_region 0x80002d 3 x"
      using that ld by (simp add: part_bytes_def part_addr_def numeral_3_eq_3)
    then have "in_region 0x80001d 112 x" by (auto simp: in_region_no_wrap)
    then show ?thesis by (simp add: hp.stable_def)
  qed
  have "heap_ok u ?ss" using u by (simp add: heap_sys_def heap_inv_def)
  then have "unat (heapEnd u) = 0x801000" using last_seg_end [of u ?ss] by simp
  then have "heap_room 0x900000 (of_nat (built_size [[72, 105]])) ?s"
    by (simp add: heap_room_def align16_def round_page_def built_size_def)
  moreover have two: "bytes_at m p 2 = bytes_at m p (Suc (Suc 0))" for m p by (simp add: numeral_2_eq_2)
  ultimately show ?thesis using build_concatenates [OF hs, of ?b "[[72, 105]]" 0] ph pb
    by (intro exI [of _ ?s]) (auto simp: built_size_def two split: option.splits sum.splits)
qed

end
