(* ===== verification/Ports.thy ===== *)
theory Ports
  imports Prelude
begin

text \<open>
  Port I/O and the devices driven through it: \<^verbatim>\<open>lib/io.cpp\<close>, \<^verbatim>\<open>idt/pic.cpp\<close>, \<^verbatim>\<open>lib/serial.cpp\<close>,
  \<^verbatim>\<open>sched/pit.cpp\<close> and \<^verbatim>\<open>sched/timer.h\<close>. Writes to ports are recorded in order. What a read returns is
  decided by the device, a parameter of the state: the \<open>n\<close>-th read of the run on a port.
\<close>

section \<open>Ports\<close>

record ports =
  port_out :: "(u16 \<times> u8) list"
  reads :: nat
  device :: "nat \<Rightarrow> u16 \<Rightarrow> u16"

definition outb :: "u16 \<Rightarrow> u8 \<Rightarrow> 'z ports_scheme \<Rightarrow> 'z ports_scheme" where
  "outb port v s = s\<lparr>port_out := port_out s @ [(port, v)]\<rparr>"

definition inb :: "u16 \<Rightarrow> 'z ports_scheme \<Rightarrow> u8 \<times> 'z ports_scheme" where
  "inb port s = (ucast (device s (reads s) port), s\<lparr>reads := Suc (reads s)\<rparr>)"

definition inw :: "u16 \<Rightarrow> 'z ports_scheme \<Rightarrow> u16 \<times> 'z ports_scheme" where
  "inw port s = (device s (reads s) port, s\<lparr>reads := Suc (reads s)\<rparr>)"

definition io_wait :: "'z ports_scheme \<Rightarrow> 'z ports_scheme" where
  "io_wait s = outb 0x80 0 s"

section \<open>Interrupt controller\<close>

abbreviation (input) PIC_COMMAND_MASTER :: u16 where "PIC_COMMAND_MASTER \<equiv> 0x20"
abbreviation (input) PIC_COMMAND_SLAVE :: u16 where "PIC_COMMAND_SLAVE \<equiv> 0xA0"
abbreviation (input) PIC_DATA_MASTER :: u16 where "PIC_DATA_MASTER \<equiv> 0x21"
abbreviation (input) PIC_DATA_SLAVE :: u16 where "PIC_DATA_SLAVE \<equiv> 0xA1"

definition disablePIC :: "'z ports_scheme \<Rightarrow> 'z ports_scheme" where
  "disablePIC s =
     (let s = outb PIC_COMMAND_MASTER 0x11 s; s = outb PIC_COMMAND_SLAVE 0x11 s;
          s = outb PIC_DATA_MASTER 0x20 s; s = outb PIC_DATA_SLAVE 0x28 s;
          s = outb PIC_DATA_MASTER 0x04 s; s = outb PIC_DATA_SLAVE 0x02 s;
          s = outb PIC_DATA_MASTER 0x01 s; s = outb PIC_DATA_SLAVE 0x01 s;
          s = outb PIC_DATA_MASTER 0xFF s; s = outb PIC_DATA_SLAVE 0xFF s
      in s)"

section \<open>Serial port\<close>

abbreviation (input) PORT :: u16 where "PORT \<equiv> 0x3f8"

definition serial_init :: "'z ports_scheme \<Rightarrow> int \<times> 'z ports_scheme" where
  "serial_init s =
     (let s = outb (PORT + 1) 0x00 s; s = outb (PORT + 3) 0x80 s; s = outb (PORT + 0) 0x03 s;
          s = outb (PORT + 1) 0x00 s; s = outb (PORT + 3) 0x03 s; s = outb (PORT + 2) 0xC7 s;
          s = outb (PORT + 4) 0x0B s; s = outb (PORT + 4) 0x1E s; s = outb (PORT + 0) 0xAE s;
          (v, s) = inb (PORT + 0) s
      in if v \<noteq> 0xAE then (1, s) else (0, outb (PORT + 4) 0x0F s))"

definition serial_received :: "'z ports_scheme \<Rightarrow> u8 \<times> 'z ports_scheme" where
  "serial_received s = (let (v, s) = inb (PORT + 5) s in (v AND 1, s))"

definition is_transmit_empty :: "'z ports_scheme \<Rightarrow> u8 \<times> 'z ports_scheme" where
  "is_transmit_empty s = (let (v, s) = inb (PORT + 5) s in (v AND 0x20, s))"

text \<open>The polling loops: \<open>None\<close> if the device never becomes ready.\<close>

partial_function (option) wait_received :: "'z ports_scheme \<Rightarrow> 'z ports_scheme option" where
  "wait_received s = (let (v, s) = serial_received s in if v = 0 then wait_received s else Some s)"

definition serial_read :: "'z ports_scheme \<Rightarrow> (u8 \<times> 'z ports_scheme) option" where
  "serial_read s = map_option (inb PORT) (wait_received s)"

partial_function (option) wait_transmit :: "'z ports_scheme \<Rightarrow> 'z ports_scheme option" where
  "wait_transmit s = (let (v, s) = is_transmit_empty s in if v = 0 then wait_transmit s else Some s)"

definition serial_write :: "u8 \<Rightarrow> 'z ports_scheme \<Rightarrow> 'z ports_scheme option" where
  "serial_write a s = map_option (outb PORT a) (wait_transmit s)"

fun serial_writemany :: "u8 list \<Rightarrow> 'z ports_scheme \<Rightarrow> 'z ports_scheme option" where
  "serial_writemany [] s = Some s"
| "serial_writemany (c # cs) s = Option.bind (serial_write c s) (serial_writemany cs)"

section \<open>Interval timer\<close>

record pit = ports +
  timeSinceBootNs :: u64
  divisor :: u16

definition baseFrequency :: u64 where
  "baseFrequency = 1193182"

definition setDivisor :: "u16 \<Rightarrow> 'z pit_scheme \<Rightarrow> 'z pit_scheme" where
  "setDivisor d s =
     (let d = (if d < 100 then 100 else d);
          s = s\<lparr>divisor := d\<rparr>;
          s = outb 0x40 (ucast (d AND 0x00ff)) s;
          s = io_wait s
      in outb 0x40 (ucast (drop_bit 8 (d AND 0xff00))) s)"

definition getFrequency :: "'z pit_scheme \<Rightarrow> u64 res" where
  "getFrequency s = (if divisor s = 0 then Inl (CpuFault ''division by zero'')
     else Inr (baseFrequency div ucast (divisor s)))"

definition setFrequency :: "u64 \<Rightarrow> 'z pit_scheme \<Rightarrow> 'z pit_scheme res" where
  "setFrequency frequency s =
     (if frequency = 0 then Inl (CpuFault ''division by zero'')
      else Inr (setDivisor (ucast (baseFrequency div frequency)) s))"

definition tick :: "'z pit_scheme \<Rightarrow> 'z pit_scheme res" where
  "tick s = bind_r (getFrequency s) (\<lambda>f.
     if f = 0 then Inl (CpuFault ''division by zero'')
     else Inr (s\<lparr>timeSinceBootNs := timeSinceBootNs s + 1000000000 div f\<rparr>))"

text \<open>
  \<open>sleepNs\<close> halts until an interrupt as long as the clock has not reached its target. What happens
  to the clock during one \<open>hlt\<close> is the parameter \<open>hlt\<close>.
\<close>

partial_function (option) sleep_loop ::
    "('z pit_scheme \<Rightarrow> 'z pit_scheme) \<Rightarrow> u64 \<Rightarrow> 'z pit_scheme \<Rightarrow> 'z pit_scheme option" where
  "sleep_loop hlt target s = (if timeSinceBootNs s < target then sleep_loop hlt target (hlt s) else Some s)"

definition sleepNs :: "('z pit_scheme \<Rightarrow> 'z pit_scheme) \<Rightarrow> u64 \<Rightarrow> 'z pit_scheme \<Rightarrow> 'z pit_scheme option" where
  "sleepNs hlt ns s = sleep_loop hlt (timeSinceBootNs s + ns) s"

definition sleepMicros :: "('z pit_scheme \<Rightarrow> 'z pit_scheme) \<Rightarrow> u64 \<Rightarrow> 'z pit_scheme \<Rightarrow> 'z pit_scheme option" where
  "sleepMicros hlt micros s = sleepNs hlt (micros * 1000) s"

definition sleepMillis :: "('z pit_scheme \<Rightarrow> 'z pit_scheme) \<Rightarrow> u64 \<Rightarrow> 'z pit_scheme \<Rightarrow> 'z pit_scheme option" where
  "sleepMillis hlt millis s = sleepNs hlt (millis * 1000000) s"

definition sleepSeconds :: "('z pit_scheme \<Rightarrow> 'z pit_scheme) \<Rightarrow> u64 \<Rightarrow> 'z pit_scheme \<Rightarrow> 'z pit_scheme option" where
  "sleepSeconds hlt seconds s = sleepNs hlt (seconds * 1000000000) s"

section \<open>Stop watch\<close>

record Timer =
  startTime :: u64
  endTime :: u64

definition Timer_new :: "'z pit_scheme \<Rightarrow> Timer" where
  "Timer_new s = \<lparr>startTime = timeSinceBootNs s, endTime = 0\<rparr>"

definition Timer_start :: "'z pit_scheme \<Rightarrow> Timer \<Rightarrow> Timer" where
  "Timer_start s t = t\<lparr>startTime := timeSinceBootNs s\<rparr>"

definition Timer_stop :: "'z pit_scheme \<Rightarrow> Timer \<Rightarrow> Timer" where
  "Timer_stop s t = t\<lparr>endTime := timeSinceBootNs s\<rparr>"

definition getElapsedNs :: "Timer \<Rightarrow> u64" where
  "getElapsedNs t = endTime t - startTime t"

definition getElapsedMicros :: "Timer \<Rightarrow> u64" where
  "getElapsedMicros t = getElapsedNs t div 1000"

definition getElapsedMillis :: "Timer \<Rightarrow> u64" where
  "getElapsedMillis t = getElapsedMicros t div 1000"

definition getElapsedSeconds :: "Timer \<Rightarrow> u64" where
  "getElapsedSeconds t = getElapsedMillis t div 1000"

end
