(* ===== verification/Framebuffer.thy ===== *)
theory Framebuffer
  imports Ports Kmem
begin

text \<open>
  \<^verbatim>\<open>kernel/graphics/framebuffer.cpp\<close>: drawing into the framebuffer that the boot loader describes. The
  framebuffer is a range of the byte memory; the font is a range of bytes whose two ends the linker
  defines.
\<close>

record limine_framebuffer =
  fb_address :: u64
  fb_width :: u64
  fb_height :: u64
  fb_pitch :: u64
  fb_bpp :: u16

record screen = ports +
  vram :: mem
  gFramebuffer :: limine_framebuffer
  font_start :: u64
  font_end :: u64

definition translateToOffset :: "u32 \<Rightarrow> u32 \<Rightarrow> 'z screen_scheme \<Rightarrow> u32" where
  "translateToOffset x y s = ucast (ucast y * (fb_pitch (gFramebuffer s) div 4) + ucast x :: u64)"

definition drawPoint :: "u32 \<Rightarrow> u32 \<Rightarrow> u32 \<Rightarrow> 'z screen_scheme \<Rightarrow> 'z screen_scheme" where
  "drawPoint x y color s =
     s\<lparr>vram := store32 (vram s) (fb_address (gFramebuffer s) + 4 * ucast (translateToOffset x y s)) color\<rparr>"

definition drawHorizontalLine :: "u32 \<Rightarrow> u32 \<Rightarrow> u32 \<Rightarrow> u32 \<Rightarrow> 'z screen_scheme \<Rightarrow> 'z screen_scheme" where
  "drawHorizontalLine x0 y0 x1 color s = fold (\<lambda>x. drawPoint (of_nat x) y0 color) [unat x0..<unat x1] s"

definition drawLine :: "u32 \<Rightarrow> u32 \<Rightarrow> u32 \<Rightarrow> u32 \<Rightarrow> u32 \<Rightarrow> 'z screen_scheme \<Rightarrow> 'z screen_scheme" where
  "drawLine x0 y0 x1 y1 color s =
     (if x0 \<noteq> x1 then
        if y0 \<noteq> y1 then s
        else if x0 > x1 then drawHorizontalLine x1 y0 x0 color s
        else drawHorizontalLine x0 y0 x1 color s
      else s)"

text \<open>The two loops of \<open>drawCharBg\<close> as one over the pairs of row and column; it stops where the font ends.\<close>

primrec draw_glyph :: "u64 \<Rightarrow> u32 \<Rightarrow> u32 \<Rightarrow> u32 \<Rightarrow> u32 \<Rightarrow> (nat \<times> nat) list \<Rightarrow> 'z screen_scheme \<Rightarrow> 'z screen_scheme" where
  "draw_glyph glyph x y fgColor bgColor [] s = s"
| "draw_glyph glyph x y fgColor bgColor (p # ps) s =
     (let (cy, cx) = p in
      if glyph + of_nat cy \<ge> font_end s then s
      else
        let mv = vram s (glyph + of_nat cy) AND push_bit cx 1;
            s = drawPoint ((x + 16) - of_nat cx) (y + of_nat cy) (if mv \<noteq> 0 then fgColor else bgColor) s
        in draw_glyph glyph x y fgColor bgColor ps s)"

definition drawCharBg :: "u8 \<Rightarrow> u32 \<Rightarrow> u32 \<Rightarrow> u32 \<Rightarrow> u32 \<Rightarrow> 'z screen_scheme \<Rightarrow> 'z screen_scheme" where
  "drawCharBg c x y fgColor bgColor s =
     draw_glyph (font_start s + ucast (ucast c * 16 :: u32)) x y fgColor bgColor (List.product [0..<16] [0..<8]) s"

definition drawChar :: "u8 \<Rightarrow> u32 \<Rightarrow> u32 \<Rightarrow> u32 \<Rightarrow> 'z screen_scheme \<Rightarrow> 'z screen_scheme" where
  "drawChar c x y fgColor s = drawCharBg c x y fgColor 0 s"

text \<open>The loop of \<open>drawStringBg\<close> over the string in memory.\<close>

partial_function (option) draw_string_loop ::
    "u64 \<Rightarrow> u32 \<Rightarrow> u32 \<Rightarrow> u32 \<Rightarrow> u32 \<Rightarrow> u32 \<Rightarrow> 'z screen_scheme \<Rightarrow> 'z screen_scheme option" where
  "draw_string_loop str offX x y fgColor bgColor s =
     (if vram s str \<noteq> 0
      then draw_string_loop (str + 1) (offX + 8) x y fgColor bgColor (drawCharBg (vram s str) (x + offX) y fgColor bgColor s)
      else Some s)"

definition drawStringBg :: "u64 \<Rightarrow> u32 \<Rightarrow> u32 \<Rightarrow> u32 \<Rightarrow> u32 \<Rightarrow> 'z screen_scheme \<Rightarrow> 'z screen_scheme option" where
  "drawStringBg str x y fgColor bgColor s = draw_string_loop str 0 x y fgColor bgColor s"

definition drawString :: "u64 \<Rightarrow> u32 \<Rightarrow> u32 \<Rightarrow> u32 \<Rightarrow> 'z screen_scheme \<Rightarrow> 'z screen_scheme option" where
  "drawString str x y fgColor s = drawStringBg str x y fgColor 0 s"

end
