(* ===== verification/Console.thy ===== *)
theory Console
  imports Framebuffer Kstring
begin

text \<open>
  \<^verbatim>\<open>kernel/terminal/terminal.cpp\<close> and \<^verbatim>\<open>kernel/debug.cpp\<close>: the text terminal and the kernel's formatted
  output. Strings that only pass through (formats and \<open>%s\<close> arguments) are the lists of their characters up
  to the terminator. A call that never returns is \<open>None\<close>: the serial port may never become ready, and
  the loop of \<open>__write\<close> does not advance on a \<open>$\<close>.
\<close>

record console = screen +
  charX :: u32
  charY :: u32
  charsPerLine :: u32
  maxLines :: u32
  fgColor :: u32
  currentlyReadingAnything :: bool
  currentlyReadingColor :: bool

section \<open>Characters\<close>

text \<open>The colour of an escape \<open>$c<letter>\<close>; other letters leave it as it is.\<close>

definition set_color :: "u8 \<Rightarrow> 'z console_scheme \<Rightarrow> 'z console_scheme" where
  "set_color c s =
     (if c = of_char CHR ''Y'' then s\<lparr>fgColor := 0xFFFF20\<rparr>
      else if c = of_char CHR ''G'' then s\<lparr>fgColor := 0x00FF00\<rparr>
      else if c = of_char CHR ''R'' then s\<lparr>fgColor := 0xFF0000\<rparr>
      else if c = of_char CHR ''B'' then s\<lparr>fgColor := 0x0000FF\<rparr>
      else if c = of_char CHR ''F'' then s\<lparr>fgColor := 0xFFFFFF\<rparr>
      else if c = of_char CHR ''7'' then s\<lparr>fgColor := 0xAAAAAA\<rparr>
      else if c = of_char CHR ''8'' then s\<lparr>fgColor := 0x555555\<rparr>
      else s)"

text \<open>
  \<open>__writeChar\<close>, \<open>__write\<close> and \<open>gTerminal.writechar\<close> call each other: a full screen makes \<open>writechar\<close> report
  \<open>clear\<close> on the serial port. The shared text of the first two takes what the terminal does with a character as
  the argument \<open>tw\<close>; the cycle ends because the report does not go to the terminal.
\<close>

definition put_char :: "(u8 \<Rightarrow> 'z console_scheme \<Rightarrow> 'z console_scheme option) \<Rightarrow> u8 \<Rightarrow> bool \<Rightarrow> bool \<Rightarrow>
    'z console_scheme \<Rightarrow> 'z console_scheme option" where
  "put_char tw c serial terminal s =
     Option.bind (if serial then serial_write c s else Some s)
       (\<lambda>s. if terminal then tw c s else Some s)"

definition writeChar_via :: "(u8 \<Rightarrow> 'z console_scheme \<Rightarrow> 'z console_scheme option) \<Rightarrow> u8 \<Rightarrow> bool \<Rightarrow> bool \<Rightarrow>
    'z console_scheme \<Rightarrow> 'z console_scheme option" where
  "writeChar_via tw c serial terminal s =
     (if c = of_char CHR ''$'' then Some (s\<lparr>currentlyReadingAnything := True\<rparr>)
      else if currentlyReadingAnything s then
        if \<not> currentlyReadingColor s
        then Some (if c = of_char CHR ''c'' then s\<lparr>currentlyReadingColor := True\<rparr> else s)
        else Some ((set_color c s)\<lparr>currentlyReadingAnything := False, currentlyReadingColor := False\<rparr>)
      else put_char tw c serial terminal s)"

text \<open>\<open>kprintf_serial("clear")\<close>: a format without specifiers is written character by character.\<close>

fun write_plain :: "u8 list \<Rightarrow> 'z console_scheme \<Rightarrow> 'z console_scheme option" where
  "write_plain [] s = Some s"
| "write_plain (c # cs) s =
     Option.bind (writeChar_via (\<lambda>_ _. None) c True False s) (write_plain cs)"

definition chars :: "string \<Rightarrow> u8 list" where
  "chars = map of_char"

section \<open>Terminal\<close>

definition Terminal_init :: "'z console_scheme \<Rightarrow> 'z console_scheme" where
  "Terminal_init s =
     (let cpl = ucast (fb_pitch (gFramebuffer s) div 4 div 8 - 1);
          ml = ucast (fb_height (gFramebuffer s) div 16 - 1)
      in s\<lparr>charsPerLine := (if cpl > 256 then 256 else cpl), maxLines := (if ml > 128 then 128 else ml)\<rparr>)"

text \<open>\<open>char\<close> is signed: only the codes 32 to 127 are drawn.\<close>

definition writechar :: "u8 \<Rightarrow> 'z console_scheme \<Rightarrow> 'z console_scheme option" where
  "writechar c s =
     (let s = (if sint c > 31 then drawChar c (charX s * 8) (charY s * 16) (fgColor s) s else s);
          s = s\<lparr>charX := charX s + 1\<rparr>
      in if charX s > charsPerLine s \<or> c = of_char CHR 0x0A then
           let s = s\<lparr>charX := 0, charY := charY s + 1\<rparr>
           in if charY s > maxLines s then
                Option.bind (write_plain (chars ''clear'') s) (\<lambda>s.
                  let fb = gFramebuffer s in
                  Some (s\<lparr>vram := memset (vram s) (fb_address fb) 0 (fb_width fb * fb_height fb * ucast (fb_bpp fb) div 8),
                          charX := 0, charY := 0\<rparr>))
              else Some s
         else Some s)"

fun Terminal_write :: "u8 list \<Rightarrow> 'z console_scheme \<Rightarrow> 'z console_scheme option" where
  "Terminal_write [] s = Some s"
| "Terminal_write (c # cs) s = Option.bind (writechar c s) (Terminal_write cs)"

definition Terminal_writeln :: "u8 list \<Rightarrow> 'z console_scheme \<Rightarrow> 'z console_scheme option" where
  "Terminal_writeln str s = Option.bind (Terminal_write str s) (writechar (of_char CHR 0x0A))"

section \<open>Formatted output\<close>

definition writeChar :: "u8 \<Rightarrow> bool \<Rightarrow> bool \<Rightarrow> 'z console_scheme \<Rightarrow> 'z console_scheme option" where
  "writeChar = writeChar_via writechar"

partial_function (option) write_str :: "bool \<Rightarrow> bool \<Rightarrow> u8 list \<Rightarrow> 'z console_scheme \<Rightarrow> 'z console_scheme option" where
  "write_str serial terminal str s = (case str of
       [] \<Rightarrow> Some s
     | c # cs \<Rightarrow>
         if c = of_char CHR ''$'' then write_str serial terminal (c # cs) (s\<lparr>currentlyReadingAnything := True\<rparr>)
         else if currentlyReadingAnything s then
           if \<not> currentlyReadingColor s
           then write_str serial terminal (c # cs) (if c = of_char CHR ''c'' then s\<lparr>currentlyReadingColor := True\<rparr> else s)
           else write_str serial terminal (c # cs)
                  ((set_color c s)\<lparr>currentlyReadingAnything := False, currentlyReadingColor := False\<rparr>)
         else Option.bind (put_char writechar c serial terminal s) (write_str serial terminal cs))"

text \<open>The variable arguments: numbers, and strings as their characters.\<close>

datatype varg = VNum u64 | VStr "u8 list"

text \<open>
  The local buffers of \<open>_kprintf\<close>: \<open>buf\<close> at 0 and \<open>newBuf\<close> at 64 of a memory of their own. \<open>read_string\<close> are the
  characters up to the terminator.
\<close>

partial_function (option) read_string :: "mem \<Rightarrow> u64 \<Rightarrow> u8 list option" where
  "read_string m a = (if m a = 0 then Some [] else Option.bind (read_string m (a + 1)) (\<lambda>cs. Some (m a # cs)))"

definition buffer_text :: "(u64 \<times> mem) option \<Rightarrow> u8 list option" where
  "buffer_text r = Option.bind r (\<lambda>(p, m). read_string m p)"

definition hex_text :: "(u64 \<times> mem) option \<Rightarrow> u8 list option" where
  "hex_text r = Option.bind r (\<lambda>(buf, m). Option.bind (strlen m buf) (\<lambda>len.
     let m = put_bytes m 64 (replicate 16 (of_char CHR ''0'') @ [0]);
         m = memcpy m (64 + ucast (16 - len)) buf (ucast len)
     in read_string m 64))"

definition local_mem :: mem where
  "local_mem = (\<lambda>_. 0)"

definition take_num :: "varg list \<Rightarrow> (u64 \<Rightarrow> 'a option) \<Rightarrow> (varg list \<Rightarrow> 'a \<Rightarrow> 'b res option) \<Rightarrow> 'b res option" where
  "take_num vargs f k = (case vargs of
       VNum v # vargs \<Rightarrow> Option.bind (f v) (k vargs)
     | _ \<Rightarrow> Some (Inl (Undefined ''va_arg'')))"

text \<open>One conversion: what follows is decided by the character after \<open>%\<close>. Letters without a case print nothing.\<close>

definition format_spec :: "u8 \<Rightarrow> bool \<Rightarrow> bool \<Rightarrow> varg list \<Rightarrow> 'z console_scheme \<Rightarrow> (varg list \<times> 'z console_scheme) res option" where
  "format_spec c serial terminal vargs s =
     (let out = \<lambda>vargs str. map_option (\<lambda>s. Inr (vargs, s)) (write_str serial terminal str s) in
      if c = of_char CHR ''c'' then take_num vargs Some (\<lambda>vargs v.
        map_option (\<lambda>s. Inr (vargs, s)) (writeChar (ucast v) serial terminal s))
      else if c = of_char CHR ''e'' \<or> c = of_char CHR ''E'' then out vargs (chars ''<formatter e/E not implemented>'')
      else if c = of_char CHR ''f'' then out vargs (chars ''<formatter f not implemented>'')
      else if c = of_char CHR ''o'' then take_num vargs (\<lambda>v. buffer_text (itoa v 0 8 local_mem)) out
      else if c = of_char CHR ''d'' \<or> c = of_char CHR ''i'' then take_num vargs (\<lambda>v. buffer_text (itoa v 0 10 local_mem)) out
      else if c = of_char CHR ''s'' then
        (case vargs of VStr str # vargs \<Rightarrow> out vargs str | _ \<Rightarrow> Some (Inl (Undefined ''va_arg'')))
      else if c = of_char CHR ''u'' then take_num vargs (\<lambda>v. buffer_text (uitoa v 0 10 local_mem)) out
      else if c = of_char CHR ''x'' \<or> c = of_char CHR ''X'' then take_num vargs (\<lambda>v. hex_text (uitoa v 0 16 local_mem)) out
      else if c = of_char CHR ''%'' then
        map_option (\<lambda>s. Inr (vargs, s)) (writeChar (of_char CHR ''%'') serial terminal s)
      else Some (Inr (vargs, s)))"

text \<open>
  The loop of \<open>_kprintf\<close>. A \<open>%\<close> is caught by the first test even while a specifier is read, so the case for
  \<open>%%\<close> is never reached; the test for a terminator inside the loop is never true.
\<close>

fun kprintf_loop :: "bool \<Rightarrow> bool \<Rightarrow> bool \<Rightarrow> u8 list \<Rightarrow> varg list \<Rightarrow> 'z console_scheme \<Rightarrow> 'z console_scheme res option" where
  "kprintf_loop serial terminal isParsingSpecifier [] vargs s = Some (Inr s)"
| "kprintf_loop serial terminal isParsingSpecifier (c # cs) vargs s =
     (if c = of_char CHR ''%'' then kprintf_loop serial terminal True cs vargs s
      else if isParsingSpecifier then
        Option.bind (format_spec c serial terminal vargs s) (\<lambda>r. case r of
            Inl e \<Rightarrow> Some (Inl e)
          | Inr (vargs, s) \<Rightarrow> kprintf_loop serial terminal False cs vargs s)
      else Option.bind (writeChar c serial terminal s) (kprintf_loop serial terminal False cs vargs))"

definition kprintf :: "u8 list \<Rightarrow> varg list \<Rightarrow> 'z console_scheme \<Rightarrow> 'z console_scheme res option" where
  "kprintf str vargs s = kprintf_loop False True False str vargs s"

definition kprintf_both :: "u8 list \<Rightarrow> varg list \<Rightarrow> 'z console_scheme \<Rightarrow> 'z console_scheme res option" where
  "kprintf_both str vargs s = kprintf_loop True True False str vargs s"

definition kprintf_serial :: "u8 list \<Rightarrow> varg list \<Rightarrow> 'z console_scheme \<Rightarrow> 'z console_scheme res option" where
  "kprintf_serial str vargs s = kprintf_loop True False False str vargs s"

end
