(* ===== verification/Structs.thy ===== *)
theory Structs
  imports Prelude
begin

text \<open>
  Structures as the compiler lays them out, for the tables that the firmware provides and the processor reads:
  \<^verbatim>\<open>acpi/acpi.h\<close>, \<^verbatim>\<open>acpi/rsdp.h\<close>, \<^verbatim>\<open>acpi/rsdt.h\<close> and \<^verbatim>\<open>task/tss.h\<close>. A type is its size and its alignment, a
  structure the list of its fields in the order of the declaration. The flag says whether the structure is packed.
\<close>

section \<open>Layout\<close>

type_synonym c_type = "nat \<times> nat"

definition c_int :: "bool \<Rightarrow> nat \<Rightarrow> c_type" where
  "c_int packed n = (n, if packed then 1 else n)"

definition c_array :: "nat \<Rightarrow> c_type \<Rightarrow> c_type" where
  "c_array n t = (n * fst t, snd t)"

definition align_up :: "nat \<Rightarrow> nat \<Rightarrow> nat" where
  "align_up n a = (n + a - 1) div a * a"

primrec offsets_from :: "nat \<Rightarrow> c_type list \<Rightarrow> nat list" where
  "offsets_from off [] = []"
| "offsets_from off (t # ts) = align_up off (snd t) # offsets_from (align_up off (snd t) + fst t) ts"

primrec struct_end :: "nat \<Rightarrow> c_type list \<Rightarrow> nat" where
  "struct_end off [] = off"
| "struct_end off (t # ts) = struct_end (align_up off (snd t) + fst t) ts"

definition c_struct :: "(string \<times> c_type) list \<Rightarrow> c_type" where
  "c_struct fs = (let a = foldr max (map (snd \<circ> snd) fs) 1 in (align_up (struct_end 0 (map snd fs)) a, a))"

definition offset_of :: "(string \<times> c_type) list \<Rightarrow> string \<Rightarrow> nat" where
  "offset_of fs n = (case map_of (zip (map fst fs) (offsets_from 0 (map snd fs))) n of None \<Rightarrow> 0 | Some off \<Rightarrow> off)"

text \<open>Fields follow each other without overlap, inside of the structure.\<close>

lemma align_up_le: "0 < a \<Longrightarrow> n \<le> align_up n a"
proof -
  assume "0 < a"
  then have "(n + a - 1) mod a < a" by simp
  moreover have "(n + a - 1) div a * a + (n + a - 1) mod a = n + a - 1" by simp
  ultimately show ?thesis unfolding align_up_def by linarith
qed

lemma struct_end_ge:
  assumes "\<forall>t\<in>set ts. 0 < snd t"
  shows "off \<le> struct_end off ts"
  using assms
proof (induction ts arbitrary: off)
  case (Cons t ts)
  then have "off \<le> align_up off (snd t) + fst t" using align_up_le [of "snd t" off] by simp
  also have "\<dots> \<le> struct_end (align_up off (snd t) + fst t) ts" using Cons.prems by (intro Cons.IH) simp
  finally show ?case by simp
qed simp

lemma align_up_mod: "0 < a \<Longrightarrow> align_up n a mod a = 0"
  by (simp add: align_up_def)

lemma offsets_separate:
  assumes "\<forall>t\<in>set ts. 0 < snd t" and "i < length ts"
  shows "off \<le> offsets_from off ts ! i \<and> offsets_from off ts ! i mod snd (ts ! i) = 0 \<and>
    (\<forall>j<i. offsets_from off ts ! j + fst (ts ! j) \<le> offsets_from off ts ! i) \<and>
    offsets_from off ts ! i + fst (ts ! i) \<le> struct_end off ts"
  using assms
proof (induction ts arbitrary: off i)
  case (Cons t ts)
  let ?e = "align_up off (snd t) + fst t"
  have f: "0 < snd t" "\<forall>t\<in>set ts. 0 < snd t" using Cons.prems by simp_all
  note le = align_up_le [OF f(1), of off] and al = align_up_mod [OF f(1), of off] and ge = struct_end_ge [OF f(2), of ?e]
  show ?case
  proof (cases i)
    case 0
    with le al ge show ?thesis by simp
  next
    case (Suc k)
    with Cons.IH [OF f(2), of k ?e] Cons.prems(2) le show ?thesis by (auto simp: less_Suc_eq_0_disj)
  qed
qed simp

section \<open>The structures\<close>

definition ACPISDTHeader :: "bool \<Rightarrow> (string \<times> c_type) list" where
  "ACPISDTHeader packed =
     [(''Signature'', c_array 4 (c_int packed 1)), (''Length'', c_int packed 4), (''Revision'', c_int packed 1),
      (''Checksum'', c_int packed 1), (''OEMID'', c_array 6 (c_int packed 1)), (''OEMTableID'', c_array 8 (c_int packed 1)),
      (''OEMRevision'', c_int packed 4), (''CreatorID'', c_int packed 4), (''CreatorRevision'', c_int packed 4)]"

definition GenericAddressStructure :: "bool \<Rightarrow> (string \<times> c_type) list" where
  "GenericAddressStructure packed =
     [(''AddressSpace'', c_int packed 1), (''BitWidth'', c_int packed 1), (''BitOffset'', c_int packed 1),
      (''AccessSize'', c_int packed 1), (''Address'', c_int packed 8)]"

definition FADT :: "bool \<Rightarrow> (string \<times> c_type) list" where
  "FADT packed = (let u8 = c_int packed 1; u16 = c_int packed 2; u32 = c_int packed 4; u64 = c_int packed 8;
         gas = c_struct (GenericAddressStructure packed) in
     [(''h'', c_struct (ACPISDTHeader packed)), (''FirmwareCtrl'', u32), (''Dsdt'', u32), (''Reserved'', u8),
      (''PreferredPowerManagementProfile'', u8), (''SCI_Interrupt'', u16), (''SMI_CommandPort'', u32), (''AcpiEnable'', u8),
      (''AcpiDisable'', u8), (''S4BIOS_REQ'', u8), (''PSTATE_Control'', u8), (''PM1aEventBlock'', u32), (''PM1bEventBlock'', u32),
      (''PM1aControlBlock'', u32), (''PM1bControlBlock'', u32), (''PM2ControlBlock'', u32), (''PMTimerBlock'', u32),
      (''GPE0Block'', u32), (''GPE1Block'', u32), (''PM1EventLength'', u8), (''PM1ControlLength'', u8), (''PM2ControlLength'', u8),
      (''PMTimerLength'', u8), (''GPE0Length'', u8), (''GPE1Length'', u8), (''GPE1Base'', u8), (''CStateControl'', u8),
      (''WorstC2Latency'', u16), (''WorstC3Latency'', u16), (''FlushSize'', u16), (''FlushStride'', u16), (''DutyOffset'', u8),
      (''DutyWidth'', u8), (''DayAlarm'', u8), (''MonthAlarm'', u8), (''Century'', u8), (''BootArchitectureFlags'', u16),
      (''Reserved2'', u8), (''Flags'', u32), (''ResetReg'', gas), (''ResetValue'', u8), (''Reserved3'', c_array 3 u8),
      (''X_FirmwareControl'', u64), (''X_Dsdt'', u64), (''X_PM1aEventBlock'', gas), (''X_PM1bEventBlock'', gas),
      (''X_PM1aControlBlock'', gas), (''X_PM1bControlBlock'', gas), (''X_PM2ControlBlock'', gas), (''X_PMTimerBlock'', gas),
      (''X_GPE0Block'', gas), (''X_GPE1Block'', gas)])"

text \<open>The array at the end of \<open>RSDT\<close> has no size of its own.\<close>

definition RSDT :: "(string \<times> c_type) list" where
  "RSDT = [(''h'', c_struct (ACPISDTHeader False)), (''PointerToOtherSDT'', c_array 0 (c_int False 4))]"

definition RSDPDescriptor :: "(string \<times> c_type) list" where
  "RSDPDescriptor = [(''Signature'', c_array 8 (c_int True 1)), (''Checksum'', c_int True 1), (''OEMID'', c_array 6 (c_int True 1)),
     (''Revision'', c_int True 1), (''RsdtAddress'', c_int True 4)]"

definition RSDPDescriptor20 :: "(string \<times> c_type) list" where
  "RSDPDescriptor20 = [(''firstPart'', c_struct RSDPDescriptor), (''Length'', c_int True 4), (''XsdtAddress'', c_int True 8),
     (''ExtendedChecksum'', c_int True 1), (''reserved'', c_array 3 (c_int True 1))]"

definition TSSEntry :: "(string \<times> c_type) list" where
  "TSSEntry = [(''prev_tss'', c_int True 4), (''rsp0'', c_int True 8), (''rsp1'', c_int True 8), (''rsp2'', c_int True 8),
     (''reserved0'', c_int True 8), (''ist'', c_array 7 (c_int True 8)), (''reserved1'', c_int True 8), (''reserved2'', c_int True 2),
     (''iomap_base'', c_int True 2)]"

lemmas struct_defs = ACPISDTHeader_def GenericAddressStructure_def FADT_def RSDT_def RSDPDescriptor_def RSDPDescriptor20_def
  TSSEntry_def

lemmas layout_defs = c_struct_def offset_of_def c_int_def c_array_def align_up_def

lemma struct_sizes:
  "c_struct (ACPISDTHeader packed) = (36, if packed then 1 else 4)" "c_struct (GenericAddressStructure False) = (16, 8)"
  "c_struct (GenericAddressStructure True) = (12, 1)" "c_struct RSDPDescriptor = (20, 1)" "c_struct RSDPDescriptor20 = (36, 1)"
  "c_struct TSSEntry = (104, 1)"
  by (cases packed) (simp_all add: struct_defs layout_defs)

lemma table_offsets:
  "offset_of (ACPISDTHeader packed) ''Signature'' = 0" "offset_of (ACPISDTHeader packed) ''Length'' = 4"
  "offset_of RSDT ''PointerToOtherSDT'' = 36" "offset_of RSDPDescriptor ''Signature'' = 0" "offset_of RSDPDescriptor ''Revision'' = 15"
  "offset_of RSDPDescriptor ''RsdtAddress'' = 16" "offset_of TSSEntry ''rsp0'' = 4" "offset_of TSSEntry ''iomap_base'' = 102"
  by (cases packed; simp add: struct_defs layout_defs)+

section \<open>Properties\<close>

lemma FADT_read_offsets: "map (offset_of (FADT False)) [''SMI_CommandPort'', ''AcpiEnable'', ''PM1aControlBlock''] = [48, 52, 64]"
  by code_simp

text \<open>
  The table that the firmware writes, from its specification (ACPI, Fixed ACPI Description Table): the byte offset of each field, under
  the names of the code.
\<close>

definition FADT_firmware :: "(string \<times> nat) list" where
  "FADT_firmware =
     [(''h'', 0), (''FirmwareCtrl'', 36), (''Dsdt'', 40), (''Reserved'', 44), (''PreferredPowerManagementProfile'', 45),
      (''SCI_Interrupt'', 46), (''SMI_CommandPort'', 48), (''AcpiEnable'', 52), (''AcpiDisable'', 53), (''S4BIOS_REQ'', 54),
      (''PSTATE_Control'', 55), (''PM1aEventBlock'', 56), (''PM1bEventBlock'', 60), (''PM1aControlBlock'', 64),
      (''PM1bControlBlock'', 68), (''PM2ControlBlock'', 72), (''PMTimerBlock'', 76), (''GPE0Block'', 80), (''GPE1Block'', 84),
      (''PM1EventLength'', 88), (''PM1ControlLength'', 89), (''PM2ControlLength'', 90), (''PMTimerLength'', 91),
      (''GPE0Length'', 92), (''GPE1Length'', 93), (''GPE1Base'', 94), (''CStateControl'', 95), (''WorstC2Latency'', 96),
      (''WorstC3Latency'', 98), (''FlushSize'', 100), (''FlushStride'', 102), (''DutyOffset'', 104), (''DutyWidth'', 105),
      (''DayAlarm'', 106), (''MonthAlarm'', 107), (''Century'', 108), (''BootArchitectureFlags'', 109), (''Reserved2'', 111),
      (''Flags'', 112), (''ResetReg'', 116), (''ResetValue'', 128), (''Reserved3'', 129), (''X_FirmwareControl'', 132),
      (''X_Dsdt'', 140), (''X_PM1aEventBlock'', 148), (''X_PM1bEventBlock'', 160), (''X_PM1aControlBlock'', 172),
      (''X_PM1bControlBlock'', 184), (''X_PM2ControlBlock'', 196), (''X_PMTimerBlock'', 208), (''X_GPE0Block'', 220),
      (''X_GPE1Block'', 232)]"

definition misplaced :: "(string \<times> c_type) list \<Rightarrow> (string \<times> nat) list \<Rightarrow> (string \<times> nat) list" where
  "misplaced fs spec = filter (\<lambda>(n, off). offset_of fs n \<noteq> off) spec"

lemma FADT_misplaced:
  "misplaced (FADT False) FADT_firmware = dropWhile (\<lambda>(n, off). n \<noteq> ''BootArchitectureFlags'') FADT_firmware"
  by code_simp

lemma FADT_misplaced_length: "length (dropWhile (\<lambda>(n, off). n \<noteq> ''BootArchitectureFlags'') FADT_firmware) = 16"
  by code_simp


end
