(* ===== verification/Tables.thy ===== *)
theory Tables
  imports Console Structs
begin

text \<open>
  The processor tables: \<^verbatim>\<open>kernel/idt/ints.cpp\<close>, \<^verbatim>\<open>kernel/gdt/gdt.cpp\<close> and \<^verbatim>\<open>kernel/task/tss.h\<close>. The
  registers that the assembly stubs load are fields of the state. Addresses that the linker chooses (the
  interrupt stubs, the tables, the message buffer) are arguments.
\<close>

section \<open>Interrupt descriptor table\<close>

datatype ReservedVectors =
    DivideByZero | Debug | NonMaskableInterrupt | Breakpoint | Overflow | BoundRangeExceeded | InvalidOpcode
  | DeviceNotAvailable | DoubleFault | CoprocessorSegmentOverrun | InvalidTSS | SegmentNotPresent
  | StackSegmentFault | GeneralProtectionFault | PageFault | Reserved15 | x87FloatingPointException
  | AlignmentCheck | MachineCheck | SIMDException

primrec vector_value :: "ReservedVectors \<Rightarrow> u64" where
  "vector_value DivideByZero = 0"
| "vector_value Debug = 1"
| "vector_value NonMaskableInterrupt = 2"
| "vector_value Breakpoint = 3"
| "vector_value Overflow = 4"
| "vector_value BoundRangeExceeded = 5"
| "vector_value InvalidOpcode = 6"
| "vector_value DeviceNotAvailable = 7"
| "vector_value DoubleFault = 8"
| "vector_value CoprocessorSegmentOverrun = 9"
| "vector_value InvalidTSS = 10"
| "vector_value SegmentNotPresent = 11"
| "vector_value StackSegmentFault = 12"
| "vector_value GeneralProtectionFault = 13"
| "vector_value PageFault = 14"
| "vector_value Reserved15 = 15"
| "vector_value x87FloatingPointException = 16"
| "vector_value AlignmentCheck = 17"
| "vector_value MachineCheck = 18"
| "vector_value SIMDException = 19"

record InterruptDescriptor =
  addressLow :: u16
  selector :: u16
  ist :: u8
  flags :: u8
  addressMid :: u16
  addressHigh :: u32
  reserved :: u32

text \<open>\<open>idt[256]\<close>: the index is a \<open>u8\<close>, so every access is in range.\<close>

type_synonym idt = "u8 \<Rightarrow> InterruptDescriptor"

definition setIdtEntry :: "u8 \<Rightarrow> u64 \<Rightarrow> u8 \<Rightarrow> idt \<Rightarrow> idt" where
  "setIdtEntry vector handlerAddr dpl t =
     t(vector := (t vector)\<lparr>
         addressLow := ucast (handlerAddr AND 0xFFFF),
         addressMid := ucast (drop_bit 16 handlerAddr AND 0xFFFF),
         addressHigh := ucast (drop_bit 32 handlerAddr),
         selector := 0x8,
         flags := 0b1110 OR push_bit 5 (dpl AND 0b11) OR push_bit 7 1,
         ist := 0\<rparr>)"

definition initInts :: "u64 \<Rightarrow> idt \<Rightarrow> idt" where
  "initInts vector_0_handler t = fold (\<lambda>i. setIdtEntry (ucast i) (vector_0_handler + i * 16) 0) (count_upto 256) t"

section \<open>Dispatch\<close>

record CPUStatus =
  r15 :: u64
  r14 :: u64
  r13 :: u64
  r12 :: u64
  r11 :: u64
  r10 :: u64
  r9 :: u64
  r8 :: u64
  rdx :: u64
  rcx :: u64
  rbx :: u64
  rax :: u64
  vectorNumber :: u64
  errorCode :: u64
  iret_rip :: u64
  iret_cs :: u64
  iret_flags :: u64
  iret_rsp :: u64
  iret_ss :: u64

text \<open>
  \<open>loadIDT\<close> on the stack: \<open>idtReg\<close> and \<open>idtRegPtr\<close> are the addresses of its locals. The operand of \<open>lidt\<close>, ten bytes, is
  the variable \<open>idtRegPtr\<close>; nothing calls the function.
\<close>

record IDTR =
  idt_limit :: u16
  idt_base :: u64

definition loadIDT :: "u64 \<Rightarrow> u64 \<Rightarrow> u64 \<Rightarrow> mem \<Rightarrow> IDTR \<times> mem" where
  "loadIDT idtAddr idtReg idtRegPtr m =
     (let m = store_le 2 m idtReg 0xFFF;
          m = store64 m (idtReg + 2) idtAddr;
          m = store64 m idtRegPtr idtReg
      in (\<lparr>idt_limit = ucast (load_le 2 m idtRegPtr), idt_base = load64 m (idtRegPtr + 2)\<rparr>, m))"

text \<open>The lambda \<open>append\<close>: the literal is copied without its terminator.\<close>

definition append_text :: "u64 \<Rightarrow> string \<Rightarrow> u64 \<times> mem \<Rightarrow> u64 \<times> mem" where
  "append_text buf str = (\<lambda>(strOffset, m).
     (strOffset + of_nat (length str), put_bytes m (buf + strOffset) (chars str)))"

definition getPageFaultString :: "u64 \<Rightarrow> u64 \<Rightarrow> mem \<Rightarrow> mem" where
  "getPageFaultString buf code m =
     (let present = code AND 1;
          write = drop_bit 1 code AND 1;
          user = drop_bit 2 code AND 1;
          instructionFetch = drop_bit 4 code AND 1;
          st = (0, m);
          st = append_text buf (if user = 0 then ''Supervisor Process '' else ''User Process '') st;
          st = append_text buf (if write = 0 then ''read from '' else ''write to '') st;
          st = append_text buf (if instructionFetch = 0 then ''data '' else ''instruction '') st;
          st = append_text buf (if present = 0 then ''non-present page entry'' else ''and caused a protection fault'') st
      in snd st)"

definition interruptDispatch :: "u64 \<Rightarrow> CPUStatus \<Rightarrow> 'z console_scheme \<Rightarrow> 'z console_scheme res option" where
  "interruptDispatch buf ctx s =
     (if vectorNumber ctx = vector_value GeneralProtectionFault then Some (Inl (Panic ''General Protection Fault''))
      else if vectorNumber ctx = vector_value PageFault then
        Option.bind (read_string (getPageFaultString buf (errorCode ctx) (vram s)) buf) (\<lambda>str.
          Some (Inl (Panic (map (char_of \<circ> unat) str))))
      else kprintf_serial (chars ''Unexpected interrupt. Vector: %x (%d)'')
             [VNum (vectorNumber ctx), VNum (vectorNumber ctx)] s)"

section \<open>Global descriptor table\<close>

record TSSDescriptor =
  limit_low :: u16
  base_low :: u16
  base_mid :: u8
  tss_type :: u8
  tss_zero :: u8
  tss_dpl :: u8
  tss_p :: u8
  limit_high :: u8
  tss_avl :: u8
  tss_l :: u8
  tss_db :: u8
  tss_g :: u8
  base_high :: u8
  base_upper :: u32
  tss_reserved :: u32

definition TSS_ENTRY :: "u64 \<Rightarrow> u64 \<Rightarrow> TSSDescriptor" where
  "TSS_ENTRY base limit = \<lparr>
     limit_low = ucast (limit AND 0xFFFF),
     base_low = ucast (base AND 0xFFFF),
     base_mid = ucast (drop_bit 16 base AND 0xFF),
     tss_type = 0x9, tss_zero = 0, tss_dpl = 0, tss_p = 1,
     limit_high = ucast (drop_bit 16 limit AND 0x0F),
     tss_avl = 0, tss_l = 0, tss_db = 0, tss_g = 1,
     base_high = ucast (drop_bit 24 base AND 0xFF),
     base_upper = ucast (drop_bit 32 base AND 0xFFFFFFFF),
     tss_reserved = 0\<rparr>"

record GDTEntry =
  Limit0 :: u16
  Base0 :: u16
  Base1 :: u8
  AccessByte :: u8
  Limit1_Flags :: u8
  Base2 :: u8

text \<open>The type is aligned to 4096 bytes, so that the object is padded to this size; a static object is padded with zeros.\<close>

record GDT =
  Null :: GDTEntry
  KernelCode :: GDTEntry
  KernelData :: GDTEntry
  UserNull :: GDTEntry
  UserCode :: GDTEntry
  UserData :: GDTEntry
  TSS :: GDTEntry
  gdt_padding :: "u8 list"

definition entry :: "u8 \<Rightarrow> u8 \<Rightarrow> GDTEntry" where
  "entry access fl = \<lparr>Limit0 = 0, Base0 = 0, Base1 = 0, AccessByte = access, Limit1_Flags = fl, Base2 = 0\<rparr>"

definition defaultGDT :: GDT where
  "defaultGDT = \<lparr>
     Null = entry 0x00 0x00,
     KernelCode = entry 0x9a 0xa0,
     KernelData = entry 0x92 0xa0,
     UserNull = entry 0x00 0x00,
     UserCode = entry 0x9a 0xa0,
     UserData = entry 0x92 0xa0,
     TSS = entry 0x00 0x00,
     gdt_padding = replicate (4096 - 56) 0\<rparr>"

text \<open>\<open>*(struct GDTEntry* )&tssDesc\<close>: the first 8 of the 16 bytes; bit fields fill a byte from its low end.\<close>

definition first_half :: "TSSDescriptor \<Rightarrow> GDTEntry" where
  "first_half d = \<lparr>
     Limit0 = limit_low d, Base0 = base_low d, Base1 = base_mid d,
     AccessByte = tss_type d OR push_bit 4 (tss_zero d) OR push_bit 5 (tss_dpl d) OR push_bit 7 (tss_p d),
     Limit1_Flags = limit_high d OR push_bit 4 (tss_avl d) OR push_bit 5 (tss_l d) OR push_bit 6 (tss_db d) OR push_bit 7 (tss_g d),
     Base2 = base_high d\<rparr>"

record GDTDescriptor =
  gdt_Size :: u16
  gdt_Offset :: u64

text \<open>The state of \<open>gdt_init\<close>: the table, its descriptor and the registers that \<open>loadGDT\<close> and \<open>loadTSS\<close> set.\<close>

record cpu_tables =
  gdt :: GDT
  gdtDescriptor :: GDTDescriptor
  gdtr :: GDTDescriptor
  task_register :: u16

definition loadTSS :: "u16 \<Rightarrow> cpu_tables \<Rightarrow> cpu_tables" where
  "loadTSS sel s = s\<lparr>task_register := sel\<rparr>"

text \<open>\<open>sizeof(struct GDT)\<close> is 4096, the alignment of the type.\<close>

definition gdt_init :: "u64 \<Rightarrow> u64 \<Rightarrow> cpu_tables \<Rightarrow> cpu_tables" where
  "gdt_init tss_addr gdt_addr s =
     (let tssDesc = TSS_ENTRY tss_addr (of_nat (fst (c_struct TSSEntry)));
          s = s\<lparr>gdt := (gdt s)\<lparr>TSS := first_half tssDesc\<rparr>\<rparr>;
          s = s\<lparr>gdtDescriptor := \<lparr>gdt_Size = 4096 - 1, gdt_Offset = gdt_addr\<rparr>\<rparr>;
          s = s\<lparr>gdtr := gdtDescriptor s\<rparr>
      in loadTSS 0x30 s)"

end
