(* ===== verification/Ports_Props.thy ===== *)
theory Ports_Props
  imports Ports
begin

text \<open>Properties of the timer and of the serial port.\<close>

section \<open>The interval timer\<close>

text \<open>The calls that change the timer, from the initial state on.\<close>

inductive pit_step :: "'z pit_scheme \<Rightarrow> 'z pit_scheme \<Rightarrow> bool" where
  set_divisor: "pit_step s (setDivisor d s)"
| set_frequency: "setFrequency f s = Inr t \<Longrightarrow> pit_step s t"
| tick: "tick s = Inr t \<Longrightarrow> pit_step s t"

lemma setDivisor_divisor: "divisor (setDivisor d s) = (if d < 100 then 100 else d)"
  by (simp add: setDivisor_def Let_def outb_def io_wait_def)

lemma setDivisor_time [simp]: "timeSinceBootNs (setDivisor d s) = timeSinceBootNs s"
  by (simp add: setDivisor_def Let_def outb_def io_wait_def)

lemma unat_lt_16: "unat (d :: u16) < 65536"
proof -
  have "unat d < 2 ^ LENGTH(16)" by (rule unsigned_less)
  then show ?thesis by simp
qed

lemma unat_ucast_16_64: "unat (ucast (d :: u16) :: u64) = unat d"
  using unat_lt_16 [of d] by (simp add: unsigned_ucast_eq take_bit_nat_eq_self)

lemma divisor_ge:
  assumes "100 \<le> divisor s"
  shows "100 \<le> unat (divisor s)" and "unat (divisor s) \<le> 65535" and "divisor s \<noteq> 0"
    and "unat (ucast (divisor s) :: u64) = unat (divisor s)"
proof -
  show u: "100 \<le> unat (divisor s)" using assms by (simp add: word_le_nat_alt)
  then show "divisor s \<noteq> 0" by auto
  show "unat (divisor s) \<le> 65535" using unat_lt_16 [of "divisor s"] by simp
  show "unat (ucast (divisor s) :: u64) = unat (divisor s)" by (rule unat_ucast_16_64)
qed

lemma frequency_bounds:
  assumes "100 \<le> divisor s"
  shows "getFrequency s = Inr (baseFrequency div ucast (divisor s))"
    and "unat (baseFrequency div ucast (divisor s)) = 1193182 div unat (divisor s)"
    and "18 \<le> 1193182 div unat (divisor s)" and "1193182 div unat (divisor s) \<le> 11931"
proof -
  note d = divisor_ge [OF assms]
  show "getFrequency s = Inr (baseFrequency div ucast (divisor s))" using d(3) by (simp add: getFrequency_def)
  show "unat (baseFrequency div ucast (divisor s)) = 1193182 div unat (divisor s)"
    by (simp add: unat_div d(4) baseFrequency_def)
  have "1193182 div 65535 \<le> 1193182 div unat (divisor s)" using d(1,2) by (intro div_le_mono2) simp_all
  then show "18 \<le> 1193182 div unat (divisor s)" by simp
  have "1193182 div unat (divisor s) \<le> 1193182 div (100 :: nat)" using d(1) by (intro div_le_mono2) simp_all
  then show "1193182 div unat (divisor s) \<le> 11931" by simp
qed

lemma tick_advance:
  assumes "100 \<le> divisor s"
  obtains d where "tick s = Inr (s\<lparr>timeSinceBootNs := timeSinceBootNs s + d\<rparr>)"
    and "83815 \<le> unat d" and "unat d \<le> 55555555"
proof -
  note f = frequency_bounds [OF assms]
  let ?f = "baseFrequency div ucast (divisor s) :: u64" and ?n = "1193182 div unat (divisor s)"
  have nz: "?f \<noteq> 0" using f(2,3) by auto
  have "unat (1000000000 div ?f) = 1000000000 div ?n" by (simp add: unat_div [of 1000000000] f(2))
  moreover have "1000000000 div 11931 \<le> 1000000000 div ?n" using f(3,4) by (intro div_le_mono2) simp_all
  moreover have "1000000000 div ?n \<le> 1000000000 div (18 :: nat)" using f(3) by (intro div_le_mono2) simp_all
  ultimately show thesis using nz by (intro that [of "1000000000 div ?f"]) (simp_all add: tick_def f(1))
qed

lemma pit_step_divisor: "pit_step s t \<Longrightarrow> 100 \<le> divisor s \<Longrightarrow> 100 \<le> divisor t"
proof (induction rule: pit_step.induct)
  case (set_divisor s d)
  then show ?case by (simp add: setDivisor_divisor linorder_not_less)
next
  case (set_frequency f s t)
  then show ?case by (auto simp: setFrequency_def setDivisor_divisor linorder_not_less split: if_splits)
next
  case (tick s t)
  obtain d where "tick s = Inr (s\<lparr>timeSinceBootNs := timeSinceBootNs s + d\<rparr>)"
    using tick_advance [OF tick(2)] .
  with tick(1) have "t = s\<lparr>timeSinceBootNs := timeSinceBootNs s + d\<rparr>" by simp
  with tick(2) show ?case by simp
qed

definition pit_boot :: pit where
  "pit_boot = \<lparr>port_out = [], reads = 0, device = (\<lambda>_ _. 0), timeSinceBootNs = 0, divisor = 65535\<rparr>"

text \<open>C40: after any sequence of timer calls from a state with divisor at least 100, as at boot, the
  divisor is still at least 100, so no call of \<open>tick\<close> divides by zero, and each tick advances the
  clock by between 83815 and 55555555 nanoseconds.\<close>

theorem pit_tick_never_faults:
  assumes "pit_step\<^sup>*\<^sup>* s t" and "100 \<le> divisor s"
  shows "100 \<le> divisor t \<and> (\<exists>d. tick t = Inr (t\<lparr>timeSinceBootNs := timeSinceBootNs t + d\<rparr>) \<and>
     83815 \<le> unat d \<and> unat d \<le> 55555555)"
proof -
  have "100 \<le> divisor t" using assms by (induction rule: rtranclp_induct) (auto dest: pit_step_divisor)
  then show ?thesis by (metis tick_advance)
qed

theorem pit_tick_never_faults_witness:
  "\<exists>d. tick (setDivisor 3 pit_boot) = Inr ((setDivisor 3 pit_boot)\<lparr>timeSinceBootNs := 0 + d\<rparr>) \<and> unat d \<le> 55555555"
proof -
  have "pit_step\<^sup>*\<^sup>* pit_boot (setDivisor 3 pit_boot)" by (meson pit_step.set_divisor r_into_rtranclp)
  moreover have "100 \<le> divisor pit_boot" by (simp add: pit_boot_def)
  ultimately show ?thesis
    using pit_tick_never_faults [of pit_boot "setDivisor 3 pit_boot"] by (auto simp: pit_boot_def)
qed

lemma setDivisor_bytes:
  fixes s :: "'z pit_scheme"
  assumes "100 \<le> d"
  shows "\<exists>lo hi. port_out (setDivisor d s) = port_out s @ [(0x40, lo), (0x80, 0), (0x40, hi)] \<and>
     unat lo + 256 * unat hi = unat d"
proof -
  let ?lo = "ucast (d AND 0x00ff) :: u8" and ?hi = "ucast (drop_bit 8 (d AND 0xff00)) :: u8"
  have m: "(0x00ff :: u16) = mask 8" "(0xff00 :: u16) = push_bit 8 (mask 8)" by (simp_all add: mask_eq_exp_minus_1)
  have "?lo = ucast d" "?hi = ucast (drop_bit 8 d)"
    unfolding m by (rule bit_word_eqI; auto simp: bit_simps)+
  moreover have "unat (ucast d :: u8) = unat d mod 256" by (simp add: unsigned_ucast_eq take_bit_eq_mod)
  moreover have "unat (ucast (drop_bit 8 d) :: u8) = unat d div 256"
  proof -
    have "unat (drop_bit 8 d) = unat d div 256" by (simp add: drop_bit_eq_div unat_div)
    moreover have "unat d div 256 < 256" using unat_lt_16 [of d] by (simp add: less_mult_imp_div_less)
    ultimately show ?thesis by (simp add: unsigned_ucast_eq take_bit_nat_eq_self)
  qed
  ultimately have "unat ?lo + 256 * unat ?hi = unat d" by simp
  moreover have "port_out (setDivisor d s) = port_out s @ [(0x40, ?lo), (0x80, 0), (0x40, ?hi)]"
  proof -
    have "\<not> d < 100" using assms by (simp only: linorder_not_less)
    then show ?thesis by (simp add: setDivisor_def Let_def outb_def io_wait_def)
  qed
  ultimately show ?thesis by blast
qed

text \<open>For a frequency from 19 to 11931 Hz, \<open>setFrequency\<close> programs the exact quotient, low byte
  first, and the frequency that results is at least the requested one.\<close>

theorem setFrequency_in_range:
  fixes s :: "'z pit_scheme"
  assumes "19 \<le> unat f" and "unat f \<le> 11931"
  shows "\<exists>t g lo hi. setFrequency f s = Inr t \<and> unat (divisor t) = 1193182 div unat f \<and>
     port_out t = port_out s @ [(0x40, lo), (0x80, 0), (0x40, hi)] \<and> unat lo + 256 * unat hi = 1193182 div unat f \<and>
     getFrequency t = Inr g \<and> unat f \<le> unat g"
proof -
  let ?q = "1193182 div unat f" and ?d = "ucast (baseFrequency div f) :: u16"
  have "1193182 div (11931 :: nat) \<le> ?q" using assms by (intro div_le_mono2) simp_all
  moreover have "?q \<le> 1193182 div (19 :: nat)" using assms by (intro div_le_mono2) simp_all
  ultimately have q: "100 \<le> ?q" "?q < 65536" by simp_all
  have "unat (baseFrequency div f) = ?q" by (simp add: unat_div baseFrequency_def)
  then have d: "unat ?d = ?q" using q(2) by (simp add: unsigned_ucast_eq take_bit_nat_eq_self)
  then have ge: "100 \<le> ?d" using q(1) by (simp add: word_le_nat_alt)
  obtain lo hi where b: "port_out (setDivisor ?d s) = port_out s @ [(0x40, lo), (0x80, 0), (0x40, hi)]"
    "unat lo + 256 * unat hi = ?q" using setDivisor_bytes [OF ge, of s] d by auto
  have dv: "divisor (setDivisor ?d s) = ?d" using ge by (auto simp: setDivisor_divisor linorder_not_less [symmetric])
  then have "100 \<le> divisor (setDivisor ?d s)" using ge by simp
  note fb = frequency_bounds(1,2) [OF this]
  have "unat f * ?q \<le> 1193182" by (rule times_div_less_eq_dividend)
  then have "unat f \<le> 1193182 div ?q" using q(1) by (simp add: less_eq_div_iff_mult_less_eq)
  then have "unat f \<le> unat (baseFrequency div ucast ?d)" using fb(2) unfolding dv d by simp
  moreover have "f \<noteq> 0" using assms(1) by auto
  then have "setFrequency f s = Inr (setDivisor ?d s)" by (simp add: setFrequency_def)
  ultimately show ?thesis using b d dv fb(1) by auto
qed

theorem setFrequency_in_range_witness:
  "\<exists>t g. setFrequency 1000 pit_boot = Inr t \<and> unat (divisor t) = 1193 \<and> getFrequency t = Inr g \<and> 1000 \<le> unat g"
  using setFrequency_in_range [of 1000 pit_boot] by auto

text \<open>A request of 1 to 18 Hz is not honoured: the quotient does not fit the 16-bit divisor and is
  truncated, and the resulting frequency is higher than requested. A request of 0 divides by zero.\<close>

theorem setFrequency_truncates:
  fixes s :: "'z pit_scheme"
  shows "setFrequency 0 s = Inl (CpuFault ''division by zero'') \<and>
     (\<forall>f. 1 \<le> unat f \<and> unat f \<le> 18 \<longrightarrow>
       (\<exists>t g. setFrequency f s = Inr t \<and> getFrequency t = Inr g \<and> unat f < unat g))"
proof (intro conjI allI impI)
  show "setFrequency 0 s = Inl (CpuFault ''division by zero'')" by (simp add: setFrequency_def)
  fix f :: u64 assume f: "1 \<le> unat f \<and> unat f \<le> 18"
  define t where "t = setDivisor (ucast (baseFrequency div f)) s"
  have "f \<noteq> 0" using f by auto
  then have r: "setFrequency f s = Inr t" by (simp add: setFrequency_def t_def)
  have "100 \<le> divisor t" by (simp add: t_def setDivisor_divisor linorder_not_less)
  note fb = frequency_bounds [OF this]
  have "unat f < 1193182 div unat (divisor t)"
  proof (cases "unat f = 18")
    case True
    then have "f = 18" by (intro word_eqI_unat) simp
    then have "divisor t = 751" by (simp add: t_def setDivisor_divisor baseFrequency_def)
    then show ?thesis using True by simp
  next
    case False
    then show ?thesis using f fb(3) by simp
  qed
  with r fb(1,2) show "\<exists>t g. setFrequency f s = Inr t \<and> getFrequency t = Inr g \<and> unat f < unat g" by auto
qed

theorem setFrequency_truncates_witness:
  "\<exists>t g. setFrequency 18 pit_boot = Inr t \<and> getFrequency t = Inr g \<and> 18 < unat g"
  using setFrequency_truncates [of pit_boot, THEN conjunct2, rule_format, of 18] by simp

section \<open>Sleeping\<close>

lemma sleep_loop_returns:
  fixes s :: "'z pit_scheme"
  assumes step: "\<And>s :: 'z pit_scheme. timeSinceBootNs (hlt s) = timeSinceBootNs s + d"
    and d: "0 < unat d" and wrap: "unat target + unat d < 2 ^ 64"
  shows "\<exists>t. sleep_loop hlt target s = Some t \<and> unat target \<le> unat (timeSinceBootNs t) \<and>
     (unat (timeSinceBootNs s) \<le> unat target \<longrightarrow> unat (timeSinceBootNs t) < unat target + unat d)"
proof (induction "unat target - unat (timeSinceBootNs s)" arbitrary: s rule: less_induct)
  case less
  show ?case
  proof (cases "timeSinceBootNs s < target")
    case True
    then have lt: "unat (timeSinceBootNs s) < unat target" by (simp add: word_less_nat_alt)
    then have u: "unat (timeSinceBootNs (hlt s)) = unat (timeSinceBootNs s) + unat d"
      using wrap unat_add_no_wrap [of "timeSinceBootNs s" d] by (simp add: step)
    have "unat target - unat (timeSinceBootNs (hlt s)) < unat target - unat (timeSinceBootNs s)"
      using lt d u by simp
    from less [OF this] obtain t where t: "sleep_loop hlt target (hlt s) = Some t"
      "unat target \<le> unat (timeSinceBootNs t)"
      "unat (timeSinceBootNs (hlt s)) \<le> unat target \<longrightarrow> unat (timeSinceBootNs t) < unat target + unat d" by blast
    moreover have "unat (timeSinceBootNs t) < unat target + unat d"
    proof (cases "unat (timeSinceBootNs (hlt s)) \<le> unat target")
      case False
      then have "\<not> timeSinceBootNs (hlt s) < target" by (simp add: word_less_nat_alt)
      then have "t = hlt s" using t(1) by (subst (asm) sleep_loop.simps) simp
      then show ?thesis using u lt by simp
    qed (use t(3) in simp)
    ultimately show ?thesis using True by (subst sleep_loop.simps) simp
  next
    case False
    then have "unat target \<le> unat (timeSinceBootNs s)" by (simp add: word_less_nat_alt)
    then show ?thesis using False d by (subst sleep_loop.simps) auto
  qed
qed

text \<open>If every halt is ended by a tick that advances the clock by \<open>d\<close>, \<open>sleepNs\<close> returns, and it
  has slept at least the requested time and less than one tick longer, as long as the clock does not
  wrap.\<close>

theorem sleepNs_accurate:
  fixes s :: "'z pit_scheme"
  assumes "\<And>s :: 'z pit_scheme. timeSinceBootNs (hlt s) = timeSinceBootNs s + d" and "0 < unat d"
    and "unat (timeSinceBootNs s) + unat ns + unat d < 2 ^ 64"
  shows "\<exists>t. sleepNs hlt ns s = Some t \<and> unat ns \<le> unat (timeSinceBootNs t) - unat (timeSinceBootNs s) \<and>
     unat (timeSinceBootNs t) - unat (timeSinceBootNs s) < unat ns + unat d"
proof -
  have "unat (timeSinceBootNs s + ns) = unat (timeSinceBootNs s) + unat ns"
    using assms(3) by (intro unat_add_no_wrap) simp
  then show ?thesis
    using sleep_loop_returns [OF assms(1,2), of "timeSinceBootNs s + ns" s] assms(3) by (auto simp: sleepNs_def)
qed

theorem sleepNs_accurate_witness:
  "\<exists>t. sleepNs (\<lambda>s. s\<lparr>timeSinceBootNs := timeSinceBootNs s + 1000\<rparr>) 2500 pit_boot = Some t \<and>
     2500 \<le> unat (timeSinceBootNs t)"
  using sleepNs_accurate [of "\<lambda>s :: pit. s\<lparr>timeSinceBootNs := timeSinceBootNs s + 1000\<rparr>" 1000 pit_boot 2500]
  by (auto simp: pit_boot_def)

lemma sleep_loop_stuck:
  assumes "sleep_loop hlt target s = Some t" and "\<forall>u. timeSinceBootNs (hlt u) = timeSinceBootNs u"
  shows "\<not> timeSinceBootNs s < target"
proof -
  let ?P = "\<lambda>hlt target s t. (\<forall>u. timeSinceBootNs (hlt u) = timeSinceBootNs u) \<longrightarrow> \<not> timeSinceBootNs s < target"
  have "?P hlt target s t"
  proof (rule sleep_loop.raw_induct [where P = ?P, OF _ assms(1)])
    fix f hlt target s t
    assume IH: "\<And>hlt target s t. f hlt target s = Some t \<Longrightarrow> ?P hlt target s t"
      and r: "(if timeSinceBootNs s < target then f hlt target (hlt s) else Some s) = Some t"
    show "?P hlt target s t"
    proof (intro impI notI)
      assume h: "\<forall>u. timeSinceBootNs (hlt u) = timeSinceBootNs u" and lt: "timeSinceBootNs s < target"
      then have "f hlt target (hlt s) = Some t" using r by simp
      from IH [OF this] h lt show False by simp
    qed
  qed
  with assms(2) show ?thesis by blast
qed

text \<open>Without a tick during the halts, \<open>sleepNs\<close> of a positive time never returns. No interrupt
  handler of the kernel calls \<open>tick\<close>.\<close>

theorem sleepNs_without_tick:
  fixes s :: "'z pit_scheme"
  assumes "\<And>s :: 'z pit_scheme. timeSinceBootNs (hlt s) = timeSinceBootNs s"
    and "0 < unat ns" and "unat (timeSinceBootNs s) + unat ns < 2 ^ 64"
  shows "sleepNs hlt ns s = None"
proof -
  have "unat (timeSinceBootNs s + ns) = unat (timeSinceBootNs s) + unat ns"
    using assms(3) by (intro unat_add_no_wrap) simp
  then have "timeSinceBootNs s < timeSinceBootNs s + ns" using assms(2) by (simp add: word_less_nat_alt)
  then show ?thesis
    using sleep_loop_stuck [of hlt "timeSinceBootNs s + ns" s] assms(1)
    by (cases "sleepNs hlt ns s") (auto simp: sleepNs_def)
qed

theorem sleepNs_without_tick_witness: "sleepNs id 5 pit_boot = None"
  by (rule sleepNs_without_tick) (simp_all add: pit_boot_def)

section \<open>The serial port\<close>

text \<open>The line status register reports an empty transmit buffer again and again.\<close>

definition transmits :: "(nat \<Rightarrow> u16 \<Rightarrow> u16) \<Rightarrow> bool" where
  "transmits dev \<longleftrightarrow> (\<forall>n. \<exists>m\<ge>n. (ucast (dev m 0x3fd) :: u8) AND 0x20 \<noteq> 0)"

lemma wait_transmit_returns:
  fixes s :: "'z ports_scheme"
  assumes "(ucast (device s (reads s + k) 0x3fd) :: u8) AND 0x20 \<noteq> 0"
  shows "\<exists>n. wait_transmit s = Some (s\<lparr>reads := n\<rparr>)"
  using assms
proof (induction k arbitrary: s)
  case 0
  then show ?case
    by (subst wait_transmit.simps) (auto simp: is_transmit_empty_def inb_def)
next
  case (Suc k)
  let ?s = "s\<lparr>reads := Suc (reads s)\<rparr>"
  have "\<exists>n. wait_transmit ?s = Some (?s\<lparr>reads := n\<rparr>)" using Suc by (intro Suc.IH) simp
  then show ?case
    by (subst wait_transmit.simps) (auto simp: is_transmit_empty_def inb_def)
qed

lemma serial_write_sends:
  fixes s :: "'z ports_scheme"
  assumes "transmits (device s)"
  shows "\<exists>n. serial_write c s = Some (s\<lparr>reads := n, port_out := port_out s @ [(0x3f8, c)]\<rparr>)"
proof -
  obtain m where "reads s \<le> m" "(ucast (device s m 0x3fd) :: u8) AND 0x20 \<noteq> 0"
    using assms unfolding transmits_def by blast
  then have "(ucast (device s (reads s + (m - reads s)) 0x3fd) :: u8) AND 0x20 \<noteq> 0" by simp
  from wait_transmit_returns [OF this] show ?thesis by (auto simp: serial_write_def outb_def)
qed

text \<open>As long as the device keeps reporting an empty transmit buffer, \<open>serial_writemany\<close> returns
  and has sent exactly the bytes of the string, in order, to the data port.\<close>

theorem serial_writemany_sends:
  fixes s :: "'z ports_scheme"
  assumes "transmits (device s)"
  shows "\<exists>n. serial_writemany cs s = Some (s\<lparr>reads := n, port_out := port_out s @ map (Pair 0x3f8) cs\<rparr>)"
  using assms
proof (induction cs arbitrary: s)
  case Nil
  have "s = s\<lparr>reads := reads s, port_out := port_out s @ map (Pair 0x3f8) []\<rparr>" by simp
  then show ?case by (metis serial_writemany.simps(1))
next
  case (Cons c cs)
  obtain n where n: "serial_write c s = Some (s\<lparr>reads := n, port_out := port_out s @ [(0x3f8, c)]\<rparr>)"
    using serial_write_sends [OF Cons.prems] by blast
  then show ?case using Cons.IH [of "s\<lparr>reads := n, port_out := port_out s @ [(0x3f8, c)]\<rparr>"] Cons.prems by simp
qed

theorem serial_writemany_sends_witness:
  "\<exists>t. serial_writemany [72, 105] (pit_boot\<lparr>device := \<lambda>n _. if even n then 0x20 else 0\<rparr>) = Some t \<and>
     port_out t = [(0x3f8, 72), (0x3f8, 105)]"
proof -
  have "transmits (\<lambda>n _. if even n then 0x20 else 0)"
    unfolding transmits_def
  proof
    fix n :: nat
    show "\<exists>m\<ge>n. (ucast (if even m then 0x20 else 0 :: u16) :: u8) AND 0x20 \<noteq> 0"
      by (rule exI [of _ "2 * n"]) simp
  qed
  then show ?thesis
    using serial_writemany_sends [of "pit_boot\<lparr>device := \<lambda>n _. if even n then 0x20 else 0\<rparr>" "[72, 105]"]
    by (auto simp: pit_boot_def)
qed

end
