(* ===== verification/Kstring_Props.thy ===== *)
theory Kstring_Props
  imports Kstring
begin

text \<open>
  The strings of \<open>itoa\<close> and \<open>uitoa\<close> read back as the number that was converted, and \<open>strncmp\<close> compares
  C strings up to a bound.
\<close>

section \<open>Reading numbers\<close>

definition digit_value :: "u8 \<Rightarrow> nat" where
  "digit_value c = (if c < 58 then unat c - 48 else unat c - 87)"

definition parse_nat :: "nat \<Rightarrow> u8 list \<Rightarrow> nat" where
  "parse_nat b s = foldl (\<lambda>a c. a * b + digit_value c) 0 s"

definition parse_int :: "nat \<Rightarrow> u8 list \<Rightarrow> int" where
  "parse_int b s = (case s of
       [] \<Rightarrow> 0
     | c # t \<Rightarrow> if c = of_char CHR ''-'' then - int (parse_nat b t) else int (parse_nat b s))"

lemma digit_value_char: "d < 36 \<Longrightarrow> digit_value (digit_char d) = d"
  using digit_char_unat [of d] by (auto simp: digit_value_def word_less_nat_alt split: if_splits)

lemma digit_char_not_minus: "d < 36 \<Longrightarrow> digit_char d \<noteq> of_char CHR ''-''"
  using digit_char_unat [of d] by (auto split: if_splits)

lemma parse_nat_digits:
  assumes "2 \<le> b" and "b \<le> 36"
  shows "parse_nat b (map digit_char (digits_of b n)) = n"
proof -
  have "foldl (\<lambda>a c. a * b + digit_value c) a (map digit_char ds) = foldl (\<lambda>a d. a * b + d) a ds"
    if "\<forall>d\<in>set ds. d < 36" for a ds
    using that by (induction ds arbitrary: a) (simp_all add: digit_value_char)
  moreover have "\<forall>d\<in>set (digits_of b n). d < 36" using digits_of_less [OF assms(1)] assms(2) by fastforce
  ultimately show ?thesis using digits_of_value [OF assms(1)] by (simp add: parse_nat_def)
qed

lemma parse_int_digits:
  assumes "2 \<le> b" and "b \<le> 36"
  shows "parse_int b (map digit_char (digits_of b n)) = int n"
proof -
  obtain d ds where ds: "digits_of b n = d # ds" using digits_nonempty by (cases "digits_of b n") auto
  then have "d < 36" using digits_of_less [OF assms(1), of d n] assms(2) by simp
  then have "parse_int b (map digit_char (digits_of b n)) = int (parse_nat b (map digit_char (digits_of b n)))"
    using digit_char_not_minus by (simp add: ds parse_int_def)
  then show ?thesis by (simp only: parse_nat_digits [OF assms])
qed

section \<open>Conversions\<close>

text \<open>C27: \<open>itoa\<close> returns for every value and every base. For a base from 2 to 36 it leaves a non-empty
  zero-terminated string of at most 65 characters: in base 10 it reads back as the value, in every other
  base as the magnitude of the value, since the sign is written in base 10 only. Any other base gives the
  empty string. No byte outside of the string and its terminator changes.\<close>

theorem itoa_round_trip:
  assumes "unat str + 65 < 2 ^ 64"
  shows "\<exists>m' s. itoa value str base m = Some (str, m') \<and> string_at m' str s \<and>
     (\<forall>x. \<not> in_region str (Suc (length s)) x \<longrightarrow> m' x = m x) \<and>
     (if sint base < 2 \<or> 36 < sint base then s = []
      else s \<noteq> [] \<and> length s \<le> 65 \<and>
        parse_int (nat (sint base)) s = (if sint base = 10 then sint value else \<bar>sint value\<bar>))"
proof (cases "sint base < 2 \<or> 36 < sint base")
  case True
  then have "itoa value str base m = Some (str, m(str := 0))" by (simp add: itoa_def)
  then show ?thesis using True by (intro exI [of _ "m(str := 0)"] exI [of _ "[]"]) (auto simp: in_region_def)
next
  case False
  then have base: "2 \<le> sint base" "sint base \<le> 36" by auto
  let ?s = "itoa_text value base" and ?b = "nat (sint base)"
  note w = itoa_writes [OF base assms, of "value"]
  have b: "2 \<le> ?b" "?b \<le> 36" using base by simp_all
  have "parse_int ?b ?s = (if sint base = 10 then sint value else \<bar>sint value\<bar>)"
  proof (cases "sint value < 0 \<and> sint base = 10")
    case True
    then show ?thesis using parse_nat_digits [OF b] by (simp add: itoa_text_def parse_int_def)
  next
    case False
    then have "?s = map digit_char (digits_of ?b (nat \<bar>sint value\<bar>))" by (simp add: itoa_text_def)
    then show ?thesis using False parse_int_digits [OF b] by auto
  qed
  moreover have "?s \<noteq> []" by (simp add: itoa_text_def digits_nonempty)
  moreover have "string_at (put_bytes m str (?s @ [0])) str ?s" using w(2,3) by (intro put_bytes_string) simp_all
  moreover have "\<forall>x. \<not> in_region str (Suc (length ?s)) x \<longrightarrow> put_bytes m str (?s @ [0]) x = m x"
    using w(2) put_bytes_apply [of "?s @ [0]" m str] by simp
  ultimately show ?thesis using w(1,2) False
    by (intro exI [of _ "put_bytes m str (?s @ [0])"] exI [of _ ?s]) auto
qed

theorem itoa_round_trip_witness:
  "(\<exists>m' s. itoa (- 1234) 0x5000 10 (\<lambda>_. 0xAA) = Some (0x5000, m') \<and> string_at m' 0x5000 s \<and> parse_int 10 s = - 1234) \<and>
   (\<exists>m' s. itoa (- 1234) 0x5000 8 (\<lambda>_. 0xAA) = Some (0x5000, m') \<and> string_at m' 0x5000 s \<and> parse_int 8 s = 1234)"
proof -
  have "sint (- 1234 :: i64) = - 1234" "sint (10 :: i64) = 10" "sint (8 :: i64) = 8"
    by (simp_all add: sint_uint signed_take_bit_eq_take_bit_shift take_bit_eq_mod)
  with itoa_round_trip [of "0x5000" "- 1234" 10 "\<lambda>_. 0xAA"] itoa_round_trip [of "0x5000" "- 1234" 8 "\<lambda>_. 0xAA"]
  show ?thesis by auto
qed

text \<open>C28: \<open>uitoa\<close> returns for every value and every supported base, with the canonical digits of the value as a
  zero-terminated string: it reads back as the value, is not empty, starts with 0 only for the value 0, and fits in 20
  characters in base 10 and 16 in base 16. Bases outside of 2 to 36 give the empty string.\<close>

theorem uitoa_round_trip:
  assumes "unat str + 64 < 2 ^ 64"
  shows "\<exists>m' s. uitoa value str base m = Some (str, m') \<and> string_at m' str s \<and>
     (\<forall>x. \<not> in_region str (Suc (length s)) x \<longrightarrow> m' x = m x) \<and>
     (if base < 2 \<or> 36 < base then s = []
      else s \<noteq> [] \<and> parse_nat (unat base) s = unat value \<and> (hd s = of_char CHR ''0'' \<longrightarrow> value = 0) \<and>
        (base = 10 \<longrightarrow> length s \<le> 20) \<and> (base = 16 \<longrightarrow> length s \<le> 16))"
proof (cases "base < 2 \<or> 36 < base")
  case True
  then have "uitoa value str base m = Some (str, m(str := 0))" by (simp add: uitoa_def)
  then show ?thesis using True by (intro exI [of _ "m(str := 0)"] exI [of _ "[]"]) (auto simp: in_region_def)
next
  case False
  then have base: "2 \<le> base" "base \<le> 36" by auto
  then have b: "2 \<le> unat base" "unat base \<le> 36" by (simp_all add: word_le_nat_alt)
  let ?s = "uitoa_text value base"
  note w = uitoa_writes [OF base assms, of "value"]
  have "string_at (put_bytes m str (?s @ [0])) str ?s" using w(2,3) by (intro put_bytes_string) simp_all
  moreover have "\<forall>x. \<not> in_region str (Suc (length ?s)) x \<longrightarrow> put_bytes m str (?s @ [0]) x = m x"
    using w(2) put_bytes_apply [of "?s @ [0]" m str] by simp
  moreover have "parse_nat (unat base) ?s = unat value" unfolding uitoa_text_def by (rule parse_nat_digits [OF b])
  moreover have "hd ?s = of_char CHR ''0'' \<longrightarrow> value = 0"
  proof
    assume "hd ?s = of_char CHR ''0''"
    have h: "hd (digits_of c n) = 0 \<Longrightarrow> n = 0" if "2 \<le> c" for c n
      using that
    proof (induction c n rule: digits_of.induct)
      case (1 c n)
      show ?case
      proof (cases "n < c")
        case False
        then have "hd (digits_of c (n div c)) = 0" using 1 digits_nonempty by (simp add: digits_of.simps [of c n])
        then have "n div c = 0" using 1 False by auto
        then show ?thesis using False 1 by (simp add: div_eq_0_iff)
      qed (use 1 in \<open>simp add: digits_of.simps [of c n]\<close>)
    qed
    have d: "hd (digits_of (unat base) (unat value)) < 36"
      using digits_of_less [OF b(1)] b(2) hd_in_set [OF digits_nonempty] less_le_trans by blast
    have "digit_char (hd (digits_of (unat base) (unat value))) = of_char CHR ''0''"
      using \<open>hd ?s = of_char CHR ''0''\<close> by (simp add: uitoa_text_def hd_map digits_nonempty)
    then have "hd (digits_of (unat base) (unat value)) = 0"
      using digit_value_char [OF d] by (simp add: digit_value_def)
    then have "unat value = 0" by (rule h [OF b(1)])
    then show "value = 0" by (simp add: word_unat_eq_iff)
  qed
  moreover have "?s \<noteq> []" by (simp add: uitoa_text_def digits_nonempty)
  moreover have "base = 10 \<longrightarrow> length ?s \<le> 20" "base = 16 \<longrightarrow> length ?s \<le> 16"
    using unat_lt_64 [of "value"] digits_of_length [of 10 "unat value" 19] digits_of_length [of 16 "unat value" 15]
    by (simp_all add: uitoa_text_def)
  ultimately show ?thesis using w(1) False
    by (intro exI [of _ "put_bytes m str (?s @ [0])"] exI [of _ ?s]) auto
qed

theorem uitoa_round_trip_witness:
  "\<exists>m' s. uitoa 0xFF00FF 0x5000 16 (\<lambda>_. 0xAA) = Some (0x5000, m') \<and> string_at m' 0x5000 s \<and>
     parse_nat 16 s = 0xFF00FF \<and> length s \<le> 16"
  using uitoa_round_trip [of "0x5000" "0xFF00FF" 16 "\<lambda>_. 0xAA"] by (auto simp: word_less_nat_alt)

section \<open>Comparison\<close>

text \<open>\<open>strncmp\<close> returns 0 exactly when the two strings agree in their first \<open>n\<close> characters, where the
  comparison stops at the end of the first string.\<close>

theorem strncmp_equal:
  assumes "string_at m a s" and "string_at m b t"
  shows "strncmp m a b n = 0 \<longleftrightarrow> take (unat n) s = take (unat n) t"
  using assms
proof (induction s arbitrary: a b t n)
  case Nil
  show ?case
  proof (cases t)
    case Nil
    then show ?thesis using Nil.prems by (subst strncmp.simps) simp
  next
    case (Cons c u)
    then show ?thesis using Nil.prems by (subst strncmp.simps) (auto simp: unsigned_eq_0_iff)
  qed
next
  case (Cons c s)
  show ?case
  proof (cases "n = 0 \<or> t = [] \<or> c \<noteq> hd t")
    case True
    then show ?thesis using Cons.prems by (subst strncmp.simps) (cases t; auto simp: unsigned_eq_0_iff take_Cons' dest: unsigned_word_eqI)
  next
    case False
    then obtain u where t: "t = c # u" by (cases t) auto
    obtain k where k: "unat n = Suc k" using False unat_diff_pos [of n 0] by (cases "unat n") auto
    then have "unat (n - 1) = k" by (subst unat_sub_le) simp_all
    with Cons.IH [of "a + 1" "b + 1" u "n - 1"] False t Cons.prems k show ?thesis by (subst strncmp.simps) simp
  qed
qed

theorem strncmp_equal_witness:
  "strncmp ((\<lambda>_. 0)(1 := 65, 2 := 66, 9 := 65, 10 := 67)) 1 9 1 = 0 \<and>
   strncmp ((\<lambda>_. 0)(1 := 65, 2 := 66, 9 := 65, 10 := 67)) 1 9 2 \<noteq> 0"
proof -
  let ?m = "(\<lambda>_. 0)(1 := 65, 2 := 66, 9 := 65, 10 := 67) :: mem"
  have "string_at ?m 1 [65, 66]" "string_at ?m 9 [65, 67]" by simp_all
  from strncmp_equal [OF this, of 1] strncmp_equal [OF this, of 2] show ?thesis by simp
qed

end
