(* ===== verification/Console_Props.thy ===== *)
theory Console_Props
  imports Console Ports_Props Kstring_Props
begin

text \<open>
  What reaches the serial port and the screen: exactly which strings \<open>__write\<close> can print, the text and
  numbers that \<open>kprintf\<close> sends, the size of its local buffers and the cursor of the terminal.
\<close>

section \<open>Characters that are written\<close>

text \<open>What the output functions keep, apart from the flags of the escape reader.\<close>

definition console_kept :: "'z console_scheme \<Rightarrow> 'z console_scheme \<Rightarrow> bool" where
  "console_kept s t \<longleftrightarrow> device t = device s \<and> gFramebuffer t = gFramebuffer s \<and>
     charsPerLine t = charsPerLine s \<and> maxLines t = maxLines s \<and>
     currentlyReadingAnything t = currentlyReadingAnything s \<and> currentlyReadingColor t = currentlyReadingColor s \<and>
     (\<exists>rest. port_out t = port_out s @ rest)"

lemma console_kept_refl: "console_kept s s"
  by (simp add: console_kept_def)

lemma console_kept_trans: "console_kept s t \<Longrightarrow> console_kept t u \<Longrightarrow> console_kept s u"
  by (auto simp: console_kept_def)

lemma serial_write_console:
  fixes s :: "'z console_scheme"
  assumes "transmits (device s)"
  obtains n where "serial_write c s = Some (s\<lparr>reads := n, port_out := port_out s @ [(0x3f8, c)]\<rparr>)"
  using serial_write_sends [OF assms, of c] by blast

lemma write_plain_sends:
  fixes s :: "'z console_scheme"
  assumes "transmits (device s)" and "\<not> currentlyReadingAnything s" and "of_char CHR ''$'' \<notin> set cs"
  shows "\<exists>n. write_plain cs s = Some (s\<lparr>reads := n, port_out := port_out s @ map (Pair 0x3f8) cs\<rparr>)"
  using assms
proof (induction cs arbitrary: s)
  case Nil
  have "s = s\<lparr>reads := reads s, port_out := port_out s @ map (Pair 0x3f8) []\<rparr>" by simp
  then show ?case by (metis write_plain.simps(1))
next
  case (Cons c cs)
  obtain n where n: "serial_write c s = Some (s\<lparr>reads := n, port_out := port_out s @ [(0x3f8, c)]\<rparr>)"
    by (rule serial_write_console [OF Cons.prems(1)])
  then have "writeChar_via (\<lambda>_ _. None) c True False s = Some (s\<lparr>reads := n, port_out := port_out s @ [(0x3f8, c)]\<rparr>)"
    using Cons.prems by (auto simp: writeChar_via_def put_char_def)
  then show ?case using Cons.IH [of "s\<lparr>reads := n, port_out := port_out s @ [(0x3f8, c)]\<rparr>"] Cons.prems by simp
qed

lemma draw_glyph_vram: "\<exists>m. draw_glyph g x y fg bg ps s = s\<lparr>vram := m\<rparr>"
proof (induction ps arbitrary: s)
  case Nil
  have "draw_glyph g x y fg bg [] s = s\<lparr>vram := vram s\<rparr>" by simp
  then show ?case by blast
next
  case (Cons p ps)
  obtain cy cx where p: "p = (cy, cx)" by (cases p)
  show ?case
  proof (cases "g + of_nat cy \<ge> font_end s")
    case True
    then have "draw_glyph g x y fg bg (p # ps) s = s\<lparr>vram := vram s\<rparr>" by (simp add: p)
    then show ?thesis by blast
  next
    case False
    then obtain c where "draw_glyph g x y fg bg (p # ps) s =
        draw_glyph g x y fg bg ps (drawPoint (x + 16 - of_nat cx) (y + of_nat cy) c s)"
      by (simp add: p Let_def)
    moreover obtain m where "draw_glyph g x y fg bg ps (drawPoint (x + 16 - of_nat cx) (y + of_nat cy) c s) =
        (drawPoint (x + 16 - of_nat cx) (y + of_nat cy) c s)\<lparr>vram := m\<rparr>" using Cons.IH by blast
    ultimately have "draw_glyph g x y fg bg (p # ps) s = s\<lparr>vram := m\<rparr>" by (simp add: drawPoint_def)
    then show ?thesis by blast
  qed
qed

lemma drawChar_vram: "\<exists>m. drawChar c x y fg s = s\<lparr>vram := m\<rparr>"
  unfolding drawChar_def drawCharBg_def by (rule draw_glyph_vram)

lemma clear_no_dollar: "of_char CHR ''$'' \<notin> set (chars ''clear'')"
  by (simp add: chars_def)

text \<open>The cursor stays on the screen.\<close>

definition cursor_ok :: "'z console_scheme \<Rightarrow> bool" where
  "cursor_ok s \<longleftrightarrow> charX s \<le> charsPerLine s \<and> charY s \<le> maxLines s \<and> charsPerLine s \<le> 256 \<and> maxLines s \<le> 128"

text \<open>
  A reference for the output of a text without escapes: what goes to the serial port and where the cursor ends, on a grid
  whose largest column and line are given. A terminal that is full starts again at the top and reports \<open>clear\<close> on the port.
\<close>

fun next_cell :: "u32 \<times> u32 \<Rightarrow> u8 \<Rightarrow> u32 \<times> u32 \<Rightarrow> u8 list \<times> u32 \<times> u32" where
  "next_cell (cols, lines) c (x, y) =
     (if c = of_char CHR 0x0A \<or> cols < x + 1 then
        if lines < y + 1 then (chars ''clear'', 0, 0) else ([], 0, y + 1)
      else ([], x + 1, y))"

fun sent :: "bool \<Rightarrow> bool \<Rightarrow> u32 \<times> u32 \<Rightarrow> u8 list \<Rightarrow> u32 \<times> u32 \<Rightarrow> u8 list \<times> u32 \<times> u32" where
  "sent serial terminal grid [] p = ([], p)"
| "sent serial terminal grid (c # cs) p =
     (let (report, q) = if terminal then next_cell grid c p else ([], p);
          (out, r) = sent serial terminal grid cs q
      in ((if serial then [c] else []) @ report @ out, r))"

definition emits :: "bool \<Rightarrow> bool \<Rightarrow> u8 list \<Rightarrow> 'z console_scheme \<Rightarrow> 'z console_scheme \<Rightarrow> bool" where
  "emits serial terminal txt s t \<longleftrightarrow> (\<exists>out. sent serial terminal (charsPerLine s, maxLines s) txt (charX s, charY s) = (out, charX t, charY t) \<and>
     port_out t = port_out s @ map (Pair 0x3f8) out)"

lemma emits_Nil [simp]: "emits serial terminal [] s t \<longleftrightarrow> charX t = charX s \<and> charY t = charY s \<and> port_out t = port_out s"
  by (auto simp: emits_def)

lemma sent_append:
  "sent serial terminal grid (a @ b) p = (let (out, q) = sent serial terminal grid a p; (out', r) = sent serial terminal grid b q in (out @ out', r))"
  by (induction a arbitrary: p) (simp_all add: Let_def case_prod_unfold)

lemma emits_append:
  assumes "emits serial terminal a s t" and "emits serial terminal b t u" and "charsPerLine t = charsPerLine s" and "maxLines t = maxLines s"
  shows "emits serial terminal (a @ b) s u"
  using assms by (auto simp: emits_def sent_append)

lemma sent_serial: "sent True False grid txt p = (txt, p)"
  by (induction "txt" arbitrary: p) simp_all

lemma emits_serial: "emits True False txt s t \<longleftrightarrow> port_out t = port_out s @ map (Pair 0x3f8) txt \<and> charX t = charX s \<and> charY t = charY s"
  by (auto simp: emits_def sent_serial)

lemma writechar_returns:
  fixes s :: "'z console_scheme"
  assumes "transmits (device s)" and "\<not> currentlyReadingAnything s"
  shows "\<exists>t. writechar c s = Some t \<and> console_kept s t \<and> (cursor_ok s \<longrightarrow> cursor_ok t) \<and> emits False True [c] s t"
proof -
  define s1 where "s1 = (if sint c > 31 then drawChar c (charX s * 8) (charY s * 16) (fgColor s) s else s)"
  obtain m where s1: "s1 = s\<lparr>vram := m\<rparr>"
  proof (cases "sint c > 31")
    case True
    then show thesis using that drawChar_vram [of c "charX s * 8" "charY s * 16" "fgColor s" s] by (auto simp: s1_def)
  next
    case False
    then show thesis using that [of "vram s"] by (simp add: s1_def)
  qed
  define s2 where "s2 = s1\<lparr>charX := charX s + 1\<rparr>"
  define s3 where "s3 = s2\<lparr>charX := 0, charY := charY s + 1\<rparr>"
  have w: "writechar c s = (if charX s2 > charsPerLine s \<or> c = of_char CHR 0x0A then
       if charY s3 > maxLines s then
         Option.bind (write_plain (chars ''clear'') s3) (\<lambda>s. let fb = gFramebuffer s in
           Some (s\<lparr>vram := memset (vram s) (fb_address fb) 0 (fb_width fb * fb_height fb * ucast (fb_bpp fb) div 8),
                   charX := 0, charY := 0\<rparr>))
       else Some s3 else Some s2)"
    unfolding writechar_def s1_def [symmetric] by (simp add: Let_def s1 s2_def s3_def)
  show ?thesis
  proof (cases "charX s2 > charsPerLine s \<or> c = of_char CHR 0x0A")
    case False
    then have "writechar c s = Some s2" "charX s2 \<le> charsPerLine s" unfolding w by auto
    then show ?thesis using False by (auto simp: console_kept_def cursor_ok_def emits_def s2_def s1)
  next
    case line: True
    show ?thesis
    proof (cases "charY s3 > maxLines s")
      case False
      then have "writechar c s = Some s3" "charY s3 \<le> maxLines s" unfolding w using line by auto
      then show ?thesis using False line by (auto simp: console_kept_def cursor_ok_def emits_def s3_def s2_def s1)
    next
      case True
      have "transmits (device s3)" "\<not> currentlyReadingAnything s3" using assms by (simp_all add: s3_def s2_def s1)
      then obtain n where "write_plain (chars ''clear'') s3 =
          Some (s3\<lparr>reads := n, port_out := port_out s3 @ map (Pair 0x3f8) (chars ''clear'')\<rparr>)"
        using write_plain_sends clear_no_dollar by blast
      with True line show ?thesis unfolding w
        by (auto simp: Let_def console_kept_def cursor_ok_def emits_def s3_def s2_def s1)
    qed
  qed
qed

lemma put_char_returns:
  fixes s :: "'z console_scheme"
  assumes "transmits (device s)" and "\<not> currentlyReadingAnything s"
  shows "\<exists>t. put_char writechar c serial terminal s = Some t \<and> console_kept s t \<and> (cursor_ok s \<longrightarrow> cursor_ok t) \<and> emits serial terminal [c] s t"
proof -
  obtain u where u: "(if serial then serial_write c s else Some s) = Some u" "console_kept s u" "cursor_ok s \<longrightarrow> cursor_ok u"
    "port_out u = port_out s @ (if serial then [(0x3f8, c)] else [])" "charX u = charX s" "charY u = charY s"
  proof (cases serial)
    case True
    obtain n where "serial_write c s = Some (s\<lparr>reads := n, port_out := port_out s @ [(0x3f8, c)]\<rparr>)"
      by (rule serial_write_console [OF assms(1)])
    then show thesis using that True by (simp add: console_kept_def cursor_ok_def)
  next
    case False
    then show thesis using that [of s] by (simp add: console_kept_refl)
  qed
  then have "transmits (device u)" "\<not> currentlyReadingAnything u" using assms by (simp_all add: console_kept_def)
  then obtain t where t: "writechar c u = Some t" "console_kept u t" "cursor_ok u \<longrightarrow> cursor_ok t" "emits False True [c] u t"
    using writechar_returns by blast
  have g: "charsPerLine u = charsPerLine s" "maxLines u = maxLines s" using u(2) by (simp_all add: console_kept_def)
  show ?thesis
  proof (cases terminal)
    case True
    have "emits serial terminal [c] s t" using t(4) u(4-6) True by (auto simp: emits_def g split: prod.splits)
    with u t True show ?thesis by (auto simp: put_char_def intro: console_kept_trans)
  next
    case False
    have "emits serial terminal [c] s u" using u(4-6) False by (auto simp: emits_def)
    with u False show ?thesis by (auto simp: put_char_def)
  qed
qed

section \<open>Termination of \<open>__write\<close>\<close>

text \<open>The strings that \<open>__write\<close> gets to the end of.\<close>

definition writable :: "u8 list \<Rightarrow> 'z console_scheme \<Rightarrow> bool" where
  "writable str s \<longleftrightarrow> of_char CHR ''$'' \<notin> set str \<and>
     (str = [] \<or> \<not> currentlyReadingAnything s \<or> currentlyReadingColor s \<or> hd str = of_char CHR ''c'')"

lemma set_color_flags [simp]:
  "currentlyReadingAnything (set_color c s) = currentlyReadingAnything s"
  "currentlyReadingColor (set_color c s) = currentlyReadingColor s" "device (set_color c s) = device s"
  by (simp_all add: set_color_def)

lemma write_str_writable:
  assumes "write_str serial terminal str s = Some t"
  shows "writable str s"
proof (rule write_str.raw_induct [where P = "\<lambda>serial terminal str s t. writable str s", OF _ assms], goal_cases)
  case (1 f serial terminal str s t)
  show ?case
  proof (cases str)
    case Nil
    then show ?thesis by (simp add: writable_def)
  next
    case (Cons c cs)
    show ?thesis
    proof (cases "c = of_char CHR ''$'' \<or> currentlyReadingAnything s")
      case True
      then show ?thesis using 1 Cons
        by (fastforce simp: writable_def split: if_splits)
    next
      case False
      then obtain u where "f serial terminal cs u = Some t"
        using 1(2) Cons by (auto split: Option.bind_splits)
      then have "writable cs u" by (rule 1(1))
      with False Cons show ?thesis by (auto simp: writable_def)
    qed
  qed
qed

lemma write_str_plain:
  fixes s :: "'z console_scheme"
  assumes "transmits (device s)" and "\<not> currentlyReadingAnything s" and "of_char CHR ''$'' \<notin> set str"
  shows "\<exists>t. write_str serial terminal str s = Some t \<and> console_kept s t \<and> (cursor_ok s \<longrightarrow> cursor_ok t) \<and> emits serial terminal str s t"
  using assms
proof (induction str arbitrary: s)
  case Nil
  then show ?case by (subst write_str.simps) (simp add: console_kept_refl)
next
  case (Cons c cs)
  obtain u where u: "put_char writechar c serial terminal s = Some u" "console_kept s u" "cursor_ok s \<longrightarrow> cursor_ok u" "emits serial terminal [c] s u"
    using put_char_returns [OF Cons.prems(1,2)] by blast
  then obtain t where t: "write_str serial terminal cs u = Some t" "console_kept u t" "cursor_ok u \<longrightarrow> cursor_ok t" "emits serial terminal cs u t"
    using Cons.IH [of u] Cons.prems by (auto simp: console_kept_def)
  have "emits serial terminal (c # cs) s t" using emits_append [OF u(4) t(4)] u(2) by (simp add: console_kept_def)
  with u t Cons.prems show ?case by (subst write_str.simps) (auto intro: console_kept_trans)
qed

text \<open>C29: \<open>__write\<close> returns exactly on the strings without a \<open>$\<close>, provided that no escape sequence is open, or
  that its colour letter is awaited, or that the string starts with the \<open>c\<close> of the sequence. On every other
  string it spins forever, although the serial port stays ready.\<close>

theorem write_returns_iff:
  fixes s :: "'z console_scheme"
  assumes "transmits (device s)"
  shows "(\<exists>t. write_str serial terminal str s = Some t) \<longleftrightarrow> writable str s"
proof
  assume "writable str s"
  then have nd: "of_char CHR ''$'' \<notin> set str"
    and c: "str = [] \<or> \<not> currentlyReadingAnything s \<or> currentlyReadingColor s \<or> hd str = of_char CHR ''c''"
    by (simp_all add: writable_def)
  have color: "\<exists>t. write_str serial terminal str u = Some t"
    if u: "currentlyReadingAnything u" "currentlyReadingColor u" "device u = device s" for u :: "'z console_scheme"
  proof (cases str)
    case Nil
    then show ?thesis by (subst write_str.simps) simp
  next
    case (Cons c cs)
    let ?v = "(set_color c u)\<lparr>currentlyReadingAnything := False, currentlyReadingColor := False\<rparr>"
    have "\<exists>t. write_str serial terminal str ?v = Some t"
      using write_str_plain [of ?v str] assms u(3) nd by auto
    then show ?thesis using Cons u nd by (subst write_str.simps) auto
  qed
  show "\<exists>t. write_str serial terminal str s = Some t"
  proof (cases "currentlyReadingAnything s")
    case False
    then show ?thesis using write_str_plain [OF assms False nd] by blast
  next
    case True
    show ?thesis
    proof (cases "currentlyReadingColor s \<or> str = []")
      case True
      then show ?thesis
      proof
        assume "str = []"
        then show ?thesis by (subst write_str.simps) simp
      qed (use color \<open>currentlyReadingAnything s\<close> in blast)
    next
      case False
      then obtain cs where "str = of_char CHR ''c'' # cs" using c True by (cases str) auto
      moreover have "\<exists>t. write_str serial terminal str (s\<lparr>currentlyReadingColor := True\<rparr>) = Some t"
        using color [of "s\<lparr>currentlyReadingColor := True\<rparr>"] True by simp
      ultimately show ?thesis using True False nd by (subst write_str.simps) auto
    qed
  qed
qed (use write_str_writable in blast)

definition console_example :: console where
  "console_example = \<lparr>port_out = [], reads = 0, device = (\<lambda>_ _. 0x20), vram = (\<lambda>_. 0),
     gFramebuffer = \<lparr>fb_address = 0xE0000000, fb_width = 640, fb_height = 480, fb_pitch = 2560, fb_bpp = 32\<rparr>,
     font_start = 0x100000, font_end = 0x101000, charX = 0, charY = 0, charsPerLine = 79, maxLines = 29,
     fgColor = 0xFFFFFF, currentlyReadingAnything = False, currentlyReadingColor = False\<rparr>"

lemma console_example_simps [simp]:
  "port_out console_example = []" "\<not> currentlyReadingAnything console_example"
  "\<not> currentlyReadingColor console_example" "cursor_ok console_example" "charX console_example = 0" "charY console_example = 0" "transmits (device console_example)"
  by (auto simp: console_example_def cursor_ok_def transmits_def)

theorem write_returns_iff_witness:
  "(\<exists>t. write_str True True (chars ''ok'') console_example = Some t) \<and>
   \<not> (\<exists>t. write_str True True (chars ''$cR'') console_example = Some t)"
  using write_returns_iff [of console_example] by (simp add: writable_def chars_def)

section \<open>What \<open>kprintf\<close> sends\<close>

text \<open>The characters of a text that are printed: colour escapes are consumed.\<close>

fun visible :: "bool \<Rightarrow> bool \<Rightarrow> u8 list \<Rightarrow> u8 list" where
  "visible esc col [] = []"
| "visible esc col (c # cs) =
     (if c = of_char CHR ''$'' then visible True col cs
      else if esc then (if col then visible False False cs else visible True (c = of_char CHR ''c'') cs)
      else c # visible False col cs)"

text \<open>\<open>kprintf_serial\<close> on a text without conversions returns and sends the text to the serial port, in order
  and without the colour escapes \<open>$c<letter>\<close>.\<close>

theorem kprintf_serial_text:
  fixes s :: "'z console_scheme"
  assumes "transmits (device s)" and "of_char CHR ''%'' \<notin> set str"
  shows "\<exists>t. kprintf_serial str vargs s = Some (Inr t) \<and>
     port_out t = port_out s @ map (Pair 0x3f8) (visible (currentlyReadingAnything s) (currentlyReadingColor s) str)"
  using assms unfolding kprintf_serial_def
proof (induction str arbitrary: s)
  case (Cons c cs)
  obtain n where n: "serial_write c s = Some (s\<lparr>reads := n, port_out := port_out s @ [(0x3f8, c)]\<rparr>)"
    by (rule serial_write_console [OF Cons.prems(1)])
  have "port_out (set_color c s) = port_out s" by (simp add: set_color_def)
  then have "\<exists>u. writeChar c True False s = Some u \<and> device u = device s \<and>
      port_out s @ map (Pair 0x3f8) (visible (currentlyReadingAnything s) (currentlyReadingColor s) (c # cs)) =
      port_out u @ map (Pair 0x3f8) (visible (currentlyReadingAnything u) (currentlyReadingColor u) cs)"
    using n by (auto simp: writeChar_def writeChar_via_def put_char_def)
  then obtain u where "writeChar c True False s = Some u" "device u = device s"
    "port_out s @ map (Pair 0x3f8) (visible (currentlyReadingAnything s) (currentlyReadingColor s) (c # cs)) =
      port_out u @ map (Pair 0x3f8) (visible (currentlyReadingAnything u) (currentlyReadingColor u) cs)" by blast
  with Cons.IH [of u] Cons.prems show ?case by (auto simp del: visible.simps)
qed simp

theorem kprintf_serial_text_witness:
  "\<exists>t. kprintf_serial (chars ''$cRerr'') [] console_example = Some (Inr t) \<and>
     port_out t = map (Pair 0x3f8) (chars ''err'')"
  using kprintf_serial_text [of console_example "chars ''$cRerr''" "[]"] by (simp add: chars_def)

section \<open>Numbers\<close>

lemma read_string_at: "string_at m a str \<Longrightarrow> read_string m a = Some str"
proof (induction str arbitrary: a)
  case Nil
  then show ?case by (subst read_string.simps) simp
next
  case (Cons c str)
  then show ?case by (subst read_string.simps) auto
qed

lemma buffer_put_bytes:
  "length str < 2 ^ 64 \<Longrightarrow> 0 \<notin> set str \<Longrightarrow> buffer_text (Some (p, put_bytes m p (str @ [0]))) = Some str"
  using read_string_at [OF put_bytes_string] by (simp add: buffer_text_def)

lemma hex_put_bytes:
  assumes "length str \<le> 16" and "0 \<notin> set str"
  shows "hex_text (Some (0, put_bytes m 0 (str @ [0]))) = Some (replicate (16 - length str) (of_char CHR ''0'') @ str)"
proof -
  let ?m = "put_bytes m 0 (str @ [0])" and ?z = "of_char CHR ''0'' :: u8"
  let ?m2 = "put_bytes ?m 64 (replicate 16 ?z @ [0])"
  have s: "string_at ?m 0 str" using assms by (intro put_bytes_string) simp_all
  have s2: "string_at ?m2 0 str"
  proof (subst string_at_cong [where m = ?m])
    fix x :: u64 assume "in_region 0 (Suc (length str)) x"
    then have "\<not> in_region 64 17 x" using assms(1) by (auto simp: in_region_no_wrap)
    then show "?m2 x = ?m x" using put_bytes_apply [of "replicate 16 ?z @ [0]" ?m 64 x] by simp
  qed (use assms s in simp_all)
  have len: "strlen ?m 0 = Some (of_nat (length str))"
    using strlen_loop_cstring [OF string_at_cstring [OF s], of 0] by (simp add: strlen_def)
  have e: "(64 :: u64) + ucast (16 - of_nat (length str) :: u32) = 64 + of_nat (16 - length str)"
    using ucast_length [of "16 - length str"] assms(1) by (simp add: of_nat_diff)
  have l: "(ucast (of_nat (length str) :: u32) :: u64) = of_nat (length str)"
    using assms(1) by (intro ucast_length) simp
  have "memcpy ?m2 (64 + of_nat (16 - length str)) 0 (of_nat (length str)) = put_bytes ?m2 (64 + of_nat (16 - length str)) str"
  proof (rule memcpy_string [OF s2])
    fix x :: u64 assume "in_region (64 + of_nat (16 - length str)) (length str) x"
    moreover have "unat (64 + of_nat (16 - length str) :: u64) = 64 + (16 - length str)"
      by (subst unat_add_of_nat) simp_all
    ultimately have "64 \<le> unat x" using assms(1) by (subst (asm) in_region_no_wrap) auto
    then show "\<not> in_region 0 (Suc (length str)) x" using assms(1) by (simp add: in_region_no_wrap)
  qed (use assms in simp)
  also have "\<dots> = put_bytes ?m 64 (replicate (16 - length str) ?z @ str @ [0])"
  proof -
    have "replicate 16 ?z = replicate (16 - length str) ?z @ replicate (length str) ?z"
      using assms(1) by (simp add: replicate_add [symmetric])
    then show ?thesis
      using put_bytes_overwrite [of "replicate (length str) ?z" str "replicate (16 - length str) ?z" "[0]" ?m 64] assms(1)
      by simp
  qed
  finally have "memcpy ?m2 (64 + of_nat (16 - length str)) 0 (of_nat (length str)) =
      put_bytes ?m 64 ((replicate (16 - length str) ?z @ str) @ [0])" by simp
  moreover have "read_string (put_bytes ?m 64 ((replicate (16 - length str) ?z @ str) @ [0])) 64 =
      Some (replicate (16 - length str) ?z @ str)"
    using assms by (intro read_string_at put_bytes_string) auto
  ultimately show ?thesis by (simp add: hex_text_def len e l Let_def)
qed

lemma write_str_serial:
  fixes s :: "'z console_scheme"
  assumes "transmits (device s)" and "\<not> currentlyReadingAnything s" and "of_char CHR ''$'' \<notin> set str"
  shows "\<exists>n. write_str True False str s = Some (s\<lparr>reads := n, port_out := port_out s @ map (Pair 0x3f8) str\<rparr>)"
  using assms
proof (induction str arbitrary: s)
  case Nil
  have "write_str True False [] s = Some (s\<lparr>reads := reads s, port_out := port_out s @ map (Pair 0x3f8) []\<rparr>)"
    by (subst write_str.simps) simp
  then show ?case by blast
next
  case (Cons c cs)
  obtain n where n: "serial_write c s = Some (s\<lparr>reads := n, port_out := port_out s @ [(0x3f8, c)]\<rparr>)"
    by (rule serial_write_console [OF Cons.prems(1)])
  with Cons.IH [of "s\<lparr>reads := n, port_out := port_out s @ [(0x3f8, c)]\<rparr>"] Cons.prems show ?case
    by (subst write_str.simps) (auto simp: put_char_def)
qed

lemma digits_no_dollar: "2 \<le> b \<Longrightarrow> b \<le> 36 \<Longrightarrow> of_char CHR ''$'' \<notin> set (map digit_char (digits_of b n))"
proof
  assume b: "2 \<le> b" "b \<le> 36" and "of_char CHR ''$'' \<in> set (map digit_char (digits_of b n))"
  then obtain d where "d \<in> set (digits_of b n)" "digit_char d = of_char CHR ''$''" by auto
  moreover from this b have "d < 36" using digits_of_less [OF b(1)] by fastforce
  ultimately show False using digit_char_unat [of d] by (auto split: if_splits)
qed

lemma itoa_text_10:
  "parse_int 10 (itoa_text v 10) = sint v" "of_char CHR ''$'' \<notin> set (itoa_text v 10)" "length (itoa_text v 10) \<le> 20"
proof -
  have ten: "sint (10 :: i64) = 10" by (simp add: sint_uint signed_take_bit_eq_take_bit_shift take_bit_eq_mod)
  have "nat \<bar>sint v\<bar> < 10 ^ Suc 18"
  proof -
    have "- (2 ^ 63) \<le> sint v \<and> sint v < 2 ^ 63" using sint_greater_eq [of v] sint_less [of v] by simp
    then have "nat \<bar>sint v\<bar> \<le> 2 ^ 63" by (simp add: nat_le_iff abs_le_iff)
    then show ?thesis by (rule le_less_trans) simp
  qed
  then have "length (digits_of 10 (nat \<bar>sint v\<bar>)) \<le> Suc 18" by (intro digits_of_length) simp_all
  then show "length (itoa_text v 10) \<le> 20" by (cases "sint v < 0") (simp_all add: itoa_text_def ten)
  show "of_char CHR ''$'' \<notin> set (itoa_text v 10)"
    using digits_no_dollar [of 10 "nat \<bar>sint v\<bar>"] by (simp add: itoa_text_def ten)
  show "parse_int 10 (itoa_text v 10) = sint v"
  proof (cases "sint v < 0")
    case True
    then show ?thesis using parse_nat_digits [of 10 "nat \<bar>sint v\<bar>"] by (simp add: itoa_text_def ten parse_int_def)
  next
    case False
    then show ?thesis using parse_int_digits [of 10 "nat \<bar>sint v\<bar>"] by (simp add: itoa_text_def ten)
  qed
qed

lemma uitoa_text_facts:
  "parse_nat 10 (uitoa_text v 10) = unat v" "parse_nat 16 (uitoa_text v 16) = unat v"
  "length (uitoa_text v 10) \<le> 20" "length (uitoa_text v 16) \<le> 16"
  "of_char CHR ''$'' \<notin> set (uitoa_text v 10)" "of_char CHR ''$'' \<notin> set (uitoa_text v 16)"
proof -
  show "parse_nat 10 (uitoa_text v 10) = unat v" "parse_nat 16 (uitoa_text v 16) = unat v"
    using parse_nat_digits [of 10] parse_nat_digits [of 16] by (simp_all add: uitoa_text_def)
  show "length (uitoa_text v 10) \<le> 20" "length (uitoa_text v 16) \<le> 16"
    using unat_lt_64 [of v] digits_of_length [of 10 "unat v" 19] digits_of_length [of 16 "unat v" 15]
    by (simp_all add: uitoa_text_def)
  show "of_char CHR ''$'' \<notin> set (uitoa_text v 10)" "of_char CHR ''$'' \<notin> set (uitoa_text v 16)"
    using digits_no_dollar [of 10 "unat v"] digits_no_dollar [of 16 "unat v"] by (simp_all add: uitoa_text_def)
qed

lemma parse_leading_zeros: "parse_nat b (replicate k 48 @ str) = parse_nat b str"
  by (induction k) (simp_all add: parse_nat_def digit_value_def)

text \<open>A number that \<open>kprintf_serial\<close> prints reads back: \<open>%d\<close> as the signed and \<open>%u\<close> as the unsigned value in
  base 10, and \<open>%x\<close> as the value in base 16 with exactly 16 digits.\<close>

theorem kprintf_serial_numbers:
  fixes s :: "'z console_scheme"
  assumes "transmits (device s)" and "\<not> currentlyReadingAnything s"
  shows "(\<exists>t txt. kprintf_serial (chars ''%d'') [VNum v] s = Some (Inr t) \<and>
       port_out t = port_out s @ map (Pair 0x3f8) txt \<and> parse_int 10 txt = sint v) \<and>
     (\<exists>t txt. kprintf_serial (chars ''%u'') [VNum v] s = Some (Inr t) \<and>
       port_out t = port_out s @ map (Pair 0x3f8) txt \<and> parse_nat 10 txt = unat v) \<and>
     (\<exists>t txt. kprintf_serial (chars ''%x'') [VNum v] s = Some (Inr t) \<and>
       port_out t = port_out s @ map (Pair 0x3f8) txt \<and> parse_nat 16 txt = unat v \<and> length txt = 16)"
proof (intro conjI)
  note w = write_str_serial [OF assms]
  have ten: "sint (10 :: i64) = 10" by (simp add: sint_uint signed_take_bit_eq_take_bit_shift take_bit_eq_mod)
  have d: "buffer_text (itoa v 0 10 local_mem) = Some (itoa_text v 10)"
    using itoa_writes(1) [of 10 0 v local_mem] itoa_writes(2,3) [of 10 0 v] ten by (simp add: buffer_put_bytes)
  obtain n where "write_str True False (itoa_text v 10) s = Some (s\<lparr>reads := n, port_out := port_out s @ map (Pair 0x3f8) (itoa_text v 10)\<rparr>)"
    using w [OF itoa_text_10(2)] by blast
  then have "kprintf_serial (chars ''%d'') [VNum v] s =
      Some (Inr (s\<lparr>reads := n, port_out := port_out s @ map (Pair 0x3f8) (itoa_text v 10)\<rparr>))"
    using d by (simp add: kprintf_serial_def chars_def format_spec_def take_num_def Let_def)
  then show "\<exists>t txt. kprintf_serial (chars ''%d'') [VNum v] s = Some (Inr t) \<and>
       port_out t = port_out s @ map (Pair 0x3f8) txt \<and> parse_int 10 txt = sint v"
    using itoa_text_10(1) [of v] by auto
next
  have u: "buffer_text (uitoa v 0 10 local_mem) = Some (uitoa_text v 10)"
    using uitoa_writes(1) [of 10 0 v local_mem] uitoa_writes(2,3) [of 10 0 v] by (simp add: buffer_put_bytes)
  obtain n where "write_str True False (uitoa_text v 10) s = Some (s\<lparr>reads := n, port_out := port_out s @ map (Pair 0x3f8) (uitoa_text v 10)\<rparr>)"
    using write_str_serial [OF assms uitoa_text_facts(5)] by blast
  then have "kprintf_serial (chars ''%u'') [VNum v] s =
      Some (Inr (s\<lparr>reads := n, port_out := port_out s @ map (Pair 0x3f8) (uitoa_text v 10)\<rparr>))"
    using u by (simp add: kprintf_serial_def chars_def format_spec_def take_num_def Let_def)
  then show "\<exists>t txt. kprintf_serial (chars ''%u'') [VNum v] s = Some (Inr t) \<and>
       port_out t = port_out s @ map (Pair 0x3f8) txt \<and> parse_nat 10 txt = unat v"
    using uitoa_text_facts(1) [of v] by auto
next
  let ?x = "replicate (16 - length (uitoa_text v 16)) (of_char CHR ''0'') @ uitoa_text v 16"
  have x: "hex_text (uitoa v 0 16 local_mem) = Some ?x"
    using uitoa_writes(1) [of 16 0 v local_mem] uitoa_writes(2,3) [of 16 0 v] uitoa_text_facts(4) [of v] by (simp add: hex_put_bytes)
  have "of_char CHR ''$'' \<notin> set ?x" using uitoa_text_facts(6) by auto
  then obtain n where "write_str True False ?x s = Some (s\<lparr>reads := n, port_out := port_out s @ map (Pair 0x3f8) ?x\<rparr>)"
    using write_str_serial [OF assms] by blast
  then have "kprintf_serial (chars ''%x'') [VNum v] s =
      Some (Inr (s\<lparr>reads := n, port_out := port_out s @ map (Pair 0x3f8) ?x\<rparr>))"
    using x by (simp add: kprintf_serial_def chars_def format_spec_def take_num_def Let_def)
  then show "\<exists>t txt. kprintf_serial (chars ''%x'') [VNum v] s = Some (Inr t) \<and>
       port_out t = port_out s @ map (Pair 0x3f8) txt \<and> parse_nat 16 txt = unat v \<and> length txt = 16"
    using uitoa_text_facts(2,4) [of v]
    by (intro exI [of _ "s\<lparr>reads := n, port_out := port_out s @ map (Pair 0x3f8) ?x\<rparr>"] exI [of _ ?x])
      (simp add: parse_leading_zeros)
qed

theorem kprintf_serial_numbers_witness:
  "\<exists>t txt. kprintf_serial (chars ''%x'') [VNum 0xFF00FF] console_example = Some (Inr t) \<and>
     port_out t = map (Pair 0x3f8) txt \<and> parse_nat 16 txt = 0xFF00FF \<and> length txt = 16"
  using kprintf_serial_numbers [of console_example "0xFF00FF"] by simp

text \<open>The local buffers of \<open>_kprintf\<close> are large enough: no conversion writes beyond the 32 bytes of \<open>buf\<close>, and
  the hexadecimal digits fit in front of the terminator of \<open>newBuf\<close>.\<close>

theorem kprintf_buffers_suffice:
  assumes "unat buf + 65 < 2 ^ 64" and "base = 8 \<or> base = 10" and "ubase = 10 \<or> ubase = 16"
  shows "\<exists>m1 m2. itoa v buf base m = Some (buf, m1) \<and> (\<forall>x. \<not> in_region buf 32 x \<longrightarrow> m1 x = m x) \<and>
     uitoa w buf ubase m = Some (buf, m2) \<and> (\<forall>x. \<not> in_region buf 32 x \<longrightarrow> m2 x = m x) \<and>
     (\<exists>n. strlen m2 buf = Some (of_nat n) \<and> (ubase = 16 \<longrightarrow> n \<le> 16))"
proof -
  have b: "sint base = (if base = 8 then 8 else 10)"
    using assms(2) by (auto simp: sint_uint signed_take_bit_eq_take_bit_shift take_bit_eq_mod)
  have b2: "2 \<le> sint base" "sint base \<le> 36" using b by (simp_all split: if_splits)
  have l: "length (itoa_text v base) \<le> 31"
  proof (cases "base = 8")
    case True
    have "nat \<bar>sint v\<bar> < 8 ^ Suc 21" using abs_sint [of v] by simp
    then have "length (digits_of 8 (nat \<bar>sint v\<bar>)) \<le> Suc 21" by (intro digits_of_length) simp_all
    then show ?thesis using True b by (simp add: itoa_text_def)
  next
    case False
    then show ?thesis using assms(2) itoa_text_10(3) [of v] by simp
  qed
  have frame: "put_bytes m buf (str @ [0]) x = m x" if "length str \<le> 31" "\<not> in_region buf 32 x" for str x
    using that put_bytes_frame [of "str @ [0]" 0 32 buf x m] by simp
  have u: "2 \<le> ubase" "ubase \<le> 36" "length (uitoa_text w ubase) \<le> 20" "ubase = 16 \<longrightarrow> length (uitoa_text w ubase) \<le> 16"
    using assms(3) uitoa_text_facts(3,4) [of w] by auto
  have bu: "unat buf + 64 < 2 ^ 64" using assms(1) by simp
  note uw = uitoa_writes [OF u(1,2) bu, of w]
  have "string_at (put_bytes m buf (uitoa_text w ubase @ [0])) buf (uitoa_text w ubase)"
    using uw(2,3) by (intro put_bytes_string) simp_all
  then have "strlen (put_bytes m buf (uitoa_text w ubase @ [0])) buf = Some (of_nat (length (uitoa_text w ubase)))"
    using strlen_loop_cstring [OF string_at_cstring, of _ buf _ 0] by (simp add: strlen_def)
  then show ?thesis
    using itoa_writes(1) [OF b2 assms(1), of v m] uw(1) [of m] frame [OF l] frame [of "uitoa_text w ubase"] u(3,4) by auto
qed

theorem kprintf_buffers_suffice_witness:
  "\<exists>m1. itoa (- 1) 0x7000 8 (\<lambda>_. 0xAA) = Some (0x7000, m1) \<and> m1 0x7020 = 0xAA"
  using kprintf_buffers_suffice [of "0x7000" 8 16 "- 1" "\<lambda>_. 0xAA" 0] by (auto simp: in_region_def)

section \<open>The terminal\<close>

text \<open>C36: from \<open>Terminal::init\<close> on, writing any text keeps the cursor inside the character grid: every write of
  the terminal returns, the column stays within the line and the row within the screen, also across line
  ends and the clearing of a full screen.\<close>

theorem terminal_cursor_stays:
  fixes s :: "'z console_scheme"
  assumes "transmits (device s)" and "\<not> currentlyReadingAnything s" and "charX s = 0" and "charY s = 0"
  shows "\<exists>t. Terminal_write str (Terminal_init s) = Some t \<and> charX t \<le> charsPerLine t \<and> charY t \<le> maxLines t \<and>
     charsPerLine t \<le> 256 \<and> maxLines t \<le> 128"
proof -
  have i: "device (Terminal_init s) = device s" "\<not> currentlyReadingAnything (Terminal_init s)" "cursor_ok (Terminal_init s)"
    using assms by (simp_all add: Terminal_init_def Let_def cursor_ok_def not_less)
  have "\<exists>t. Terminal_write str u = Some t \<and> cursor_ok t"
    if "transmits (device u)" "\<not> currentlyReadingAnything u" "cursor_ok u" for u :: "'z console_scheme"
    using that
  proof (induction str arbitrary: u)
    case (Cons c str)
    obtain v where v: "writechar c u = Some v" "console_kept u v" "cursor_ok v"
      using writechar_returns [OF Cons.prems(1,2)] Cons.prems(3) by blast
    with Cons.IH [of v] Cons.prems show ?case by (auto simp: console_kept_def)
  qed simp
  then show ?thesis using i assms(1) by (force simp: cursor_ok_def)
qed

theorem terminal_cursor_stays_witness:
  "\<exists>t. Terminal_write (chars ''hello'') (Terminal_init console_example) = Some t \<and> charX t \<le> charsPerLine t"
  using terminal_cursor_stays [of console_example "chars ''hello''"] by auto

end
