(* ===== verification/Tables_Props.thy ===== *)
theory Tables_Props
  imports Tables Console_Props
begin

text \<open>
  The tables as the processor decodes them: the handler of a gate, the base of the task state segment, and the
  message of a page fault.
\<close>

section \<open>Gates\<close>

text \<open>The handler address that the processor assembles from a gate.\<close>

definition gate_handler :: "InterruptDescriptor \<Rightarrow> u64" where
  "gate_handler d = ucast (addressLow d) OR push_bit 16 (ucast (addressMid d)) OR push_bit 32 (ucast (addressHigh d))"

lemma narrow:
  "(ucast (ucast x :: u16) :: u64) = take_bit 16 x" "(ucast (ucast x :: u8) :: u64) = take_bit 8 x"
  "(ucast (ucast x :: u32) :: u64) = take_bit 32 x" for x :: u64
  by (rule bit_word_eqI; auto simp: bit_simps)+

lemma and_mask_take_bit: "(b :: u64) AND 0xFFFF = take_bit 16 b" "b AND 0xFF = take_bit 8 b" "b AND 0xFFFFFFFF = take_bit 32 b"
  by (simp_all add: take_bit_eq_mask mask_eq_exp_minus_1)

lemma gate_handler_split:
  fixes a :: u64
  shows "take_bit 16 a OR push_bit 16 (take_bit 16 (drop_bit 16 a)) OR push_bit 32 (take_bit 32 (drop_bit 32 a)) = a"
proof (rule bit_word_eqI)
  fix n assume n: "n < LENGTH(64)"
  consider "n < 16" | "16 \<le> n" "n < 32" | "32 \<le> n" by linarith
  then show "bit (take_bit 16 a OR push_bit 16 (take_bit 16 (drop_bit 16 a)) OR push_bit 32 (take_bit 32 (drop_bit 32 a))) n = bit a n"
    using n by cases (auto simp: bit_simps)
qed

lemma setIdtEntry_gate:
  "gate_handler (setIdtEntry v a dpl t v) = a" "flags (setIdtEntry v a dpl t v) = 0x8E OR push_bit 5 (dpl AND 3)"
  "selector (setIdtEntry v a dpl t v) = 8" "ist (setIdtEntry v a dpl t v) = 0"
proof -
  show "gate_handler (setIdtEntry v a dpl t v) = a"
    using gate_handler_split [of a] by (simp add: setIdtEntry_def gate_handler_def narrow and_mask_take_bit)
  have "(0b1110 :: u8) OR push_bit 5 (dpl AND 3) OR push_bit 7 1 = (0b1110 OR push_bit 7 1) OR push_bit 5 (dpl AND 3)"
    by (simp only: or.assoc or.commute or.left_commute)
  then show "flags (setIdtEntry v a dpl t v) = 0x8E OR push_bit 5 (dpl AND 3)" by (simp add: setIdtEntry_def)
qed (simp_all add: setIdtEntry_def)

text \<open>C37: after \<open>initInts\<close> every one of the 256 gates is present, has privilege level 0 and the kernel code
  selector, and its handler is the stub of its vector: \<open>vector_0_handler + 16 * vector\<close>. Its type is 0xE, a 64-bit
  interrupt gate, which masks interrupts on entry; the comment beside the code calls it a trap gate, whose
  type would be 0xF.\<close>

theorem initInts_gates:
  "gate_handler (initInts h t v) = h + 16 * ucast v \<and> flags (initInts h t v) = 0x8E \<and>
   take_bit 4 (flags (initInts h t v)) = 0xE \<and>
   selector (initInts h t v) = 8 \<and> ist (initInts h t v) = 0"
proof -
  have v: "unat v < 256" using unsigned_less [of v] by simp
  have u: "unat (ucast v :: u64) = unat v" using v by (simp add: unsigned_ucast_eq take_bit_nat_eq_self)
  then have vn: "(ucast v :: u64) < 256" using v by (simp add: word_less_nat_alt)
  define rest where "rest = map (of_nat :: nat \<Rightarrow> u64) [Suc (unat (ucast v :: u64))..<unat (256 :: u64)]"
  let ?f = "\<lambda>i. setIdtEntry (ucast i) (h + i * 16) 0"
  have other: "fold ?f is u v = u v" if "\<forall>i\<in>set is. ucast i \<noteq> v" for "is" u
    using that by (induction "is" arbitrary: u) (auto simp: setIdtEntry_def)
  have "ucast i \<noteq> v" if "i \<in> set rest" for i
  proof -
    from that obtain k where k: "Suc (unat v) \<le> k" "k < 256" "i = of_nat k" using u by (auto simp: rest_def)
    then have "unat (ucast i :: u8) = k" by (simp add: unsigned_ucast_eq unat_of_nat take_bit_nat_eq_self)
    then show ?thesis using k(1) by auto
  qed
  then have r: "fold ?f rest u v = u v" for u by (rule other [rule_format])
  have "initInts h t = fold ?f rest (?f (ucast v) (fold ?f (count_upto (ucast v)) t))"
    unfolding initInts_def count_upto_split [OF vn] rest_def by simp
  moreover have "(ucast (ucast v :: u64) :: u8) = v" by (rule bit_word_eqI) (auto simp: bit_simps)
  ultimately have "initInts h t v = setIdtEntry v (h + ucast v * 16) 0 (fold ?f (count_upto (ucast v)) t) v"
    by (simp add: r)
  then show ?thesis by (simp add: setIdtEntry_gate mult.commute)
qed

section \<open>Page faults\<close>

lemma put_bytes_append_at:
  "append_text buf str (off, put_bytes m buf xs) = (off + of_nat (length str), put_bytes m buf (xs @ chars str))"
  if "off = of_nat (length xs)"
  using that by (simp add: append_text_def put_bytes_append)

definition page_fault_text :: "u64 \<Rightarrow> string" where
  "page_fault_text code =
     (if bit code 2 then ''User Process '' else ''Supervisor Process '') @
     (if bit code 1 then ''write to '' else ''read from '') @
     (if bit code 4 then ''instruction '' else ''data '') @
     (if bit code 0 then ''and caused a protection fault'' else ''non-present page entry'')"

lemma bit_test: "drop_bit n (code :: u64) AND 1 = 0 \<longleftrightarrow> \<not> bit code n"
  by (simp add: bit_iff_odd_drop_bit and_one_eq even_iff_mod_2_eq_zero)

lemma bit_test_0: "(code :: u64) AND 1 = 0 \<longleftrightarrow> \<not> bit code 0"
  using bit_test [of 0 code] by simp

lemma if_not_if: "(if \<not> b then x else y) = (if b then y else x)"
  by simp

lemma getPageFaultString_text:
  "getPageFaultString buf code m = put_bytes m buf (chars (page_fault_text code))"
proof -
  let ?a = "if bit code 2 then ''User Process '' else ''Supervisor Process ''"
  let ?b = "if bit code 1 then ''write to '' else ''read from ''"
  let ?c = "if bit code 4 then ''instruction '' else ''data ''"
  let ?d = "if bit code 0 then ''and caused a protection fault'' else ''non-present page entry''"
  have "getPageFaultString buf code m =
      snd (append_text buf ?d (append_text buf ?c (append_text buf ?b (append_text buf ?a (0, put_bytes m buf [])))))"
    unfolding getPageFaultString_def Let_def bit_test unfolding bit_test_0 if_not_if by simp
  also have "\<dots> = put_bytes m buf (chars ?a @ chars ?b @ chars ?c @ chars ?d)"
  proof -
    have "append_text buf ?a (0, put_bytes m buf []) = (of_nat (length ?a), put_bytes m buf (chars ?a))"
      by (subst put_bytes_append_at) simp_all
    then show ?thesis
      by (simp only: put_bytes_append_at chars_def length_append length_map of_nat_add snd_conv append_assoc add.assoc)
  qed
  finally show ?thesis unfolding page_fault_text_def chars_def map_append .
qed

lemma page_fault_chars: "0 \<notin> set (chars (page_fault_text code))" "length (page_fault_text code) < 256"
  by (auto simp: page_fault_text_def chars_def)

lemma chars_string: "map (char_of \<circ> unat) (chars str) = str"
proof -
  have "char_of (unat (of_char c :: u8)) = c" for c
  proof -
    have "(of_char c :: nat) < 256" by (simp add: of_char_def)
    then have "unat (of_nat (of_char c) :: u8) = (of_char c :: nat)" by (intro unat_of_nat_small) simp
    then show ?thesis by (simp add: of_nat_of_char)
  qed
  then show ?thesis by (simp add: chars_def comp_def map_idI)
qed

text \<open>C38: a page fault halts the kernel with a message that states, as the error code has it, who accessed the page,
  whether it was written or read, whether data or instructions were accessed and whether the page was
  present. The message stays inside the 256 bytes of its buffer; it ends where the buffer held a zero before, since no
  terminator is written.\<close>

theorem page_fault_message:
  assumes "vectorNumber ctx = 14" and "vram s (buf + of_nat (length (page_fault_text (errorCode ctx)))) = 0"
  shows "interruptDispatch buf ctx s = Some (Inl (Panic (page_fault_text (errorCode ctx)))) \<and>
     (\<forall>x. \<not> in_region buf 256 x \<longrightarrow> getPageFaultString buf (errorCode ctx) (vram s) x = vram s x)"
proof -
  let ?str = "chars (page_fault_text (errorCode ctx))" and ?m = "vram s"
  have len: "length ?str < 256" using page_fault_chars(2) by (simp add: chars_def)
  have a: "put_bytes ?m buf ?str (buf + of_nat i) = (if i < length ?str then ?str ! i else ?m (buf + of_nat i))" if "i \<le> length ?str" for i
    using len that put_bytes_apply [of ?str ?m buf "buf + of_nat i"] by (simp add: in_region_def unat_of_nat_small)
  have "bytes_at (put_bytes ?m buf ?str) buf (length ?str) = ?str"
    using a by (intro nth_equalityI) (simp_all add: bytes_at_def)
  moreover have "put_bytes ?m buf ?str (buf + of_nat (length ?str)) = 0"
    using a [of "length ?str"] assms(2) by (simp add: chars_def)
  ultimately have "string_at (put_bytes ?m buf ?str) buf ?str"
    using page_fault_chars(1) by (simp add: string_at_def)
  then have "read_string (getPageFaultString buf (errorCode ctx) ?m) buf = Some ?str"
    by (simp add: getPageFaultString_text read_string_at)
  moreover have "put_bytes ?m buf ?str x = ?m x" if "\<not> in_region buf 256 x" for x
    using put_bytes_frame [of ?str 0 256 buf x ?m] that len by simp
  ultimately show ?thesis using assms(1) by (simp add: interruptDispatch_def chars_string getPageFaultString_text)
qed

definition fault_example :: CPUStatus where
  "fault_example = \<lparr>r15 = 0, r14 = 0, r13 = 0, r12 = 0, r11 = 0, r10 = 0, r9 = 0, r8 = 0, rdx = 0, rcx = 0, rbx = 0, rax = 0,
     vectorNumber = 14, errorCode = 6, iret_rip = 0, iret_cs = 8, iret_flags = 0, iret_rsp = 0, iret_ss = 0\<rparr>"

theorem page_fault_message_witness:
  "interruptDispatch 0x9000 fault_example console_example =
     Some (Inl (Panic ''User Process write to data non-present page entry''))"
proof -
  have "page_fault_text 6 = ''User Process write to data non-present page entry''"
    by (simp add: page_fault_text_def bit_numeral_rec)
  then show ?thesis
    using page_fault_message [of fault_example console_example "0x9000"] by (simp add: fault_example_def console_example_def)
qed

section \<open>Task state segment\<close>

text \<open>The bytes of the table in memory.\<close>

definition entry_bytes :: "GDTEntry \<Rightarrow> u8 list" where
  "entry_bytes e = [ucast (Limit0 e), ucast (drop_bit 8 (Limit0 e)), ucast (Base0 e), ucast (drop_bit 8 (Base0 e)), Base1 e, AccessByte e,
     Limit1_Flags e, Base2 e]"

definition gdt_bytes :: "GDT \<Rightarrow> u8 list" where
  "gdt_bytes g = concat (map entry_bytes [Null g, KernelCode g, KernelData g, UserNull g, UserCode g, UserData g, TSS g]) @ gdt_padding g"

text \<open>
  What the processor reads from the 16 bytes of a system descriptor in 64-bit mode: the access byte, the base, whose upper 32 bits
  are behind the 8 bytes of an ordinary entry, and the limit, which counts pages when the granularity bit is set.
\<close>

definition descriptor_access :: "u8 list \<Rightarrow> u8" where
  "descriptor_access bs = bs ! 5"

definition descriptor_base :: "u8 list \<Rightarrow> u64" where
  "descriptor_base bs = fold (\<lambda>(i, k) v. v OR push_bit k (ucast (bs ! i))) [(2, 0), (3, 8), (4, 16), (7, 24), (8, 32), (9, 40), (10, 48), (11, 56)] 0"

definition descriptor_limit :: "u8 list \<Rightarrow> u64" where
  "descriptor_limit bs = (let l = ucast (bs ! 0) OR push_bit 8 (ucast (bs ! 1)) OR push_bit 16 (ucast (bs ! 6 AND 0xF))
     in if bit (bs ! 6) 7 then l * 4096 + 4095 else l)"

lemma base_split:
  fixes a w :: u64
  shows "take_bit 16 a OR push_bit 16 (take_bit 8 (drop_bit 16 a)) OR push_bit 24 (take_bit 8 (drop_bit 24 a)) OR w = take_bit 32 a OR w"
proof (rule bit_word_eqI)
  fix n assume n: "n < LENGTH(64)"
  consider "n < 16" | "16 \<le> n" "n < 24" | "24 \<le> n" "n < 32" | "32 \<le> n" by linarith
  then show "bit (take_bit 16 a OR push_bit 16 (take_bit 8 (drop_bit 16 a)) OR push_bit 24 (take_bit 8 (drop_bit 24 a)) OR w) n =
      bit (take_bit 32 a OR w) n"
    using n by cases (auto simp: bit_simps)
qed

lemma low_bytes:
  fixes a :: u64
  shows "ucast (ucast (ucast (take_bit 16 a) :: u16) :: u8) OR push_bit 8 (ucast (ucast (drop_bit 8 (ucast (take_bit 16 a) :: u16)) :: u8)) =
    take_bit 16 a"
proof (rule bit_word_eqI)
  fix n assume "n < LENGTH(64)"
  then show "bit (ucast (ucast (ucast (take_bit 16 a) :: u16) :: u8) OR
      push_bit 8 (ucast (ucast (drop_bit 8 (ucast (take_bit 16 a) :: u16)) :: u8)) :: u64) n = bit (take_bit 16 a) n"
    by (cases "n < 8") (auto simp: bit_simps)
qed

text \<open>C39: \<open>gdt_init\<close>, on the table as it is linked, loads a table of 4096 bytes and leaves its first six entries as they were. The 16 bytes that the
  task register then selects, as the processor decodes them, are a present, available 64-bit task state segment. Only the first half of
  the descriptor was stored: the second half is padding of the table, so the base is the address of the segment without its upper
  32 bits. It is right exactly for a segment below 4 GiB, while the kernel is linked into the upper half of the address space. The
  limit counts pages, so it covers 105 pages instead of the 104 bytes of the segment.\<close>

theorem gdt_init_tss_base:
  "let t = gdt_init tss_addr gdt_addr (s\<lparr>gdt := defaultGDT\<rparr>); table = gdt_bytes (gdt t); desc = drop (unat (task_register t)) table in
     gdtr t = \<lparr>gdt_Size = 0xFFF, gdt_Offset = gdt_addr\<rparr> \<and> length table = 0x1000 \<and> task_register t = 0x30 \<and>
     take 0x30 table = take 0x30 (gdt_bytes defaultGDT) \<and> descriptor_access desc = 0x89 \<and> descriptor_limit desc = 105 * 4096 - 1 \<and>
     descriptor_base desc = take_bit 32 tss_addr \<and> (descriptor_base desc = tss_addr \<longleftrightarrow> unat tss_addr < 2 ^ 32)"
proof -
  define t where "t = gdt_init tss_addr gdt_addr (s\<lparr>gdt := defaultGDT\<rparr>)"
  define e where "e = first_half (TSS_ENTRY tss_addr 104)"
  define desc where "desc = entry_bytes e @ replicate 4040 0"
  have t: "gdtr t = \<lparr>gdt_Size = 0xFFF, gdt_Offset = gdt_addr\<rparr>" "task_register t = 0x30" "gdt t = defaultGDT\<lparr>TSS := e\<rparr>"
    by (simp_all add: t_def e_def gdt_init_def loadTSS_def Let_def struct_sizes)
  have table: "length (gdt_bytes (gdt t)) = 0x1000" "take 0x30 (gdt_bytes (gdt t)) = take 0x30 (gdt_bytes defaultGDT)"
    "drop 0x30 (gdt_bytes (gdt t)) = desc"
    by (simp_all add: t(3) gdt_bytes_def defaultGDT_def entry_bytes_def desc_def)
  have n: "desc ! i = 0" if "i \<in> {8, 9, 10, 11}" for i using that by (auto simp: desc_def entry_bytes_def nth_append)
  have b: "descriptor_base desc = take_bit 32 tss_addr"
    using base_split [of tss_addr 0]
    by (simp add: descriptor_base_def n) (simp add: low_bytes or.assoc desc_def entry_bytes_def e_def first_half_def TSS_ENTRY_def narrow and_mask_take_bit)
  have "unat (take_bit 32 tss_addr) = unat tss_addr mod 2 ^ 32"
    using unsigned_take_bit_eq [of 32 tss_addr] by (simp only: take_bit_eq_mod)
  then have "take_bit 32 tss_addr = tss_addr \<longleftrightarrow> unat tss_addr < 2 ^ 32"
    by (simp add: word_unat_eq_iff mod_eq_self_iff_div_eq_0 div_eq_0_iff)
  moreover have "descriptor_access desc = 0x89" "descriptor_limit desc = 105 * 4096 - 1"
    by (simp_all add: descriptor_access_def descriptor_limit_def desc_def entry_bytes_def e_def first_half_def TSS_ENTRY_def Let_def)
  ultimately show ?thesis using t table b unfolding t_def [symmetric] Let_def by simp
qed

section \<open>Loading the interrupt table\<close>

lemma bit_load_le: "n \<le> 8 \<Longrightarrow> bit (load_le n m a) k \<longleftrightarrow> k < 8 * n \<and> bit (m (a + of_nat (k div 8))) (k mod 8)"
proof (induction n arbitrary: a k)
  case (Suc n)
  show ?case
  proof (cases "k < 8")
    case True
    then show ?thesis by (simp add: bit_simps)
  next
    case False
    then obtain j where j: "k = j + 8" by (metis le_add_diff_inverse2 not_less)
    then have "bit (load_le (Suc n) m a) k \<longleftrightarrow> j < 8 * n \<and> bit (m (a + 1 + of_nat (j div 8))) (j mod 8)"
      using Suc bit_imp_le_length [of "m a" "j + 8"] by (auto simp: bit_simps)
    moreover have "(j + 8) div 8 = Suc (j div 8)" by simp
    ultimately show ?thesis by (simp add: j add.assoc)
  qed
qed simp

text \<open>The register is loaded with the bytes of the pointer and what follows it on the stack, not with the descriptor.\<close>

lemma loadIDT_register:
  "idt_limit (fst (loadIDT idtAddr idtReg idtRegPtr m)) = ucast idtReg"
  "take_bit 48 (idt_base (fst (loadIDT idtAddr idtReg idtRegPtr m))) = drop_bit 16 idtReg"
proof -
  let ?m = "store64 (store64 (store_le 2 m idtReg 0xFFF) (idtReg + 2) idtAddr) idtRegPtr idtReg"
  have b: "bit (?m (idtRegPtr + of_nat j)) i \<longleftrightarrow> i < 8 \<and> bit idtReg (8 * j + i)" if "j < 8" for i j
    using that in_region_offset [of j 8 idtRegPtr]
    by (auto simp: store64_def store_le_apply unat_of_nat_small bit_simps)
  show "idt_limit (fst (loadIDT idtAddr idtReg idtRegPtr m)) = ucast idtReg"
  proof (rule bit_word_eqI)
    fix k assume "k < LENGTH(16)"
    then show "bit (idt_limit (fst (loadIDT idtAddr idtReg idtRegPtr m))) k = bit (ucast idtReg :: u16) k"
      using b [of "k div 8" "k mod 8"] by (simp add: loadIDT_def Let_def bit_load_le bit_simps)
  qed
  show "take_bit 48 (idt_base (fst (loadIDT idtAddr idtReg idtRegPtr m))) = drop_bit 16 idtReg"
  proof (rule bit_word_eqI)
    fix k assume "k < LENGTH(64)"
    have "bit (load64 ?m (idtRegPtr + 2)) k \<longleftrightarrow> bit idtReg (k + 16)" if "k < 48"
      using b [of "k div 8 + 2" "k mod 8"] that by (simp add: load64_def bit_load_le add.assoc add.commute [of 16] less_mult_imp_div_less)
    then show "bit (take_bit 48 (idt_base (fst (loadIDT idtAddr idtReg idtRegPtr m)))) k = bit (drop_bit 16 idtReg) k"
      using bit_imp_le_length [of idtReg "k + 16"] by (auto simp: loadIDT_def Let_def bit_simps add.commute)
  qed
qed

end
