(* ===== verification/Framebuffer_Props.thy ===== *)
theory Framebuffer_Props
  imports Framebuffer
begin

text \<open>
  Where the drawing routines write. A pixel is one 32-bit cell; cells of different offsets do not overlap,
  so the effect of drawing a glyph is the set of the cells of its pixels.
\<close>

definition pitch_pixels :: "'z screen_scheme \<Rightarrow> nat" where
  "pitch_pixels s = unat (fb_pitch (gFramebuffer s) div 4)"

definition pixel_count :: "'z screen_scheme \<Rightarrow> nat" where
  "pixel_count s = pitch_pixels s * unat (fb_height (gFramebuffer s))"

definition cell :: "'z screen_scheme \<Rightarrow> nat \<Rightarrow> u64" where
  "cell s k = fb_address (gFramebuffer s) + 4 * of_nat k"

text \<open>The framebuffer and the nine pixels behind it are addressable and their offsets fit in 32 bits.\<close>

definition screen_ok :: "'z screen_scheme \<Rightarrow> bool" where
  "screen_ok s \<longleftrightarrow> pixel_count s + 9 \<le> 2 ^ 32 \<and> unat (fb_address (gFramebuffer s)) + 4 * (pixel_count s + 9) \<le> 2 ^ 64"

lemma drawPoint_screen [simp]:
  "gFramebuffer (drawPoint x y c s) = gFramebuffer s" "font_end (drawPoint x y c s) = font_end s"
  "screen_ok (drawPoint x y c s) = screen_ok s" "cell (drawPoint x y c s) = cell s"
  "pixel_count (drawPoint x y c s) = pixel_count s" "pitch_pixels (drawPoint x y c s) = pitch_pixels s"
  by (simp_all add: drawPoint_def screen_ok_def cell_def pixel_count_def pitch_pixels_def fun_eq_iff)

lemma unat_ucast_32_64: "unat (ucast (v :: u32) :: u64) = unat v"
proof -
  have "unat v < 2 ^ LENGTH(32)" by (rule unsigned_less)
  then show ?thesis by (simp add: unsigned_ucast_eq take_bit_nat_eq_self)
qed

lemma translateToOffset_eq:
  assumes "unat y * pitch_pixels s + unat x < 2 ^ 32"
  shows "unat (translateToOffset x y s) = unat y * pitch_pixels s + unat x"
proof -
  let ?p = "fb_pitch (gFramebuffer s) div 4"
  have "unat (ucast y * ?p :: u64) = unat y * pitch_pixels s"
    using assms by (subst unat_mult_no_wrap) (simp_all add: unat_ucast_32_64 pitch_pixels_def)
  then have "unat (ucast y * ?p + ucast x :: u64) = unat y * pitch_pixels s + unat x"
    using assms by (subst unat_add_no_wrap) (simp_all add: unat_ucast_32_64)
  then show ?thesis using assms
    by (simp add: translateToOffset_def unsigned_ucast_eq take_bit_nat_eq_self)
qed

lemma drawPoint_cell:
  assumes "unat y * pitch_pixels s + unat x < 2 ^ 32"
  shows "drawPoint x y c s = s\<lparr>vram := store32 (vram s) (cell s (unat y * pitch_pixels s + unat x)) c\<rparr>"
proof -
  have "(ucast (translateToOffset x y s) :: u64) = of_nat (unat y * pitch_pixels s + unat x)"
    using translateToOffset_eq [OF assms] by (metis of_nat_unat ucast_id unat_ucast_32_64)
  then show ?thesis by (simp add: drawPoint_def cell_def)
qed

lemma cell_unat:
  assumes "screen_ok s" and "k < pixel_count s + 9"
  shows "unat (cell s k) = unat (fb_address (gFramebuffer s)) + 4 * k" and "unat (cell s k) + 4 \<le> 2 ^ 64"
proof -
  have "unat (fb_address (gFramebuffer s)) + 4 * k + 4 \<le> 2 ^ 64" using assms by (simp add: screen_ok_def)
  moreover have "cell s k = fb_address (gFramebuffer s) + of_nat (4 * k)" by (simp add: cell_def)
  ultimately show "unat (cell s k) = unat (fb_address (gFramebuffer s)) + 4 * k" "unat (cell s k) + 4 \<le> 2 ^ 64"
    by (simp_all only: unat_add_of_nat)
qed

lemma cells_apart:
  assumes "screen_ok s" and "j < pixel_count s + 9" and "k < pixel_count s + 9" and "j \<noteq> k"
  shows "region_disjoint (cell s j) 4 (cell s k) 4"
  using cell_unat [OF assms(1,2)] cell_unat [OF assms(1,3)] assms(4) by (intro region_disjoint_no_wrap) auto

text \<open>The offset of the pixel in row \<open>cy\<close> and column \<open>cx\<close> of a glyph at \<open>x\<close>, \<open>y\<close>.\<close>

definition glyph_offset :: "'z screen_scheme \<Rightarrow> u32 \<Rightarrow> u32 \<Rightarrow> nat \<times> nat \<Rightarrow> nat" where
  "glyph_offset s x y p = (unat y + fst p) * pitch_pixels s + (unat x + 16 - snd p)"

definition glyph_fits :: "'z screen_scheme \<Rightarrow> u32 \<Rightarrow> u32 \<Rightarrow> bool" where
  "glyph_fits s x y \<longleftrightarrow> screen_ok s \<and> unat x + 8 \<le> pitch_pixels s \<and> unat y + 16 \<le> unat (fb_height (gFramebuffer s))"

lemma glyph_offset_bound:
  assumes "glyph_fits s x y" and "fst p < 16" and "snd p < 8"
  shows "glyph_offset s x y p < pixel_count s + 9"
proof -
  let ?h = "unat (fb_height (gFramebuffer s))" and ?P = "pitch_pixels s"
  have "Suc (unat y + fst p) \<le> ?h" using assms by (auto simp: glyph_fits_def)
  then have "Suc (unat y + fst p) * ?P \<le> ?h * ?P" by (rule mult_le_mono1)
  then have "(unat y + fst p) * ?P + ?P \<le> ?h * ?P" by (simp add: add.commute)
  then show ?thesis using assms by (auto simp: glyph_offset_def glyph_fits_def pixel_count_def mult.commute)
qed

lemma glyph_pixel:
  assumes fit: "glyph_fits s x y" and p: "fst p < 16" "snd p < 8"
  shows "drawPoint (x + 16 - of_nat (snd p)) (y + of_nat (fst p)) c s = s\<lparr>vram := store32 (vram s) (cell s (glyph_offset s x y p)) c\<rparr>"
proof -
  let ?P = "pitch_pixels s" and ?h = "unat (fb_height (gFramebuffer s))"
  have b: "glyph_offset s x y p < 2 ^ 32"
    using glyph_offset_bound [OF assms] fit by (simp add: glyph_fits_def screen_ok_def)
  have P: "8 \<le> ?P" "16 \<le> ?h" "unat x + 8 \<le> ?P" "unat y + 16 \<le> ?h" using fit by (auto simp: glyph_fits_def)
  have "?P \<le> pixel_count s" "?h \<le> pixel_count s" using P by (simp_all add: pixel_count_def)
  moreover have "pixel_count s + 9 \<le> 2 ^ 32" using fit by (simp add: glyph_fits_def screen_ok_def)
  ultimately have small: "unat x + 16 < 2 ^ 32" "unat y + 16 < 2 ^ 32" using P(3,4) by linarith+
  have "unat (x + 16) = unat x + 16" using small(1) by (subst unat_add_no_wrap) simp_all
  moreover have "unat (of_nat (snd p) :: u32) = snd p" "unat (of_nat (fst p) :: u32) = fst p"
    using p by (simp_all add: unat_of_nat_small)
  ultimately have "unat (x + 16 - of_nat (snd p)) = unat x + 16 - snd p" "unat (y + of_nat (fst p)) = unat y + fst p"
    using p small by (subst unat_sub_le unat_add_no_wrap; simp)+
  then show ?thesis using b drawPoint_cell [of "y + of_nat (fst p)" s "x + 16 - of_nat (snd p)" c]
    by (simp add: glyph_offset_def)
qed

lemma glyph_fits_drawPoint [simp]:
  "glyph_fits (drawPoint a b c s) x y = glyph_fits s x y" "glyph_offset (drawPoint a b c s) = glyph_offset s"
  by (simp_all add: glyph_fits_def glyph_offset_def fun_eq_iff)

lemma draw_glyph_frame:
  assumes "glyph_fits s x y" and "\<forall>p\<in>set ps. fst p < 16 \<and> snd p < 8"
    and "\<forall>p\<in>set ps. \<not> in_region (cell s (glyph_offset s x y p)) 4 a"
  shows "vram (draw_glyph g x y fg bg ps s) a = vram s a"
  using assms
proof (induction ps arbitrary: s)
  case (Cons p ps)
  obtain cy cx where p: "p = (cy, cx)" by (cases p)
  show ?case
  proof (cases "g + of_nat cy \<ge> font_end s")
    case False
    then obtain c where d: "draw_glyph g x y fg bg (p # ps) s =
        draw_glyph g x y fg bg ps (drawPoint (x + 16 - of_nat cx) (y + of_nat cy) c s)" by (simp add: p Let_def)
    have "vram (drawPoint (x + 16 - of_nat cx) (y + of_nat cy) c s) a = vram s a"
      using glyph_pixel [of s x y p c] Cons.prems p c32.store_frame by simp
    then show ?thesis unfolding d using Cons.prems by (subst Cons.IH) simp_all
  qed (simp add: p)
qed simp

text \<open>A cell that is the target of one of the pixels holds one of the two colours afterwards.\<close>

lemma draw_glyph_paints:
  assumes "glyph_fits s x y" and "\<forall>p\<in>set ps. fst p < 16 \<and> snd p < 8 \<and> g + of_nat (fst p) < font_end s"
    and "k < pixel_count s + 9"
    and "load32 (vram s) (cell s k) \<in> {fg, bg} \<or> (\<exists>p\<in>set ps. glyph_offset s x y p = k)"
  shows "load32 (vram (draw_glyph g x y fg bg ps s)) (cell s k) \<in> {fg, bg}"
  using assms
proof (induction ps arbitrary: s)
  case (Cons p ps)
  obtain cy cx where p: "p = (cy, cx)" by (cases p)
  have "\<not> g + of_nat cy \<ge> font_end s" using Cons.prems(2) by (auto simp: p)
  then obtain c where d: "draw_glyph g x y fg bg (p # ps) s =
      draw_glyph g x y fg bg ps (drawPoint (x + 16 - of_nat cx) (y + of_nat cy) c s)" and c: "c \<in> {fg, bg}"
    by (simp add: p Let_def)
  let ?t = "drawPoint (x + 16 - of_nat cx) (y + of_nat cy) c s"
  have t: "vram ?t = store32 (vram s) (cell s (glyph_offset s x y p)) c"
    using glyph_pixel [of s x y p c] Cons.prems by (simp add: p)
  have "load32 (vram ?t) (cell s k) \<in> {fg, bg} \<or> (\<exists>p\<in>set ps. glyph_offset s x y p = k)"
  proof (cases "glyph_offset s x y p = k")
    case True
    then show ?thesis using c by (simp add: t c32.load_store)
  next
    case False
    have "region_disjoint (cell s (glyph_offset s x y p)) 4 (cell s k) 4"
      using Cons.prems False by (intro cells_apart glyph_offset_bound) (auto simp: glyph_fits_def)
    then have "load32 (vram ?t) (cell s k) = load32 (vram s) (cell s k)" unfolding t by (rule c32.load_store_other)
    then show ?thesis using Cons.prems(4) False by auto
  qed
  with Cons.IH [of ?t] Cons.prems show ?case unfolding d by simp
qed simp

text \<open>A character drawn with its upper left corner on the screen changes no byte outside of the framebuffer and
  the nine pixels that follow it.\<close>

theorem drawChar_bounds:
  assumes "glyph_fits s x y"
    and "\<not> in_region (fb_address (gFramebuffer s)) (4 * (pixel_count s + 9)) a"
  shows "vram (drawChar c x y fg s) a = vram s a"
  unfolding drawChar_def drawCharBg_def
proof (rule draw_glyph_frame [OF assms(1)])
  show "\<forall>p\<in>set (List.product [0..<16] [0..<8]). \<not> in_region (cell s (glyph_offset s x y p)) 4 a"
  proof
    fix p :: "nat \<times> nat" assume "p \<in> set (List.product [0..<16] [0..<8])"
    then have k: "glyph_offset s x y p < pixel_count s + 9" using assms(1) by (intro glyph_offset_bound) auto
    have ok: "screen_ok s" using assms(1) by (simp add: glyph_fits_def)
    have "unat a < unat (fb_address (gFramebuffer s)) \<or> unat (fb_address (gFramebuffer s)) + 4 * (pixel_count s + 9) \<le> unat a"
      using assms(2) ok by (subst (asm) in_region_no_wrap) (auto simp: screen_ok_def)
    then show "\<not> in_region (cell s (glyph_offset s x y p)) 4 a"
      using cell_unat [OF ok k] k by (subst in_region_no_wrap) auto
  qed
qed auto

text \<open>Those nine pixels are written: the character in the last column of the last line, where the terminal draws it when the
  line is a multiple of 8 pixels and the height a multiple of 16, paints a cell behind the end of the
  framebuffer.\<close>

theorem drawChar_past_end:
  assumes "screen_ok s" and "unat x + 8 = pitch_pixels s" and "unat y + 16 = unat (fb_height (gFramebuffer s))"
    and "\<forall>i<16. font_start s + ucast (ucast c * 16 :: u32) + of_nat i < font_end s"
  shows "load32 (vram (drawChar c x y fg s)) (fb_address (gFramebuffer s) + 4 * of_nat (pixel_count s + 8)) \<in> {fg, 0}"
proof -
  have fit: "glyph_fits s x y" using assms by (simp add: glyph_fits_def)
  have "glyph_offset s x y (15, 0) = (unat y + 16) * pitch_pixels s + 8"
    using assms(2) by (simp add: glyph_offset_def algebra_simps)
  then have "glyph_offset s x y (15, 0) = pixel_count s + 8"
    using assms(3) by (simp add: pixel_count_def mult.commute)
  moreover have "(15, 0) \<in> set (List.product [0..<16] [0..<8 :: nat])" by simp
  ultimately have hit: "\<exists>p\<in>set (List.product [0..<16] [0..<8]). glyph_offset s x y p = pixel_count s + 8" by blast
  have "load32 (vram (draw_glyph (font_start s + ucast (ucast c * 16 :: u32)) x y fg 0 (List.product [0..<16] [0..<8]) s))
      (cell s (pixel_count s + 8)) \<in> {fg, 0}"
    using assms(4) hit by (intro draw_glyph_paints [OF fit]) auto
  then show ?thesis by (simp add: drawChar_def drawCharBg_def cell_def)
qed

definition screen_example :: screen where
  "screen_example = \<lparr>port_out = [], reads = 0, device = (\<lambda>_ _. 0), vram = (\<lambda>_. 7),
     gFramebuffer = \<lparr>fb_address = 0xE0000000, fb_width = 640, fb_height = 480, fb_pitch = 2560, fb_bpp = 32\<rparr>,
     font_start = 0x100000, font_end = 0x101000\<rparr>"

lemma screen_example_facts:
  "screen_ok screen_example" "pitch_pixels screen_example = 640" "pixel_count screen_example = 307200"
  "fb_address (gFramebuffer screen_example) = 0xE0000000" "fb_height (gFramebuffer screen_example) = 480"
  by (simp_all add: screen_example_def screen_ok_def pitch_pixels_def pixel_count_def)

theorem drawChar_bounds_witness:
  "vram (drawChar 65 0 0 0xFFFFFF screen_example) 0xF0000000 = 7"
proof -
  have "glyph_fits screen_example 0 0" by (simp add: glyph_fits_def screen_example_facts)
  moreover have "\<not> in_region 0xE0000000 (4 * 307209) (0xF0000000 :: u64)" by (simp add: in_region_def)
  ultimately show ?thesis
    using drawChar_bounds [of screen_example 0 0 "0xF0000000" 65 "0xFFFFFF"]
    by (simp add: screen_example_facts) (simp add: screen_example_def)
qed

theorem drawChar_past_end_witness:
  "load32 (vram (drawChar 65 632 464 0xFFFFFF screen_example)) (0xE0000000 + 4 * 307208) \<in> {0xFFFFFF, 0}"
proof -
  have "font_start screen_example + ucast (ucast (65 :: u8) * 16 :: u32) + of_nat i < font_end screen_example" if "i < 16" for i
  proof -
    have "unat (0x100410 + of_nat i :: u64) = 0x100410 + i" using that by (subst unat_add_of_nat) simp_all
    then show ?thesis using that by (simp add: screen_example_def word_less_nat_alt)
  qed
  then show ?thesis
    using drawChar_past_end [of screen_example 632 464 65 "0xFFFFFF"] by (simp add: screen_example_facts)
qed

end
