(* ===== verification/Boot.thy ===== *)
theory Boot
  imports Heap
begin

text \<open>
  The memory part of the entry point, \<^verbatim>\<open>kernel/kernel.cpp\<close>: the address space that \<open>_start\<close> builds from the
  memory map before it loads it into \<open>cr3\<close>. The offsets of the direct map and of the kernel image are read
  from the globals of \<^verbatim>\<open>memutils.cpp\<close>.
\<close>

section \<open>Definitions\<close>

record boot = heap +
  cr3 :: u64

definition size_in_pages :: "limine_memmap_entry \<Rightarrow> u64" where
  "size_in_pages entry =
     (let sizeInPages = entry_length entry div 4096
      in if entry_length entry mod 4096 \<noteq> 0 then sizeInPages + 1 else sizeInPages)"

definition map_entry_page :: "u64 \<Rightarrow> limine_memmap_entry \<Rightarrow> u64 \<Rightarrow> 'z pfa_scheme \<Rightarrow> 'z pfa_scheme res" where
  "map_entry_page P entry pageIdx s =
     (let physAddr = entry_base entry + pageIdx * 4096;
          virtAddr = toVirt (mem_hhdmOffset s) physAddr;
          virtAddr = (if entry_type entry = LIMINE_MEMMAP_KERNEL_AND_MODULES
                      then mem_kVirtOffset s + pageIdx * 4096 else virtAddr)
      in PageTable_MapMemory P virtAddr physAddr False s)"

definition map_entry :: "u64 \<Rightarrow> limine_memmap_entry \<Rightarrow> 'z pfa_scheme \<Rightarrow> 'z pfa_scheme res" where
  "map_entry P entry s = for_each (map_entry_page P entry) (count_upto (size_in_pages entry)) s"

text \<open>The counter of the last loop advances by 0x1000.\<close>

definition map_low :: "u64 \<Rightarrow> 'z pfa_scheme \<Rightarrow> 'z pfa_scheme res" where
  "map_low P s = for_each (\<lambda>k. let i = k * 0x1000 in PageTable_MapMemory P i i False) (count_upto (mb 16 div 0x1000)) s"

text \<open>The prefix and the line end of the messages.\<close>

definition prelog :: "string \<Rightarrow> string" where
  "prelog str = ''$c8[Kernel/PreLogger] $c7[???]$cF '' @ str @ ''\<newline>''"

definition init_paging :: "memmap \<Rightarrow> 'z boot_scheme \<Rightarrow> 'z boot_scheme res" where
  "init_paging mm s =
     (let s = s\<lparr>klog := log_both (prelog ''Initialize paging...'') [] (klog s)\<rparr>
      in bind_r (mem_pageframeallocator_requestPage s) (\<lambda>(P, s).
         let s = s\<lparr>globalPageTable := P\<rparr>;
             s = s\<lparr>klog := log_both (prelog ''PagingTable Address is %x'') [Num P] (klog s)\<rparr>;
             s = s\<lparr>ram := memset (ram s) P 0 0x1000\<rparr>
         in bind_r (for_each (map_entry P) mm s) (\<lambda>s.
            bind_r (map_low P s) (\<lambda>s.
              let s = s\<lparr>klog := log_both (prelog ''Mapped memory'') [] (klog s)\<rparr>;
                  s = s\<lparr>klog := log_both (prelog ''Loading PML4 into CR3'') [] (klog s)\<rparr>;
                  s = s\<lparr>cr3 := P\<rparr>
              in Inr (s\<lparr>klog := log_both (prelog ''Done initiliazing paging!'') [] (klog s)\<rparr>)))))"

text \<open>
  The memory set-up of \<open>_start\<close>: the offsets that the boot loader reports and the page frame allocator, then, after the
  interrupt table, which is a component of its own, the address space.
\<close>

definition init_frames :: "u64 \<Rightarrow> u64 \<Rightarrow> u64 \<Rightarrow> memmap \<Rightarrow> 'z boot_scheme \<Rightarrow> 'z boot_scheme res" where
  "init_frames physical_base virtual_base hhdm mm s =
     (let s = s\<lparr>klog := log_serial
            (prelog ''Physical Base of Kernel: %x\<newline>Virtual Base of Kernel: %x\<newline>HHDM Offset: %x'')
            [Num physical_base, Num virtual_base, Num hhdm] (klog s)\<rparr>;
          s = s\<lparr>mem_hhdmOffset := hhdm\<rparr>;
          s = s\<lparr>mem_kVirtOffset := virtual_base\<rparr>;
          s = s\<lparr>klog := log_terminal (prelog ''Initialize page frame allocator...'') [] (klog s)\<rparr>
      in bind_r (mem_pageframeallocator_init mm s) (\<lambda>s.
         let s = s\<lparr>klog := log_terminal (prelog ''Ram -> Total: %x, Free: %x, Used: %x'')
               [Num (mem_getTotalRAM s), Num (mem_getFreeRAM s), Num (mem_getUsedRAM s)] (klog s)\<rparr>;
             s = s\<lparr>klog := log_terminal (prelog ''Ram -> Total: %u, Free: %u, Used: %u'')
               [Num (mem_getTotalRAM s), Num (mem_getFreeRAM s), Num (mem_getUsedRAM s)] (klog s)\<rparr>
         in Inr (s\<lparr>klog := log_terminal (prelog ''Initiliaze IDT & Interrupts...'') [] (klog s)\<rparr>)))"

definition idt_done :: "'z boot_scheme \<Rightarrow> 'z boot_scheme" where
  "idt_done s = s\<lparr>klog := log_terminal (prelog ''Initiliazed IDT & Interrupts!'') [] (klog s)\<rparr>"

definition init_memory :: "u64 \<Rightarrow> u64 \<Rightarrow> u64 \<Rightarrow> memmap \<Rightarrow> 'z boot_scheme \<Rightarrow> 'z boot_scheme res" where
  "init_memory physical_base virtual_base hhdm mm s =
     bind_r (init_frames physical_base virtual_base hhdm mm s) (\<lambda>s. init_paging mm (idt_done s))"

text \<open>The heap window: 256 pages from 8 MiB on.\<close>

definition init_heap :: "'z boot_scheme \<Rightarrow> 'z boot_scheme res" where
  "init_heap s =
     (let s = s\<lparr>klog := log_both (prelog ''Initiliazing heap with starting size 1mb, CurrentFreeMemory: %u'')
              [Num (mem_getFreeRAM s)] (klog s)\<rparr>
      in bind_r (initHeap 0x800000 (mb 1 div kb 4) s) (\<lambda>s.
           Inr (s\<lparr>klog := log_serial (prelog ''initHeap() done'') [] (klog s)\<rparr>)))"

section \<open>The pages that are mapped\<close>

definition entry_mappings :: "u64 \<Rightarrow> u64 \<Rightarrow> limine_memmap_entry \<Rightarrow> (u64 \<times> u64) list" where
  "entry_mappings h k entry = map (\<lambda>i.
     (if entry_type entry = LIMINE_MEMMAP_KERNEL_AND_MODULES then k + i * 4096
      else entry_base entry + i * 4096 + h, entry_base entry + i * 4096)) (count_upto (size_in_pages entry))"

definition low_mappings :: "(u64 \<times> u64) list" where
  "low_mappings = map (\<lambda>i. (i * 4096, i * 4096)) (count_upto 4096)"

definition boot_mappings :: "u64 \<Rightarrow> u64 \<Rightarrow> memmap \<Rightarrow> (u64 \<times> u64) list" where
  "boot_mappings h k mm = concat (map (entry_mappings h k) mm) @ low_mappings"

text \<open>The address space after a sequence of mappings: a later mapping of a page replaces an earlier one.\<close>

definition space_of :: "(u64 \<times> u64) list \<Rightarrow> u64 \<Rightarrow> u64 option" where
  "space_of ms v = map_of (rev (map (\<lambda>(v, p). (page_number v, frame_bits p)) ms)) (page_number v)"

lemma space_of_simps [simp]: "space_of [] v = None"
  and space_of_snoc: "space_of (ms @ [(w, p)]) v = (if page_number v = page_number w then Some (frame_bits p) else space_of ms v)"
  by (simp_all add: space_of_def)

lemma space_of_append: "space_of (ms @ ns) v = (case space_of ns v of None \<Rightarrow> space_of ms v | Some p \<Rightarrow> Some p)"
  by (simp add: space_of_def map_add_def split: option.splits)

section \<open>The loops as one sequence of mappings\<close>

definition map_all :: "u64 \<Rightarrow> (u64 \<times> u64) list \<Rightarrow> 'z pfa_scheme \<Rightarrow> 'z pfa_scheme res" where
  "map_all P ms s = for_each (\<lambda>(v, p). PageTable_MapMemory P v p False) ms s"

lemma map_all_append: "map_all P (ms @ ns) s = bind_r (map_all P ms s) (map_all P ns)"
  by (simp add: map_all_def [abs_def] for_each_append)

text \<open>The offsets stay as they are.\<close>

definition offsets :: "'z pfa_scheme \<Rightarrow> u64 \<times> u64" where
  "offsets s = (mem_hhdmOffset s, mem_kVirtOffset s)"

lemma offsets_simps [simp]: "offsets (s\<lparr>klog := l\<rparr>) = offsets s" "offsets (s\<lparr>ram := m\<rparr>) = offsets s"
    "offsets (s\<lparr>bitmapIdx := i\<rparr>) = offsets s" "offsets (s\<lparr>memmap_info := mm\<rparr>) = offsets s"
    "offsets (s\<lparr>memEnd := e\<rparr>) = offsets s" "offsets (s\<lparr>mem_usedMemory := n\<rparr>) = offsets s"
    "offsets (s\<lparr>mem_freeMemory := n\<rparr>) = offsets s" "offsets (s\<lparr>oomPanics := b\<rparr>) = offsets s"
    "offsets (s\<lparr>mem_pfaBitmap := bm\<rparr>) = offsets s"
  by (simp_all add: offsets_def)

lemma offsets_lockPage [simp]: "offsets (mem_pageframeallocator_lockPage a s) = offsets s"
  by (auto simp: offsets_def mem_pageframeallocator_lockPage_def Let_def split: prod.split bool.split)

lemma offsets_requestPage:
  fixes s t :: "'z pfa_scheme"
  assumes "mem_pageframeallocator_requestPage s = Inr (p, t)"
  shows "offsets t = offsets s"
proof -
  have "requestPage_loop s = Inr (p, t) \<Longrightarrow> offsets t = offsets s" for s :: "'z pfa_scheme"
  proof (induction s rule: requestPage_loop.induct)
    case (1 s)
    from 1(2) show ?case
      by (subst (asm) requestPage_loop.simps) (auto simp: Let_def dest: 1(1) split: if_splits)
  qed
  with assms show ?thesis by (simp add: mem_pageframeallocator_requestPage_def split: if_splits)
qed

lemma offsets_init:
  assumes "mem_pageframeallocator_init mm s = Inr t"
  shows "offsets t = offsets s"
proof -
  have f: "offsets (mem_pageframeallocator_freePage a s) = offsets s" for a and s :: "'a pfa_scheme"
    by (auto simp: offsets_def mem_pageframeallocator_freePage_def Let_def split: prod.split bool.split)
  have u: "offsets (free_usable x s) = offsets s" for x and s :: "'a pfa_scheme"
    unfolding free_usable_def mem_pageframeallocator_freePages_def Let_def
    by (auto intro!: fold_inv [where P = "\<lambda>t. offsets t = offsets s"] simp: f)
  have us: "offsets (fold free_usable mm s) = offsets s" for s :: "'a pfa_scheme"
    by (rule fold_inv [where P = "\<lambda>t. offsets t = offsets s"]) (simp_all add: u)
  have l: "mem_pageframeallocator_lockPages a n s = Inr t \<Longrightarrow> offsets t = offsets s" for a n and s t :: "'a pfa_scheme"
    unfolding mem_pageframeallocator_lockPages_def
    by (erule for_each_inv [where P = "\<lambda>t. offsets t = offsets s"]) (auto simp: Let_def split: if_splits)
  have i: "offsets t = offsets s" if init: "mem_pageframeallocator_initBitmap n a s = Inr t" for n a and s t :: "'a pfa_scheme"
  proof -
    obtain x where x: "for_each (\<lambda>i s. if i = INT_MAX then Inl (Undefined ''signed overflow of i'')
        else Inr (s\<lparr>ram := (ram s)(Buffer (mem_pfaBitmap s) + of_nat i := 0)\<rparr>)) [0..<unat n]
        (s\<lparr>mem_pfaBitmap := \<lparr>Size = n, Buffer = a\<rparr>\<rparr>) = Inr x" "t = x\<lparr>bitmapIdx := 0\<rparr>"
      using init by (auto simp: mem_pageframeallocator_initBitmap_def Let_def bind_r_eq_Inr)
    have "offsets x = offsets s"
      by (rule for_each_inv [OF x(1), where P = "\<lambda>t. offsets t = offsets s"]) (auto simp: offsets_def split: if_splits)
    then show ?thesis by (simp add: x(2))
  qed
  show ?thesis
    using assms unfolding mem_pageframeallocator_init_def Let_def
    by (auto simp: bind_r_eq_Inr us dest!: l i split: prod.splits if_splits)
qed

lemma offsets_descend: "descend r u i s = Inr (v, t) \<Longrightarrow> offsets t = offsets s"
  by (auto simp: descend_def Let_def bind_r_eq_Inr dest: offsets_requestPage split: if_splits)

lemma offsets_MapMemory:
  assumes "PageTable_MapMemory P virt phys debug s = Inr t"
  shows "offsets t = offsets s"
proof -
  have "offsets t = offsets u" if "map_page debug PT i phys u = Inr t" for PT i u
    using that by (auto simp: map_page_def Let_def split: if_splits)
  with assms show ?thesis
    by (auto simp: PageTable_MapMemory_def Let_def bind_r_eq_Inr dest!: offsets_descend split: if_splits)
qed

lemma offsets_map_all: "map_all P ms s = Inr t \<Longrightarrow> offsets t = offsets s"
  unfolding map_all_def
  by (erule for_each_inv [where P = "\<lambda>t. offsets t = offsets s"]) (auto dest: offsets_MapMemory)

lemma map_entry_all:
  assumes "offsets s = (h, k)"
  shows "map_entry P entry s = map_all P (entry_mappings h k entry) s"
proof -
  have "for_each (map_entry_page P entry) is s =
      map_all P (map (\<lambda>i. (if entry_type entry = LIMINE_MEMMAP_KERNEL_AND_MODULES then k + i * 4096
        else entry_base entry + i * 4096 + h, entry_base entry + i * 4096)) is) s" for "is"
    using assms
  proof (induction "is" arbitrary: s)
    case (Cons i "is")
    have eq: "map_entry_page P entry i s = PageTable_MapMemory P
        (if entry_type entry = LIMINE_MEMMAP_KERNEL_AND_MODULES then k + i * 4096
         else entry_base entry + i * 4096 + h) (entry_base entry + i * 4096) False s"
      using Cons.prems by (simp add: map_entry_page_def Let_def offsets_def toVirt_def)
    show ?case
    proof (cases "map_entry_page P entry i s")
      case (Inr t)
      then have "offsets t = (h, k)" using Cons.prems eq offsets_MapMemory by metis
      with Cons.IH Inr eq show ?thesis by (simp add: map_all_def)
    qed (simp add: map_all_def eq [symmetric])
  qed (simp add: map_all_def)
  then show ?thesis by (simp add: map_entry_def entry_mappings_def)
qed

lemma map_entries_all:
  "offsets s = (h, k) \<Longrightarrow> for_each (map_entry P) mm s = map_all P (concat (map (entry_mappings h k) mm)) s"
proof (induction mm arbitrary: s)
  case (Cons entry mm)
  show ?case
  proof (cases "map_all P (entry_mappings h k entry) s")
    case (Inr t)
    then have "offsets t = (h, k)" using Cons.prems offsets_map_all by metis
    with Cons Inr show ?thesis by (simp add: map_all_append map_entry_all)
  qed (use Cons.prems in \<open>simp add: map_all_append map_entry_all\<close>)
qed (simp add: map_all_def)

lemma map_low_all: "map_low P s = map_all P low_mappings s"
proof -
  have "for_each (\<lambda>k. PageTable_MapMemory P (k * 0x1000) (k * 0x1000) False) is s =
      map_all P (map (\<lambda>i. (i * 4096, i * 4096)) is) s" for "is"
    by (induction "is" arbitrary: s) (auto simp: map_all_def bind_r_def split: sum.split)
  then show ?thesis by (simp add: map_low_def low_mappings_def mb_def Let_def)
qed

lemma boot_loops_all:
  assumes "offsets s = (h, k)"
  shows "bind_r (for_each (map_entry P) mm s) (map_low P) = map_all P (boot_mappings h k mm) s"
  using map_entries_all [OF assms, of P mm] by (simp add: map_low_all [abs_def] boot_mappings_def map_all_append)

section \<open>The address space after a sequence of mappings\<close>

lemma map_all_effect:
  assumes inv: "paging_inv P s" and r: "map_all P ms s = Inr t"
  shows "paging_inv P t \<and> pfa.more t = pfa.more s \<and> area_kept P s t \<and> mem_pfaBitmap t = mem_pfaBitmap s \<and>
    (\<forall>v. translate (ram t) P v = (case space_of ms v of None \<Rightarrow> translate (ram s) P v | Some p \<Rightarrow> Some p))"
  using r
proof (induction ms arbitrary: t rule: rev_induct)
  case Nil
  with inv show ?case by (simp add: map_all_def area_kept_refl)
next
  case (snoc m ms)
  obtain w p where m: "m = (w, p)" by (cases m)
  obtain u where u: "map_all P ms s = Inr u" "PageTable_MapMemory P w p False u = Inr t"
    using snoc.prems by (auto simp: m map_all_def for_each_append bind_r_eq_Inr)
  note IH = snoc.IH [OF u(1)]
  note mt = MapMemory_translate [OF _ u(2)]
  have "area_kept P s t" using IH mt(5) by (blast intro: area_kept_trans)
  then show ?case using IH mt by (simp add: m space_of_snoc)
qed

lemma map_all_Inl:
  assumes "paging_inv P s" and "map_all P ms s = Inl e"
  shows "e = Panic ''Out of memory''"
  using assms
proof (induction ms arbitrary: s)
  case (Cons m ms)
  obtain w p where m: "m = (w, p)" by (cases m)
  note mc = MapMemory_cases [OF Cons.prems(1), of w p False]
  show ?case
  proof (cases "PageTable_MapMemory P w p False s")
    case (Inl e')
    with Cons.prems(2) mc show ?thesis by (simp add: m map_all_def)
  next
    case (Inr t)
    with Cons.prems(2) mc Cons.IH [of t] show ?thesis by (simp add: m map_all_def)
  qed
qed (simp add: map_all_def)

end
