(* ===== verification/Boot_Props.thy ===== *)
theory Boot_Props
  imports Boot Pageframes_Boot Heap_Init
begin

text \<open>
  The address space with which the kernel runs: what \<open>init_paging\<close> maps, that it returns, and what the
  code of \<^verbatim>\<open>kernel/kernel.cpp\<close> can therefore reach.
\<close>

section \<open>Frames for a sequence of mappings\<close>

lemma unat_add_page:
  fixes a :: u64
  assumes "unat a + 4096 * i < 2 ^ 64"
  shows "unat (a + of_nat i * 4096) = unat a + 4096 * i"
proof -
  have "(of_nat i * 4096 :: u64) = of_nat (4096 * i)" by simp
  moreover have "unat (a + of_nat (4096 * i)) = unat a + 4096 * i" by (rule unat_add_of_nat) (rule assms)
  ultimately show ?thesis by (simp only:)
qed

definition paths_of :: "(u64 \<times> u64) list \<Rightarrow> u64 list set" where
  "paths_of ms = (\<Union>(v, p)\<in>set ms. table_paths v)"

lemma paths_of_ok: "is \<in> paths_of ms \<Longrightarrow> length is \<le> 3 \<and> idx_ok is"
  by (auto simp: paths_of_def dest: table_paths_ok)

lemma finite_paths_of [simp]: "finite (paths_of ms)"
  by (auto simp: paths_of_def table_paths_def)

lemma map_all_serves:
  assumes "paging_inv P s" and "finite X" and "paths_of ms \<subseteq> X" and ok: "\<And>is. is \<in> X \<Longrightarrow> length is \<le> 3 \<and> idx_ok is"
    and "reserve (n + card (missing (ram s) P X)) s"
  obtains t where "map_all P ms s = Inr t" and "reserve (n + card (missing (ram t) P X)) t"
proof -
  have "\<exists>t. map_all P ms s = Inr t \<and> reserve (n + card (missing (ram t) P X)) t"
    using assms(1,3,5)
  proof (induction ms arbitrary: s)
    case (Cons m ms)
    obtain w p where m: "m = (w, p)" by (cases m)
    have X: "table_paths w \<subseteq> X" "paths_of ms \<subseteq> X" using Cons.prems(2) by (auto simp: paths_of_def m)
    obtain t where t: "PageTable_MapMemory P w p False s = Inr t" "reserve (n + card (missing (ram t) P X)) t"
      using MapMemory_serves [OF Cons.prems(1) assms(2) X(1) ok Cons.prems(3)] by metis
    have "paging_inv P t" by (rule MapMemory_translate(1) [OF Cons.prems(1) t(1)])
    from Cons.IH [OF this X(2) t(2)] show ?case by (simp add: m map_all_def t(1))
  qed (simp add: map_all_def)
  then show thesis using that by blast
qed

text \<open>The tables for a range of pages: three for each 2 MiB that the range meets, at most.\<close>

lemma table_paths_cong:
  assumes "drop_bit 21 v = drop_bit 21 w"
  shows "table_paths v = table_paths w"
proof -
  have "drop_bit k v = drop_bit k w" if ge: "21 \<le> k" for k
  proof -
    obtain j where k: "k = 21 + j" using le_Suc_ex [OF ge] by blast
    have "drop_bit k x = drop_bit j (drop_bit 21 x)" for x :: u64 by (simp add: k drop_bit_drop_bit add.commute)
    from this [of v] this [of w] show ?thesis unfolding assms by (simp only:)
  qed
  then have eq: "take 3 (indices v) = take 3 (indices w)" by (simp add: indices_fields)
  have "take n (indices v) = take n (indices w)" if "n \<le> 3" for n
    using that arg_cong [OF eq, of "take n"] by (simp add: min_def)
  then show ?thesis unfolding table_paths_def by (intro image_cong) auto
qed

lemma card_table_paths: "card (table_paths v) \<le> 3"
  unfolding table_paths_def by (rule order_trans [OF card_image_le]) simp_all

definition block_paths :: "nat \<Rightarrow> u64 list set" where
  "block_paths d = (\<Union>v\<in>{v. unat v div 2 ^ 21 = d}. table_paths v)"

lemma block_paths: "finite (block_paths d) \<and> card (block_paths d) \<le> 3"
proof (cases "\<exists>w :: u64. unat w div 2 ^ 21 = d")
  case True
  then obtain w :: u64 where w: "unat w div 2 ^ 21 = d" by blast
  have "drop_bit 21 v = drop_bit 21 w" if v: "unat v div 2 ^ 21 = d" for v
    by (rule word_eqI_unat) (use v w in \<open>simp add: drop_bit_eq_div unat_div\<close>)
  then have "block_paths d = table_paths w"
    using w table_paths_cong [of _ w] unfolding block_paths_def by blast
  then show ?thesis by (simp add: card_table_paths) (simp add: table_paths_def)
qed (simp add: block_paths_def)

lemma range_block:
  fixes a i n :: nat
  assumes "i < n"
  shows "(a + 4096 * i) div 2 ^ 21 \<in> {a div 2 ^ 21..<a div 2 ^ 21 + (n div 512 + 2)}"
proof -
  have "i < 512 * (n div 512 + 1)" using assms dividend_less_times_div [of 512 n] by simp
  moreover have "a < 2 ^ 21 * (a div 2 ^ 21 + 1)" using dividend_less_times_div [of "2 ^ 21" a] by simp
  ultimately have "a + 4096 * i < (a div 2 ^ 21 + (n div 512 + 2)) * 2 ^ 21" by simp
  then have "(a + 4096 * i) div 2 ^ 21 < a div 2 ^ 21 + (n div 512 + 2)" by (rule less_mult_imp_div_less)
  moreover have "a div 2 ^ 21 \<le> (a + 4096 * i) div 2 ^ 21" by (rule div_le_mono) simp
  ultimately show ?thesis by simp
qed

lemma paths_of_range:
  assumes a: "unat a + 4096 * n \<le> 2 ^ 64"
    and ms: "\<And>v p. (v, p) \<in> set ms \<Longrightarrow> \<exists>i<n. v = a + of_nat i * 4096"
  shows "card (paths_of ms) \<le> 3 * (n div 512 + 2)"
proof -
  let ?D = "{unat a div 2 ^ 21..<unat a div 2 ^ 21 + (n div 512 + 2)}"
  have "table_paths v \<subseteq> (\<Union>d\<in>?D. block_paths d)" if v: "(v, p) \<in> set ms" for v p
  proof -
    obtain i where i: "i < n" "v = a + of_nat i * 4096" using ms [OF v] by blast
    have "unat v = unat a + 4096 * i" unfolding i(2) by (rule unat_add_page) (use a i(1) in simp)
    then have "unat v div 2 ^ 21 \<in> ?D" using range_block [OF i(1), of "unat a"] by (simp only:)
    moreover have "table_paths v \<subseteq> block_paths (unat v div 2 ^ 21)" unfolding block_paths_def by blast
    ultimately show ?thesis by blast
  qed
  then have "paths_of ms \<subseteq> (\<Union>d\<in>?D. block_paths d)" unfolding paths_of_def by blast
  then have "card (paths_of ms) \<le> card (\<Union>d\<in>?D. block_paths d)"
    using block_paths by (intro card_mono) simp_all
  also have "\<dots> \<le> (\<Sum>d\<in>?D. card (block_paths d))" by (rule card_UN_le) simp
  also have "\<dots> \<le> (\<Sum>d\<in>?D. 3)" by (rule sum_mono) (simp add: block_paths)
  finally show ?thesis by simp
qed

text \<open>An upper bound of the frames that \<open>init_paging\<close> needs: the top table, and the tables of each range.\<close>

definition boot_frames :: "memmap \<Rightarrow> nat" where
  "boot_frames mm = 31 + (\<Sum>entry\<leftarrow>mm. 3 * (unat (size_in_pages entry) div 512 + 2))"

text \<open>
  The layout that the set-up needs. A direct map above 4 GiB with room for 4 GiB and room for 2 GiB at the base of the kernel image are
  what the boot protocol provides. That every entry ends at or below 2 GiB is not promised by the protocol: it is the limit of
  the code, since \<open>init\<close> overflows a signed \<open>int\<close> on maps that end above it.
\<close>

definition boot_layout :: "u64 \<Rightarrow> u64 \<Rightarrow> memmap \<Rightarrow> bool" where
  "boot_layout h k mm \<longleftrightarrow> (\<forall>entry\<in>set mm. unat (entry_base entry) + unat (entry_length entry) \<le> 2 ^ 31) \<and>
     2 ^ 32 \<le> unat h \<and> unat h + 2 ^ 32 \<le> 2 ^ 64 \<and> unat k + 2 ^ 31 \<le> 2 ^ 64"

lemma boot_layout_areal: "boot_layout h k mm \<Longrightarrow> getMemoryArealSize mm \<le> 2 ^ 31"
  unfolding getMemoryArealSize_le
  by (auto simp: boot_layout_def entry_end_def word_le_nat_alt unat_add_no_wrap)

lemma div_round_up: "(n + 4095) div 4096 = (if n mod 4096 = 0 then n div 4096 else n div 4096 + 1)" for n :: nat
proof -
  define q r where "q = n div 4096" and "r = n mod 4096"
  have n: "n = 4096 * q + r" "r < 4096" by (simp_all add: q_def r_def)
  show ?thesis
  proof (cases "r = 0")
    case False
    then have "n + 4095 = (r - 1) + 4096 * (q + 1)" using n by simp
    then have "(n + 4095) div 4096 = q + 1" using n(2) by (intro div_nat_eqI) auto
    with False show ?thesis unfolding q_def r_def by simp
  next
    case True
    then have "(n + 4095) div 4096 = q" using n by (intro div_nat_eqI) auto
    with True show ?thesis unfolding q_def r_def by simp
  qed
qed

lemma unat_size_in_pages:
  assumes "unat (entry_length entry) \<le> 2 ^ 31"
  shows "unat (size_in_pages entry) = (unat (entry_length entry) + 4095) div 4096"
proof -
  have s: "unat (entry_length entry div 4096 + 1) = unat (entry_length entry) div 4096 + 1"
    using assms unat_add_no_wrap [of "entry_length entry div 4096" 1] by (simp add: unat_div)
  have "entry_length entry mod 4096 = 0 \<longleftrightarrow> unat (entry_length entry) mod 4096 = 0"
    by (simp add: word_unat_eq_iff unat_mod)
  then show ?thesis using s by (auto simp: size_in_pages_def Let_def unat_div div_round_up)
qed

lemma paths_of_append: "paths_of (ms @ ns) = paths_of ms \<union> paths_of ns"
  by (auto simp: paths_of_def)

lemma paths_of_entry:
  assumes lay: "boot_layout h k mm" and e: "entry \<in> set mm"
  shows "card (paths_of (entry_mappings h k entry)) \<le> 3 * (unat (size_in_pages entry) div 512 + 2)"
proof -
  define a where "a = (if entry_type entry = LIMINE_MEMMAP_KERNEL_AND_MODULES then k else entry_base entry + h)"
  have b: "unat (entry_base entry) + unat (entry_length entry) \<le> 2 ^ 31" using lay e by (simp add: boot_layout_def)
  have n: "unat (size_in_pages entry) \<le> 2 ^ 19" using b unat_size_in_pages [of entry] by simp
  have "unat (entry_base entry + h) = unat (entry_base entry) + unat h"
    using lay b by (intro unat_add_no_wrap) (simp add: boot_layout_def)
  then have "unat a + 4096 * unat (size_in_pages entry) \<le> 2 ^ 64" using lay b n by (simp add: a_def boot_layout_def)
  then show ?thesis
  proof (rule paths_of_range)
    fix v p assume "(v, p) \<in> set (entry_mappings h k entry)"
    then obtain i where "i < unat (size_in_pages entry)" "v = a + of_nat i * 4096"
      by (auto simp: entry_mappings_def count_upto_def a_def algebra_simps split: if_splits)
    then show "\<exists>i<unat (size_in_pages entry). v = a + of_nat i * 4096" by blast
  qed
qed

lemma paths_of_boot:
  assumes lay: "boot_layout h k mm"
  shows "Suc (card (paths_of (boot_mappings h k mm))) \<le> boot_frames mm"
proof -
  have "card (paths_of (concat (map (entry_mappings h k) es))) \<le> (\<Sum>entry\<leftarrow>es. 3 * (unat (size_in_pages entry) div 512 + 2))"
    if "set es \<subseteq> set mm" for es
    using that
  proof (induction es)
    case (Cons entry es)
    have "card (paths_of (entry_mappings h k entry @ concat (map (entry_mappings h k) es))) \<le>
        card (paths_of (entry_mappings h k entry)) + card (paths_of (concat (map (entry_mappings h k) es)))"
      unfolding paths_of_append by (rule card_Un_le)
    with Cons paths_of_entry [OF lay, of entry] show ?case by simp
  qed (simp add: paths_of_def)
  from this [OF order_refl]
  have "card (paths_of (concat (map (entry_mappings h k) mm))) \<le> (\<Sum>entry\<leftarrow>mm. 3 * (unat (size_in_pages entry) div 512 + 2))" .
  moreover have "card (paths_of low_mappings) \<le> 3 * (4096 div 512 + 2)"
    by (rule paths_of_range [of 0]) (auto simp: low_mappings_def count_upto_def)
  moreover have "card (paths_of (boot_mappings h k mm)) \<le>
      card (paths_of (concat (map (entry_mappings h k) mm))) + card (paths_of low_mappings)"
    unfolding boot_mappings_def paths_of_append by (rule card_Un_le)
  ultimately show ?thesis by (simp add: boot_frames_def)
qed

section \<open>Building the address space\<close>

text \<open>The allocator after its initialisation: its frames are apart from its bitmap.\<close>

definition frames_apart :: "'z pfa_scheme \<Rightarrow> bool" where
  "frames_apart s \<longleftrightarrow> pfa_inv s \<and> unat (Size (mem_pfaBitmap s)) * 8 \<le> 2 ^ 40 \<and>
     (\<forall>u\<in>managed_frames s. region_disjoint u 4096 (Buffer (mem_pfaBitmap s)) (bitmap_len s))"

text \<open>The bytes of the bitmap and of the free frames.\<close>

definition allocator_area :: "'z pfa_scheme \<Rightarrow> u64 \<Rightarrow> bool" where
  "allocator_area s x \<longleftrightarrow> in_region (Buffer (mem_pfaBitmap s)) (bitmap_len s) x \<or> (\<exists>f\<in>free_frames s. in_region f 4096 x)"

lemma new_top_table:
  assumes s: "frames_apart s" and r: "mem_pageframeallocator_requestPage s = Inr (P, t)"
  defines "u \<equiv> t\<lparr>ram := memset (ram t) P 0 0x1000\<rparr>"
  shows "paging_inv P u" and "translate (ram u) P v = None" and "free_pages u = free_pages t"
    and "idx_ok is \<Longrightarrow> is \<noteq> [] \<Longrightarrow> walk (ram u) P is = None" and "paging_area P u x \<Longrightarrow> allocator_area s x"
    and "\<not> allocator_area s x \<Longrightarrow> ram u x = ram s x"
proof -
  have inv: "pfa_inv s" and size: "unat (Size (mem_pfaBitmap s)) * 8 \<le> 2 ^ 40"
    and sep: "\<And>u. u \<in> managed_frames s \<Longrightarrow> region_disjoint u 4096 (Buffer (mem_pfaBitmap s)) (bitmap_len s)"
    using s by (simp_all add: frames_apart_def)
  note q = requestPage_Inr [OF inv r] and rf = requestPage_frame [OF inv r]
  have P: "P \<in> free_frames s" "free_frames t = free_frames s - {P}" using pf.request_avail [OF inv r] by auto
  then have m: "P \<in> managed_frames s" using pf.avail_managed [OF inv] by blast
  have al: "aligned P"
    unfolding q(1) by (rule aligned_frame) (rule page_index_small [OF inv free_pages_lt [OF q(2)]])
  have agree: "memset (ram t) P 0 0x1000 x = ram t x" if "in_region (Buffer (mem_pfaBitmap t)) (bitmap_len t) x" for x
  proof -
    have "\<not> in_region P 4096 x" using that rf(1) sep [OF m] by (auto dest: region_disjointD)
    then show ?thesis by (simp add: memset_apply)
  qed
  note ra = ram_update_agree [OF q(6) agree, folded u_def]
  have zero: "ram u x = 0" if "in_region P 4096 x" for x using that by (simp add: u_def memset_apply)
  have bm: "mem_pfaBitmap u = mem_pfaBitmap s" by (simp add: u_def rf(1))
  have mf: "managed_frames u = managed_frames s" using ra(4) pf.request_invar [OF inv r] by simp
  show "paging_inv P u"
  proof (rule paging_inv_empty [OF ra(1) _ zero al])
    show "unat (Size (mem_pfaBitmap u)) * 8 \<le> 2 ^ 40" using size bm by simp
    show "P \<notin> free_frames u" using ra(3) P(2) by simp
    show "region_disjoint v 4096 (Buffer (mem_pfaBitmap u)) (bitmap_len u)" if "v = P \<or> v \<in> managed_frames u" for v
      using that sep m mf bm by auto
  qed
  show none: "walk (ram u) P is = None" if "idx_ok is" "is \<noteq> []" for "is"
    using empty_page_walk [OF al zero that(1)] that(2) by simp
  show "allocator_area s x" if "paging_area P u x" for x
  proof -
    have "tables (ram u) P \<subseteq> {P}" using none by (fastforce simp: tables_def)
    then show ?thesis using that P ra(3) bm by (auto simp: paging_area_def allocator_area_def)
  qed
  show "ram u x = ram s x" if "\<not> allocator_area s x"
    using that P(1) rf(3) [of x] by (auto simp: u_def memset_apply allocator_area_def)
  show "translate (ram u) P v = None"
    using none indices_ok [of v] indices_length [of v] unfolding translate_def by fastforce
  show "free_pages u = free_pages t" by (rule ra(2))
qed

text \<open>Fields that the memory code does not read.\<close>

lemma paging_inv_boot [simp]:
  "paging_inv P (s\<lparr>globalPageTable := x\<rparr>) = paging_inv P s" "paging_inv P (b\<lparr>cr3 := x\<rparr>) = paging_inv P b"
  by (simp_all add: paging_inv_def pfa_inv_def free_frames_def free_pages_def managed_frames_def)

lemma paging_area_boot [simp]:
  "paging_area P (b\<lparr>cr3 := x\<rparr>) = paging_area P b" "paging_area P (s\<lparr>klog := l\<rparr>) = paging_area P s"
  "allocator_area (s\<lparr>klog := l\<rparr>) = allocator_area s"
  by (simp_all add: paging_area_def allocator_area_def free_frames_def free_pages_def fun_eq_iff)

lemma offsets_boot [simp]:
  "offsets (s\<lparr>globalPageTable := x\<rparr>) = offsets s" "offsets (b\<lparr>cr3 := x\<rparr>) = offsets b"
  by (simp_all add: offsets_def)

lemma init_paging_eq:
  assumes "offsets s = (h, k)"
  shows "init_paging mm s = bind_r (mem_pageframeallocator_requestPage (s\<lparr>klog := log_both (prelog ''Initialize paging...'') [] (klog s)\<rparr>))
    (\<lambda>(P, t). bind_r (map_all P (boot_mappings h k mm)
       (t\<lparr>globalPageTable := P, klog := log_both (prelog ''PagingTable Address is %x'') [Num P] (klog t),
          ram := memset (ram t) P 0 0x1000\<rparr>))
       (\<lambda>u. Inr (u\<lparr>cr3 := P, klog := log_both (prelog ''Done initiliazing paging!'') []
         (log_both (prelog ''Loading PML4 into CR3'') [] (log_both (prelog ''Mapped memory'') [] (klog u)))\<rparr>)))"
  (is "_ = bind_r ?r (\<lambda>(P, t). bind_r (map_all P _ (?t P t)) (?f P))")
proof (cases ?r)
  case (Inr x)
  obtain P t where x: "x = (P, t)" by (cases x)
  have "offsets t = (h, k)" using offsets_requestPage [OF Inr [unfolded x]] assms by simp
  then have "offsets (?t P t) = (h, k)" by (simp add: offsets_def)
  note bl = boot_loops_all [OF this, of P mm]
  show ?thesis unfolding init_paging_def Let_def Inr x bind_r_Inr prod.case bl [symmetric] bind_r_assoc
    by (simp add: log_both_def)
qed (simp add: init_paging_def Let_def)

lemma frames_apart_log [simp]: "frames_apart (s\<lparr>klog := l\<rparr>) = frames_apart s"
  by (simp add: frames_apart_def pfa_inv_def managed_frames_def)

lemma reserve_log [simp]: "reserve n (s\<lparr>klog := l\<rparr>) = reserve n s"
  by (simp add: reserve_def free_pages_def)

lemma init_paging_result:
  fixes s :: "'z boot_scheme"
  assumes s: "frames_apart s" and o: "offsets s = (h, k)"
  shows "case init_paging mm s of
      Inl e \<Rightarrow> e = Panic ''Out of memory''
    | Inr u \<Rightarrow> paging_inv (cr3 u) u \<and> globalPageTable u = cr3 u \<and>
        (\<forall>v. translate (ram u) (cr3 u) v = space_of (boot_mappings h k mm) v) \<and>
        (\<forall>x. (paging_area (cr3 u) u x \<longrightarrow> allocator_area s x) \<and> (\<not> allocator_area s x \<longrightarrow> ram u x = ram s x))"
    and "boot_layout h k mm \<Longrightarrow> reserve (n + boot_frames mm) s \<Longrightarrow> \<exists>u. init_paging mm s = Inr u \<and> reserve n u"
proof -
  let ?l = "log_both (prelog ''Initialize paging...'') [] (klog s)"
  let ?t = "\<lambda>P t. t\<lparr>globalPageTable := P, klog := log_both (prelog ''PagingTable Address is %x'') [Num P] (klog t),
          ram := memset (ram t) P 0 0x1000\<rparr> :: 'z boot_scheme"
  have s': "frames_apart (s\<lparr>klog := ?l\<rparr>)" using s by simp
  then have pfa: "pfa_inv (s\<lparr>klog := ?l\<rparr>)" by (simp add: frames_apart_def)
  have top: "paging_inv P (?t P t)" "translate (ram (?t P t)) P v = None" "free_pages (?t P t) = free_pages t"
      "idx_ok is \<Longrightarrow> is \<noteq> [] \<Longrightarrow> walk (ram (?t P t)) P is = None"
    if r: "mem_pageframeallocator_requestPage (s\<lparr>klog := ?l\<rparr>) = Inr (P, t)" for P t v "is"
  proof -
    note n = new_top_table [OF s' r]
    have "paging_inv P (?t P t) = paging_inv P (t\<lparr>ram := memset (ram t) P 0 0x1000\<rparr>)"
      by (simp add: paging_inv_def pfa_inv_def free_frames_def free_pages_def managed_frames_def)
    with n show "paging_inv P (?t P t)" "translate (ram (?t P t)) P v = None" "free_pages (?t P t) = free_pages t"
      "idx_ok is \<Longrightarrow> is \<noteq> [] \<Longrightarrow> walk (ram (?t P t)) P is = None" by (simp_all add: free_pages_def)
  qed
  have top_area: "allocator_area s x"
    if r: "mem_pageframeallocator_requestPage (s\<lparr>klog := ?l\<rparr>) = Inr (P, t)" and x: "paging_area P (?t P t) x" for P t x
  proof -
    have "paging_area P (?t P t) x = paging_area P (t\<lparr>ram := memset (ram t) P 0 0x1000\<rparr>) x"
      by (simp add: paging_area_def free_frames_def free_pages_def)
    then show ?thesis using new_top_table(5) [OF s' r] x by simp
  qed
  have top_frame: "ram (?t P t) x = ram s x"
    if r: "mem_pageframeallocator_requestPage (s\<lparr>klog := ?l\<rparr>) = Inr (P, t)" and x: "\<not> allocator_area s x" for P t x
    using new_top_table(6) [OF s' r] x by simp
  note eq = init_paging_eq [OF o, of mm]
  show "case init_paging mm s of
      Inl e \<Rightarrow> e = Panic ''Out of memory''
    | Inr u \<Rightarrow> paging_inv (cr3 u) u \<and> globalPageTable u = cr3 u \<and>
        (\<forall>v. translate (ram u) (cr3 u) v = space_of (boot_mappings h k mm) v) \<and>
        (\<forall>x. (paging_area (cr3 u) u x \<longrightarrow> allocator_area s x) \<and> (\<not> allocator_area s x \<longrightarrow> ram u x = ram s x))"
  proof (cases "mem_pageframeallocator_requestPage (s\<lparr>klog := ?l\<rparr>)")
    case (Inl e)
    then show ?thesis using requestPage_spec [OF pfa] by (simp add: eq Let_def split: if_splits)
  next
    case (Inr x)
    obtain P t where r: "mem_pageframeallocator_requestPage (s\<lparr>klog := ?l\<rparr>) = Inr (P, t)" using Inr by (cases x) simp
    show ?thesis
    proof (cases "map_all P (boot_mappings h k mm) (?t P t)")
      case (Inl e)
      then show ?thesis using map_all_Inl [OF top(1) [OF r]] by (simp add: eq r)
    next
      case (Inr u)
      note e = map_all_effect [OF top(1) [OF r] Inr]
      have "globalPageTable u = P" using e heap_more(1) [of u "?t P t"] by simp
      moreover have "translate (ram u) P v = space_of (boot_mappings h k mm) v" for v
        using e top(2) [OF r] by (simp split: option.split)
      moreover have "allocator_area s x" if "paging_area P u x" for x
        using that e top_area [OF r] by (simp add: area_kept_def)
      moreover have "ram u x = ram s x" if "\<not> allocator_area s x" for x
      proof -
        have "\<not> paging_area P (?t P t) x" using that top_area [OF r] by blast
        then have "ram u x = ram (?t P t) x" using e unfolding area_kept_def by blast
        then show ?thesis using top_frame [OF r that] by simp
      qed
      ultimately show ?thesis using e by (simp add: eq r Inr)
    qed
  qed
  assume lay: "boot_layout h k mm" and res: "reserve (n + boot_frames mm) s"
  let ?X = "paths_of (boot_mappings h k mm)"
  have "Suc (n + card ?X) \<le> n + boot_frames mm" using paths_of_boot [OF lay] by simp
  then have "reserve (Suc (n + card ?X)) (s\<lparr>klog := ?l\<rparr>)" using reserve_mono [OF res] by simp
  then obtain P t where r: "mem_pageframeallocator_requestPage (s\<lparr>klog := ?l\<rparr>) = Inr (P, t)" and t: "reserve (n + card ?X) t"
    using reserve_request [OF pfa] by metis
  have "card (missing (ram (?t P t)) P ?X) \<le> card ?X" by (intro card_mono) (auto simp: missing_def)
  moreover have "reserve (n + card ?X) (?t P t)" using t top(3) [OF r] by (simp add: reserve_def)
  ultimately have "reserve (n + card (missing (ram (?t P t)) P ?X)) (?t P t)" by (auto elim: reserve_mono)
  then obtain u where u: "map_all P (boot_mappings h k mm) (?t P t) = Inr u" "reserve (n + card (missing (ram u) P ?X)) u"
    using map_all_serves [OF top(1) [OF r] finite_paths_of order_refl paths_of_ok] by metis
  from u(2) have "reserve n u" by (rule reserve_mono) simp
  then show "\<exists>u. init_paging mm s = Inr u \<and> reserve n u" using u(1) by (simp add: eq r reserve_def free_pages_def)
qed

section \<open>The memory set-up\<close>

text \<open>After \<open>init\<close> the frames of the allocator are apart from its bitmap, and the largest segment backs its counter.\<close>

lemma init_frames_apart:
  assumes lay: "boot_layout h k mm" and o: "offsets s = (h, k)"
    and scan: "fold scan_entry mm (0, 0, memEnd s) = (seg, sz, e)" "seg \<noteq> 0"
    and t: "mem_pageframeallocator_init mm s = Inr t"
  shows "frames_apart t"
proof -
  note small = boot_layout_areal [OF lay]
  note b = map_size_bounds [OF small]
  obtain t' where "mem_pageframeallocator_init mm s = Inr t'" and i: "pfa_inv t'"
      "mem_pfaBitmap t' = \<lparr>Size = bitmap_bytes mm, Buffer = mem_hhdmOffset s + seg\<rparr>"
    by (rule init_facts [OF scan small])
  with t have tt: "t' = t" by simp
  note i = i [unfolded tt]
  have h: "mem_hhdmOffset s = h" using o by (simp add: offsets_def)
  obtain x where "x \<in> set mm" "entry_base x = seg" using scan_largest [OF scan(1)] scan(2) by auto
  then have "unat seg \<le> 2 ^ 31" using lay by (auto simp: boot_layout_def)
  then have B: "unat (Buffer (mem_pfaBitmap t)) = unat h + unat seg" "unat seg \<le> 2 ^ 31"
    using lay unat_add_no_wrap [of h seg] unfolding i(2) Bitmap.simps h boot_layout_def by simp_all
  have len: "unat (Size (mem_pfaBitmap t)) \<le> 2 ^ 16 + 1" using b(3) unfolding i(2) Bitmap.simps .
  then have pc: "unat (page_count t) \<le> (2 ^ 16 + 1) * 8" using pfa_inv_page_count [OF i(1)] by simp
  have hb: "2 ^ 32 \<le> unat h" "unat h + 2 ^ 32 \<le> 2 ^ 64" using lay unfolding boot_layout_def by blast+
  have "region_disjoint u 4096 (Buffer (mem_pfaBitmap t)) (bitmap_len t)" if "u \<in> managed_frames t" for u
  proof -
    obtain j where j: "u = j * 4096" "j < page_count t" using \<open>u \<in> managed_frames t\<close> by (auto simp: managed_frames_def)
    then have "unat j \<le> (2 ^ 16 + 1) * 8" using pc by (simp add: word_less_nat_alt)
    then have "unat u \<le> (2 ^ 16 + 1) * 8 * 4096" using unat_mult_no_wrap [of j 4096] by (simp add: j(1))
    then show ?thesis using B(1) B(2) hb len by (intro region_disjoint_no_wrap) simp_all
  qed
  then show ?thesis using i(1) len by (simp add: frames_apart_def)
qed

lemma init_reserve:
  assumes ok: "limine_map_ok mm" and scan: "fold scan_entry mm (0, 0, memEnd s) = (seg, sz, e)" "seg \<noteq> 0"
    and small: "getMemoryArealSize mm \<le> 2 ^ 31" and n: "(n + unat (bitmap_pages mm) + 3) * 4096 \<le> unat sz"
    and t: "mem_pageframeallocator_init mm s = Inr t"
  shows "reserve n t"
proof -
  obtain x where x: "x \<in> set mm" "is_usable x" "seg = entry_base x" "sz = entry_length x"
    using scan_largest [OF scan(1)] scan(2) by auto
  have fits: "unat (bitmap_pages mm) * 4096 \<le> unat sz" using n by simp
  have "unat (mem_freeMemory t) = unat sz - unat (bitmap_pages mm) * 4096"
    using init_counter [OF ok x(1,2) _ _ small _ t] scan fits by (simp add: x)
  with n have f: "12288 + n * 4096 \<le> unat (mem_freeMemory t)" by (simp add: algebra_simps)
  let ?U = "usable_pages mm - reserved_pages mm seg"
  have "unat (mem_freeMemory t) \<le> 4096 * card (free_pages t \<inter> ?U)"
    using init_backed [OF ok scan small fits t] by (simp add: pfa_backed_def)
  also have "card (free_pages t \<inter> ?U) \<le> card (free_pages t)" by (rule card_mono) auto
  finally show ?thesis using f by (simp add: reserve_def)
qed

text \<open>Where the allocator and the tables live: the bitmap in the direct map, the frames in usable memory or, for the last bits
  of the bitmap, right behind the map.\<close>

definition boot_area :: "u64 \<Rightarrow> memmap \<Rightarrow> u64 \<Rightarrow> bool" where
  "boot_area h mm x \<longleftrightarrow> unat h \<le> unat x \<and> unat x < unat h + 2 ^ 32 \<or>
    (\<exists>j. (j \<in> usable_pages mm \<or> map_pages mm \<le> j \<and> j < bitmap_bytes mm * 8) \<and> unat j * 4096 \<le> unat x \<and> unat x < unat j * 4096 + 4096)"

lemma init_area:
  assumes lay: "boot_layout h k mm" and o: "offsets s = (h, k)"
    and scan: "fold scan_entry mm (0, 0, memEnd s) = (seg, sz, e)" "seg \<noteq> 0"
    and t: "mem_pageframeallocator_init mm s = Inr t"
  shows "allocator_area t x \<Longrightarrow> boot_area h mm x" and "\<not> boot_area h mm x \<Longrightarrow> ram t x = ram s x"
proof -
  note small = boot_layout_areal [OF lay]
  note b = map_size_bounds [OF small]
  obtain t' where "mem_pageframeallocator_init mm s = Inr t'" and i: "pfa_inv t'"
      "mem_pfaBitmap t' = \<lparr>Size = bitmap_bytes mm, Buffer = mem_hhdmOffset s + seg\<rparr>"
    and f: "free_pages t' = ({j. j < bitmap_bytes mm * 8} - {j. j < map_pages mm}
           \<union> {j. j < bitmap_bytes mm * 8 \<and> j \<in> usable_pages mm}) - reserved_pages mm seg"
    by (rule init_facts [OF scan small])
  with t have tt: "t' = t" by simp
  note i = i [unfolded tt] and f = f [unfolded tt]
  obtain e where "e \<in> set mm" "entry_base e = seg" using scan_largest [OF scan(1)] scan(2) by auto
  then have seg: "unat seg \<le> 2 ^ 31" using lay by (auto simp: boot_layout_def)
  have bitmap: "boot_area h mm x" if "in_region (h + seg) (Suc (unat (bitmap_bytes mm))) x"
  proof -
    have "unat (h + seg) = unat h + unat seg" "unat h + 2 ^ 32 \<le> 2 ^ 64"
      using lay seg by (auto simp: boot_layout_def intro!: unat_add_no_wrap)
    then have "unat h \<le> unat x \<and> unat x < unat h + 2 ^ 32"
      using that seg b(3) by (subst (asm) in_region_no_wrap) auto
    then show ?thesis by (simp add: boot_area_def)
  qed
  have h: "mem_hhdmOffset s = h" using o by (simp add: offsets_def)
  show "ram t x = ram s x" if "\<not> boot_area h mm x"
    using that bitmap by (intro init_frame [OF scan small t]) (auto simp: h)
  assume "allocator_area t x"
  then show "boot_area h mm x"
    unfolding allocator_area_def
  proof
    assume "in_region (Buffer (mem_pfaBitmap t)) (bitmap_len t) x"
    then show ?thesis using bitmap h unfolding i(2) by simp
  next
    assume "\<exists>f\<in>free_frames t. in_region f 4096 x"
    then obtain j where j: "j \<in> free_pages t" "in_region (j * 4096) 4096 x" by (auto simp: free_frames_def)
    have "unat j < 2 ^ 52" by (rule page_index_small [OF i(1) free_pages_lt [OF j(1)]])
    then have "unat (j * 4096) = unat j * 4096" using unat_mult_no_wrap [of j 4096] by simp
    moreover have "unat j * 4096 + 4096 \<le> 2 ^ 64" using \<open>unat j < 2 ^ 52\<close> by simp
    ultimately have "unat j * 4096 \<le> unat x" "unat x < unat j * 4096 + 4096"
      using j(2) by (simp_all add: in_region_no_wrap)
    moreover have "j \<in> usable_pages mm \<or> map_pages mm \<le> j \<and> j < bitmap_bytes mm * 8" using j(1) unfolding f by (auto simp: not_less)
    ultimately show ?thesis unfolding boot_area_def by blast
  qed
qed

lemma init_frames_result:
  fixes s :: "'z boot_scheme"
  assumes ok: "limine_map_ok mm" and lay: "boot_layout h k mm"
    and scan: "fold scan_entry mm (0, 0, memEnd s) = (seg, sz, e)" "seg \<noteq> 0"
    and n: "(n + unat (bitmap_pages mm) + 3) * 4096 \<le> unat sz"
  obtains t where "init_frames base k h mm s = Inr t" and "frames_apart t" and "offsets t = (h, k)" and "reserve n t"
    and "\<forall>x. (allocator_area t x \<longrightarrow> boot_area h mm x) \<and> (\<not> boot_area h mm x \<longrightarrow> ram t x = ram s x)"
proof -
  note small = boot_layout_areal [OF lay]
  define s1 where "s1 = s\<lparr>mem_hhdmOffset := h, mem_kVirtOffset := k,
    klog := log_terminal (prelog ''Initialize page frame allocator...'') []
     (log_serial (prelog ''Physical Base of Kernel: %x\<newline>Virtual Base of Kernel: %x\<newline>HHDM Offset: %x'')
            [Num base, Num k, Num h] (klog s))\<rparr>"
  have o: "offsets s1 = (h, k)" and scan1: "fold scan_entry mm (0, 0, memEnd s1) = (seg, sz, e)"
    using scan by (simp_all add: s1_def offsets_def)
  obtain t where t: "mem_pageframeallocator_init mm s1 = Inr t" by (rule init_facts [OF scan1 scan(2) small])
  obtain l where i: "init_frames base k h mm s = Inr (t\<lparr>klog := l\<rparr>)"
    using t by (simp add: init_frames_def Let_def s1_def)
  note ia = init_area [OF lay o scan1 scan(2) t]
  show thesis
  proof (rule that [OF i])
    show "frames_apart (t\<lparr>klog := l\<rparr>)" using init_frames_apart [OF lay o scan1 scan(2) t] by simp
    show "offsets (t\<lparr>klog := l\<rparr>) = (h, k)" using offsets_init [OF t] o by simp
    show "reserve n (t\<lparr>klog := l\<rparr>)" using init_reserve [OF ok scan1 scan(2) small n t] by simp
    show "\<forall>x. (allocator_area (t\<lparr>klog := l\<rparr>) x \<longrightarrow> boot_area h mm x) \<and>
        (\<not> boot_area h mm x \<longrightarrow> ram (t\<lparr>klog := l\<rparr>) x = ram s x)"
      using ia by (simp add: s1_def)
  qed
qed

lemma init_paging_stage:
  fixes t :: "'z boot_scheme"
  assumes "frames_apart t" and "offsets t = (h, k)" and "boot_layout h k mm" and "reserve (n + boot_frames mm) t"
  obtains u where "init_paging mm t = Inr u" and "paging_inv (cr3 u) u" and "globalPageTable u = cr3 u"
    and "\<forall>v. translate (ram u) (cr3 u) v = space_of (boot_mappings h k mm) v" and "reserve n u"
    and "\<forall>x. (paging_area (cr3 u) u x \<longrightarrow> allocator_area t x) \<and> (\<not> allocator_area t x \<longrightarrow> ram u x = ram t x)"
proof -
  obtain u where u: "init_paging mm t = Inr u" "reserve n u" using init_paging_result(2) [OF assms] by blast
  show thesis using init_paging_result(1) [OF assms(1,2), of mm, unfolded u(1) sum.case] u by (intro that [OF u(1)]) blast+
qed

lemma init_memory_result:
  fixes s :: "'z boot_scheme"
  assumes ok: "limine_map_ok mm" and lay: "boot_layout h k mm"
    and scan: "fold scan_entry mm (0, 0, memEnd s) = (seg, sz, e)" "seg \<noteq> 0"
    and n: "(n + boot_frames mm + unat (bitmap_pages mm) + 3) * 4096 \<le> unat sz"
  obtains u where "init_memory base k h mm s = Inr u" and "paging_inv (cr3 u) u" and "globalPageTable u = cr3 u"
    and "\<forall>v. translate (ram u) (cr3 u) v = space_of (boot_mappings h k mm) v" and "reserve n u"
    and "\<forall>x. (paging_area (cr3 u) u x \<longrightarrow> boot_area h mm x) \<and> (\<not> boot_area h mm x \<longrightarrow> ram u x = ram s x)"
proof -
  obtain t where t: "init_frames base k h mm s = Inr t" "frames_apart t" "offsets t = (h, k)" "reserve (n + boot_frames mm) t"
    and tx: "\<forall>x. (allocator_area t x \<longrightarrow> boot_area h mm x) \<and> (\<not> boot_area h mm x \<longrightarrow> ram t x = ram s x)"
    by (rule init_frames_result [OF ok lay scan n])
  have d: "frames_apart (idt_done t)" "offsets (idt_done t) = (h, k)" "reserve (n + boot_frames mm) (idt_done t)"
    "allocator_area (idt_done t) = allocator_area t" "ram (idt_done t) = ram t"
    using t by (simp_all add: idt_done_def)
  obtain u where u: "init_paging mm (idt_done t) = Inr u" "paging_inv (cr3 u) u" "globalPageTable u = cr3 u"
    "\<forall>v. translate (ram u) (cr3 u) v = space_of (boot_mappings h k mm) v" "reserve n u"
    and ux: "\<forall>x. (paging_area (cr3 u) u x \<longrightarrow> allocator_area t x) \<and> (\<not> allocator_area t x \<longrightarrow> ram u x = ram t x)"
    by (rule init_paging_stage [OF d(1,2) lay d(3), unfolded d(4,5)])
  have "\<forall>x. (paging_area (cr3 u) u x \<longrightarrow> boot_area h mm x) \<and> (\<not> boot_area h mm x \<longrightarrow> ram u x = ram s x)"
    using tx ux by metis
  then show thesis using t(1) u by (intro that [of u]) (simp_all add: init_memory_def)
qed

lemmas init_memory_space = init_memory_result [where n = 0, unfolded add_0]

section \<open>The upper half\<close>

text \<open>Page numbers of canonical addresses: the upper 128 TiB and the lower ones do not meet.\<close>

definition high_half :: "u64 \<Rightarrow> u64 \<Rightarrow> bool" where
  "high_half h k \<longleftrightarrow> aligned h \<and> aligned k \<and> 2 ^ 64 - 2 ^ 47 \<le> unat h \<and> unat h + 2 ^ 32 \<le> unat k"

lemma unat_page_number_mod: "unat (page_number v) = unat v div 4096 mod 2 ^ 36"
  by (simp add: page_number_def unsigned_take_bit_eq take_bit_eq_mod drop_bit_eq_div unat_div unat_mod)

lemma page_number_eq_high:
  assumes "2 ^ 64 - 2 ^ 48 \<le> unat v" and "2 ^ 64 - 2 ^ 48 \<le> unat w"
  shows "page_number v = page_number w \<longleftrightarrow> unat v div 4096 = unat w div 4096"
proof -
  have "unat x div 4096 mod 2 ^ 36 = unat x div 4096 - (2 ^ 52 - 2 ^ 36)" if "2 ^ 64 - 2 ^ 48 \<le> unat x" for x :: u64
  proof -
    have "2 ^ 52 - 2 ^ 36 \<le> unat x div 4096" using div_le_mono [OF that, of 4096] by simp
    then obtain q where q: "unat x div 4096 = q + (2 ^ 52 - 2 ^ 36)" using le_Suc_ex by (metis add.commute)
    have "unat x div 4096 < 2 ^ 52" using unat_lt_64 [of x] by (intro less_mult_imp_div_less) simp
    with q have "q < 2 ^ 36" by simp
    moreover have "(q + (2 ^ 52 - 2 ^ 36)) mod 2 ^ 36 = q mod 2 ^ 36"
      using mod_mult_self2 [of q "2 ^ 36" "2 ^ 16 - 1 :: nat"] by simp
    ultimately show ?thesis using q by simp
  qed
  moreover have "2 ^ 52 - 2 ^ 36 \<le> unat x div 4096" if "2 ^ 64 - 2 ^ 48 \<le> unat x" for x :: u64
    using div_le_mono [OF that, of 4096] by simp
  ultimately show ?thesis using assms by (auto simp: word_unat_eq_iff unat_page_number_mod)
qed

lemma page_number_low_high:
  assumes "unat v < 2 ^ 24" and "2 ^ 64 - 2 ^ 47 \<le> unat w"
  shows "page_number v \<noteq> page_number w"
proof -
  have "unat (page_number v) < 4096"
    using assms(1) by (simp add: unat_page_number less_mult_imp_div_less)
  moreover have "4096 \<le> unat (page_number w)"
  proof -
    have "2 ^ 52 - 2 ^ 35 \<le> unat w div 4096" "unat w div 4096 < 2 ^ 52"
      using div_le_mono [OF assms(2), of 4096] unat_lt_64 [of w] by (simp_all add: less_mult_imp_div_less)
    then obtain q where q: "unat w div 4096 = q + 2 ^ 35 + (2 ^ 52 - 2 ^ 36)" "q < 2 ^ 35"
      using le_Suc_ex [of "2 ^ 52 - 2 ^ 35" "unat w div 4096"] by auto
    have "(q + 2 ^ 35 + (2 ^ 52 - 2 ^ 36)) mod 2 ^ 36 = (q + 2 ^ 35) mod 2 ^ 36"
      using mod_mult_self2 [of "q + 2 ^ 35" "2 ^ 36" "2 ^ 16 - 1 :: nat"] by simp
    with q show ?thesis by (simp add: unat_page_number_mod)
  qed
  ultimately show ?thesis by auto
qed

lemma frame_bits_page:
  assumes "unat p div 4096 = unat q div 4096"
  shows "frame_bits p = frame_bits q"
proof -
  have "drop_bit 12 p = drop_bit 12 q" by (rule word_eqI_unat) (use assms in \<open>simp add: drop_bit_eq_div unat_div\<close>)
  then have "bit p (12 + n) = bit q (12 + n)" for n by (metis bit_drop_bit_eq comp_apply)
  then have "bit p n = bit q n" if "12 \<le> n" for n using that le_Suc_ex by blast
  then show ?thesis by (intro bit_word_eqI) (auto simp: bit_frame_bits)
qed

text \<open>A page that every mapping of it sends to the same frame.\<close>

lemma space_of_unique:
  assumes "(w, p) \<in> set ms" and "page_number w = page_number v"
    and "\<And>w' p'. (w', p') \<in> set ms \<Longrightarrow> page_number w' = page_number v \<Longrightarrow> frame_bits p' = frame_bits p"
  shows "space_of ms v = Some (frame_bits p)"
proof (cases "space_of ms v")
  case None
  with assms(1,2) show ?thesis by (force simp: space_of_def map_of_eq_None_iff)
next
  case (Some f)
  then have "(page_number v, f) \<in> (\<lambda>(v, p). (page_number v, frame_bits p)) ` set ms"
    by (auto simp: space_of_def dest: map_of_SomeD)
  then obtain w' p' where "(w', p') \<in> set ms" "page_number w' = page_number v" "f = frame_bits p'" by auto
  with Some assms(3) show ?thesis by simp
qed

lemma space_of_other: "(\<And>w p. (w, p) \<in> set ms \<Longrightarrow> page_number w \<noteq> page_number v) \<Longrightarrow> space_of ms v = None"
  by (force simp: space_of_def map_of_eq_None_iff)

text \<open>The three kinds of mappings, with their addresses as numbers.\<close>

lemma entry_mapping_cases:
  assumes lay: "boot_layout h k mm" and hh: "high_half h k" and x: "x \<in> set mm" and m: "(w, p) \<in> set (entry_mappings h k x)"
  obtains (direct) i where "entry_type x \<noteq> 6" "i < unat (size_in_pages x)" "p = entry_base x + of_nat i * 4096"
      "unat p = unat (entry_base x) + 4096 * i" "unat w = unat h + unat p" "unat p < 2 ^ 32"
    | (kernel) i where "entry_type x = 6" "i < unat (size_in_pages x)" "p = entry_base x + of_nat i * 4096"
      "unat p = unat (entry_base x) + 4096 * i" "unat w = unat k + 4096 * i"
proof -
  have b: "unat (entry_base x) + unat (entry_length x) \<le> 2 ^ 31" using lay x by (simp add: boot_layout_def)
  then have n: "unat (size_in_pages x) \<le> 2 ^ 19" using unat_size_in_pages [of x] by simp
  obtain i where i: "i < unat (size_in_pages x)" "p = entry_base x + of_nat i * 4096"
      "w = (if entry_type x = 6 then k + of_nat i * 4096 else p + h)"
    using m by (auto simp: entry_mappings_def count_upto_def)
  have p: "unat p = unat (entry_base x) + 4096 * i"
    unfolding i(2) by (rule unat_add_page) (use i(1) n b in simp)
  have lk: "unat h + 2 ^ 32 \<le> 2 ^ 64" "unat k + 2 ^ 31 \<le> 2 ^ 64" using lay by (simp_all add: boot_layout_def)
  show thesis
  proof (cases "entry_type x = 6")
    case True
    then have w: "w = k + of_nat i * 4096" using i(3) by simp
    have "unat w = unat k + 4096 * i" unfolding w by (rule unat_add_page) (use i(1) n lk in simp)
    with True i p show thesis by (intro kernel)
  next
    case False
    have "unat p < 2 ^ 32" using p i(1) n b by simp
    moreover from this have "unat w = unat h + unat p"
      using False i(3) lk unat_add_no_wrap [of p h] by simp
    ultimately show thesis using False i p by (intro direct)
  qed
qed

lemma page_of_entry:
  assumes "boot_layout h k mm" and x: "x \<in> set mm" and al: "unat (entry_base x) mod 4096 = 0"
    and d: "unat d < unat (entry_length x)"
  shows "unat d div 4096 < unat (size_in_pages x)" and "unat (entry_base x + d) = unat (entry_base x) + unat d"
    and "unat (entry_base x + d) div 4096 = unat (entry_base x) div 4096 + unat d div 4096"
proof -
  have b: "unat (entry_base x) + unat (entry_length x) \<le> 2 ^ 31" using assms(1) x by (simp add: boot_layout_def)
  have "unat (entry_length x) \<le> (unat (entry_length x) + 4095) div 4096 * 4096"
    using div_mult_mod_eq [of "unat (entry_length x) + 4095" 4096]
      mod_less_divisor [of 4096 "unat (entry_length x) + 4095"] by linarith
  with d have "unat d div 4096 < (unat (entry_length x) + 4095) div 4096"
    by (intro less_mult_imp_div_less) linarith
  then show "unat d div 4096 < unat (size_in_pages x)" using unat_size_in_pages [of x] b by simp
  show u: "unat (entry_base x + d) = unat (entry_base x) + unat d" using b d by (intro unat_add_no_wrap) simp
  show "unat (entry_base x + d) div 4096 = unat (entry_base x) div 4096 + unat d div 4096"
    unfolding u using al by (auto simp: mod_eq_0_iff_dvd elim: dvdE)
qed

lemma unat_low_page: "i < 4096 \<Longrightarrow> unat (of_nat i * 4096 :: u64) = 4096 * i"
  using unat_add_page [of 0 i] by simp

lemma space_low:
  assumes "unat v < 2 ^ 24"
  shows "space_of (boot_mappings h k mm) v = Some (frame_bits v)"
proof -
  note u = unat_low_page
  have low: "\<exists>i<4096. w = of_nat i * 4096 \<and> p = w" if "(w, p) \<in> set low_mappings" for w p
    using that by (auto simp: low_mappings_def count_upto_def)
  define i where "i = unat v div 4096"
  have i: "i < 4096" using assms by (simp add: i_def less_mult_imp_div_less)
  have "space_of low_mappings v = Some (frame_bits (of_nat i * 4096))"
  proof (rule space_of_unique)
    show "(of_nat i * 4096, of_nat i * 4096) \<in> set low_mappings"
      using i by (auto simp: low_mappings_def count_upto_def)
    show "page_number (of_nat i * 4096) = page_number v"
      using assms i u [OF i] by (simp add: word_unat_eq_iff unat_page_number i_def)
    fix w p assume m: "(w, p) \<in> set low_mappings" "page_number w = page_number v"
    obtain j where j: "j < 4096" "w = of_nat j * 4096" "p = w" using low [OF m(1)] by blast
    have "j = i" using m(2) assms u [OF j(1)] j(1) by (simp add: j(2) word_unat_eq_iff unat_page_number i_def)
    with j show "frame_bits p = frame_bits (of_nat i * 4096)" by simp
  qed
  moreover have "frame_bits (of_nat i * 4096) = frame_bits v"
    by (rule frame_bits_page) (unfold u [OF i], simp add: i_def)
  ultimately show ?thesis by (simp add: boot_mappings_def space_of_append)
qed

lemma low_mappings_high: "2 ^ 64 - 2 ^ 47 \<le> unat v \<Longrightarrow> space_of low_mappings v = None"
proof (rule space_of_other)
  fix w p assume v: "2 ^ 64 - 2 ^ 47 \<le> unat v" and "(w, p) \<in> set low_mappings"
  then obtain i where i: "i < 4096" "w = of_nat i * 4096" by (auto simp: low_mappings_def count_upto_def)
  then have "unat w \<le> 4096 * 4095" using unat_low_page [OF i(1)] by simp
  then show "page_number w \<noteq> page_number v" using v by (intro page_number_low_high) simp_all
qed

lemma space_high:
  assumes "2 ^ 64 - 2 ^ 47 \<le> unat v"
  shows "space_of (boot_mappings h k mm) v = space_of (concat (map (entry_mappings h k) mm)) v"
  using low_mappings_high [OF assms] by (simp add: boot_mappings_def space_of_append)

lemma aligned_div: "aligned h \<Longrightarrow> (unat h + n) div 4096 = unat h div 4096 + n div 4096"
  by (auto simp: aligned_def mod_eq_0_iff_dvd elim!: dvdE)

lemma space_direct:
  assumes lay: "boot_layout h k mm" and hh: "high_half h k" and x: "x \<in> set mm" "entry_type x \<noteq> 6"
    and al: "unat (entry_base x) mod 4096 = 0" and d: "unat d < unat (entry_length x)"
  shows "space_of (boot_mappings h k mm) (h + (entry_base x + d)) = Some (frame_bits (entry_base x + d))"
proof -
  note pe = page_of_entry [OF lay x(1) al d]
  let ?p = "entry_base x + d" and ?i = "unat d div 4096"
  have b: "unat ?p < 2 ^ 31" using lay x(1) d pe(2) by (auto simp: boot_layout_def)
  have h: "2 ^ 64 - 2 ^ 47 \<le> unat h" "unat h + 2 ^ 32 \<le> unat k" "aligned h" "unat h + 2 ^ 32 \<le> 2 ^ 64"
    using hh lay by (simp_all add: high_half_def boot_layout_def)
  have v: "unat (h + ?p) = unat h + unat ?p" using b h(4) by (intro unat_add_no_wrap) simp
  let ?q = "entry_base x + of_nat ?i * 4096"
  have m: "(?q + h, ?q) \<in> set (entry_mappings h k x)"
    using pe(1) x(2) by (auto simp: entry_mappings_def count_upto_def)
  have q1: "unat ?q = unat (entry_base x) + 4096 * ?i" by (rule unat_add_page) (use b pe(2) in simp)
  have q2: "unat (?q + h) = unat h + unat ?q"
    using q1 b pe(2) h(4) unat_add_no_wrap [of ?q h] by simp
  note q = q1 q2
  have page: "unat ?q div 4096 = unat ?p div 4096" using q(1) pe(3) by simp
  have hi: "2 ^ 64 - 2 ^ 48 \<le> unat h + n" for n using h(1) by simp
  have "space_of (concat (map (entry_mappings h k) mm)) (h + ?p) = Some (frame_bits ?q)"
  proof (rule space_of_unique)
    show "(?q + h, ?q) \<in> set (concat (map (entry_mappings h k) mm))" using x(1) m by auto
    show "page_number (?q + h) = page_number (h + ?p)"
      using page hi h(3) by (subst page_number_eq_high) (simp_all add: q(2) v aligned_div)
    fix w p assume wp: "(w, p) \<in> set (concat (map (entry_mappings h k) mm))" "page_number w = page_number (h + ?p)"
    then obtain y where y: "y \<in> set mm" "(w, p) \<in> set (entry_mappings h k y)" by auto
    from lay hh y show "frame_bits p = frame_bits ?q"
    proof (cases rule: entry_mapping_cases)
      case (direct i)
      have "unat w div 4096 = unat (h + ?p) div 4096"
        using wp(2) hi by (subst (asm) page_number_eq_high) (simp_all add: direct(5) v)
      then have "unat p div 4096 = unat ?p div 4096" using h(3) by (simp add: direct(5) v aligned_div)
      then show ?thesis using page by (intro frame_bits_page) simp
    next
      case (kernel i)
      have "unat w div 4096 = unat (h + ?p) div 4096"
        using wp(2) hi h(1,2) by (subst (asm) page_number_eq_high) (simp_all add: kernel(5) v)
      moreover have "unat (h + ?p) < unat w" using h(2) b by (simp add: kernel(5) v)
      moreover have "unat (h + ?p) + 2 ^ 31 \<le> unat w" using h(2) b by (simp add: kernel(5) v)
      then have "(unat (h + ?p) + 4096) div 4096 \<le> unat w div 4096" by (intro div_le_mono) simp
      ultimately show ?thesis by simp
    qed
  qed
  moreover have "2 ^ 64 - 2 ^ 47 \<le> unat (h + ?p)" using h(1) v by simp
  ultimately show ?thesis using frame_bits_page [OF page] by (simp add: space_high)
qed

lemma space_kernel:
  assumes lay: "boot_layout h k mm" and hh: "high_half h k" and x: "x \<in> set mm" "entry_type x = 6"
    and last: "mm = xs @ x # ys" "\<forall>y\<in>set ys. entry_type y \<noteq> 6"
    and al: "unat (entry_base x) mod 4096 = 0" and d: "unat d < unat (entry_length x)"
  shows "space_of (boot_mappings h k mm) (k + d) = Some (frame_bits (entry_base x + d))"
proof -
  note pe = page_of_entry [OF lay x(1) al d]
  let ?p = "entry_base x + d" and ?i = "unat d div 4096"
  have b: "unat (entry_base x) + unat (entry_length x) \<le> 2 ^ 31" using lay x(1) by (simp add: boot_layout_def)
  have h: "2 ^ 64 - 2 ^ 47 \<le> unat h" "unat h + 2 ^ 32 \<le> unat k" "aligned k" "unat k + 2 ^ 31 \<le> 2 ^ 64"
    using hh lay by (simp_all add: high_half_def boot_layout_def)
  have v: "unat (k + d) = unat k + unat d" using b d h(4) by (intro unat_add_no_wrap) simp
  have hi: "2 ^ 64 - 2 ^ 48 \<le> unat k + n" for n using h(1,2) by simp
  let ?q = "entry_base x + of_nat ?i * 4096"
  have q: "unat ?q = unat (entry_base x) + 4096 * ?i" by (rule unat_add_page) (use b d in simp)
  have w: "unat (k + of_nat ?i * 4096) = unat k + 4096 * ?i" by (rule unat_add_page) (use b d h(4) in simp)
  have m: "(k + of_nat ?i * 4096, ?q) \<in> set (entry_mappings h k x)"
    using pe(1) x(2) by (auto simp: entry_mappings_def count_upto_def)
  have page: "unat ?q div 4096 = unat ?p div 4096" using q pe(3) by simp
  have mine: "space_of (entry_mappings h k x) (k + d) = Some (frame_bits ?q)"
  proof (rule space_of_unique [OF m])
    show "page_number (k + of_nat ?i * 4096) = page_number (k + d)"
      using hi h(3) by (subst page_number_eq_high) (simp_all add: w v aligned_div)
    fix w' p assume wp: "(w', p) \<in> set (entry_mappings h k x)" "page_number w' = page_number (k + d)"
    from lay hh x(1) wp(1) show "frame_bits p = frame_bits ?q"
    proof (cases rule: entry_mapping_cases)
      case (kernel j)
      have "unat w' div 4096 = unat (k + d) div 4096"
        using wp(2) hi by (subst (asm) page_number_eq_high) (simp_all add: kernel(5) v)
      then have "j = ?i" using h(3) by (simp add: kernel(5) v aligned_div)
      then show ?thesis using kernel(3) by simp
    qed (use x(2) in simp)
  qed
  have "space_of (concat (map (entry_mappings h k) ys)) (k + d) = None"
  proof (rule space_of_other)
    fix w' p assume "(w', p) \<in> set (concat (map (entry_mappings h k) ys))"
    then obtain y where y: "y \<in> set ys" "(w', p) \<in> set (entry_mappings h k y)" by auto
    then have "y \<in> set mm" using last(1) by simp
    from lay hh this y(2) show "page_number w' \<noteq> page_number (k + d)"
    proof (cases rule: entry_mapping_cases)
      case (direct j)
      have "unat p < 2 ^ 32 - 4096"
        using direct(2,4) lay \<open>y \<in> set mm\<close> unat_size_in_pages [of y] by (auto simp: boot_layout_def)
      then have "unat w' + 4096 \<le> unat (k + d)" using h(2) by (simp add: direct(5) v)
      then have "(unat w' + 4096) div 4096 \<le> unat (k + d) div 4096" by (rule div_le_mono)
      then show ?thesis
        using hi h(1) by (subst page_number_eq_high) (simp_all add: direct(5) v)
    qed (use last(2) y(1) in auto)
  qed
  then have "space_of (concat (map (entry_mappings h k) mm)) (k + d) = Some (frame_bits ?q)"
    using mine by (simp add: last(1) space_of_append)
  moreover have "2 ^ 64 - 2 ^ 47 \<le> unat (k + d)" using h(1,2) v by simp
  ultimately show ?thesis using frame_bits_page [OF page] by (simp add: space_high)
qed

section \<open>Properties\<close>

text \<open>C9: on every memory map whose usable entries are page-aligned, whose entries all end at or below 2 GiB (above, \<open>init\<close> overflows), whose
  first largest usable entry does not start at address 0 (which \<open>init\<close> takes for no memory) and has room for bitmap and
  tables, the memory set-up of \<open>_start\<close> returns, the loaded top table satisfies the invariant of the paging code, and the address
  space is exactly the one that the sequence of mappings describes: the direct map of all entries but the kernel and its modules,
  these from the base of the kernel image on, and the first 16 MiB one to one, later mappings first.\<close>

theorem boot_address_space:
  fixes s :: "'z boot_scheme"
  assumes "limine_map_ok mm" and "boot_layout h k mm" and "largest_segment mm = Some x" and "entry_base x \<noteq> 0"
    and "(boot_frames mm + unat (bitmap_pages mm) + 3) * 4096 \<le> unat (entry_length x)"
  shows "\<exists>u. init_memory base k h mm s = Inr u \<and> paging_inv (cr3 u) u \<and> globalPageTable u = cr3 u \<and>
     (\<forall>v. translate (ram u) (cr3 u) v = space_of (boot_mappings h k mm) v)"
proof -
  obtain e where "fold scan_entry mm (0, 0, memEnd s) = (entry_base x, entry_length x, e)"
    using scan_largest_segment [OF assms(3)] by blast
  from init_memory_space [OF assms(1,2) this assms(4,5), where base = base] show ?thesis by blast
qed

definition boot_state :: boot where
  "boot_state =
     \<lparr>ram = (\<lambda>_. 0), klog = [], mem_hhdmOffset = 0, mem_kVirtOffset = 0, mem_freeMemory = 0, mem_usedMemory = 0,
      bitmapIdx = 0, memEnd = 0, mem_pfaBitmap = \<lparr>Size = 0, Buffer = 0\<rparr>, memmap_info = [], oomPanics = False,
      globalPageTable = 0, heapStart = 0, heapEnd = 0, LastHdr = 0, cr3 = 0\<rparr>"

definition kernel_map :: memmap where
  "kernel_map = boot_map @ [\<lparr>entry_base = 0x800000, entry_length = 0x20000, entry_type = 6\<rparr>]"

abbreviation (input) limine_hhdm :: u64 where "limine_hhdm \<equiv> 0xffff800000000000"

abbreviation (input) limine_kernel :: u64 where "limine_kernel \<equiv> 0xffffffff80000000"

lemma kernel_map_scan: "fold scan_entry kernel_map (0, 0, memEnd boot_state) = (0x100000, 0x700000, 0x820000)"
  by (simp add: kernel_map_def boot_map_def scan_entry_def entry_end_def boot_state_def)

abbreviation (input) boot_segment :: limine_memmap_entry where
  "boot_segment \<equiv> \<lparr>entry_base = 0x100000, entry_length = 0x700000, entry_type = 0\<rparr>"

lemma kernel_map_largest: "largest_segment kernel_map = Some boot_segment" "entry_base boot_segment \<noteq> 0"
  by (simp_all add: largest_segment_def kernel_map_def boot_map_def is_usable_def)

lemma kernel_map_layout: "limine_map_ok kernel_map" "boot_layout limine_hhdm limine_kernel kernel_map"
    "high_half limine_hhdm limine_kernel"
  by (simp_all add: kernel_map_def boot_map_def limine_map_ok_def is_usable_def boot_layout_def high_half_def aligned_def)

lemma kernel_map_frames: "(boot_frames kernel_map + unat (bitmap_pages kernel_map) + 3) * 4096 \<le> unat (0x700000 :: u64)"
  by (simp add: boot_frames_def kernel_map_def boot_map_def size_in_pages_def getMemoryArealSize_def entry_end_def)

lemma kernel_map_room: "(boot_frames kernel_map + unat (bitmap_pages kernel_map) + 3) * 4096 \<le> unat (entry_length boot_segment)"
  using kernel_map_frames by simp

theorem boot_address_space_witness:
  "\<exists>u. init_memory 0x800000 limine_kernel limine_hhdm kernel_map boot_state = Inr u \<and> paging_inv (cr3 u) u \<and>
     translate (ram u) (cr3 u) 0x1234 = Some 0x1000"
proof -
  obtain u where u: "init_memory 0x800000 limine_kernel limine_hhdm kernel_map boot_state = Inr u" "paging_inv (cr3 u) u"
    "\<forall>v. translate (ram u) (cr3 u) v = space_of (boot_mappings limine_hhdm limine_kernel kernel_map) v"
    using boot_address_space [OF kernel_map_layout(1,2) kernel_map_largest kernel_map_room] by metis
  have "frame_bits 0x1234 = 0x1000" by (simp add: frame_bits_def)
  with u space_low [of "0x1234"] show ?thesis by auto
qed

text \<open>C10: what is mapped when \<open>_start\<close> loads that address space, before the heap is set up, when the offsets lie in the upper half as the
  boot protocol has them: the first 16 MiB at their physical addresses; every byte of the page-aligned entries in the direct
  map, except those of the kernel and its modules, which are not there; and the last entry of that type at the base of the
  kernel image.\<close>

theorem boot_reaches_memory:
  fixes s :: "'z boot_scheme"
  assumes "limine_map_ok mm" and "boot_layout h k mm" and "high_half h k" and "largest_segment mm = Some y" and "entry_base y \<noteq> 0"
    and "(boot_frames mm + unat (bitmap_pages mm) + 3) * 4096 \<le> unat (entry_length y)"
    and "init_memory base k h mm s = Inr u"
  shows "(\<forall>v. unat v < 2 ^ 24 \<longrightarrow> translate (ram u) (cr3 u) v = Some (frame_bits v)) \<and>
    (\<forall>x\<in>set mm. \<forall>d. unat (entry_base x) mod 4096 = 0 \<longrightarrow> unat d < unat (entry_length x) \<longrightarrow>
       (entry_type x \<noteq> 6 \<longrightarrow>
          translate (ram u) (cr3 u) (h + (entry_base x + d)) = Some (frame_bits (entry_base x + d))) \<and>
       (\<forall>xs ys. mm = xs @ x # ys \<longrightarrow> entry_type x = 6 \<longrightarrow> (\<forall>y\<in>set ys. entry_type y \<noteq> 6) \<longrightarrow>
          translate (ram u) (cr3 u) (k + d) = Some (frame_bits (entry_base x + d))))"
proof -
  obtain e where scan: "fold scan_entry mm (0, 0, memEnd s) = (entry_base y, entry_length y, e)"
    using scan_largest_segment [OF assms(4)] by blast
  obtain u' where "init_memory base k h mm s = Inr u'"
    and u': "\<And>v. translate (ram u') (cr3 u') v = space_of (boot_mappings h k mm) v"
    using init_memory_space [OF assms(1,2) scan assms(5,6), where base = base] by blast
  with assms(7) have uu: "u' = u" by simp
  show ?thesis
    unfolding u' [unfolded uu]
    using space_low space_direct [OF assms(2,3)] space_kernel [OF assms(2,3)] by (intro conjI ballI allI impI) simp_all
qed

theorem boot_reaches_memory_witness:
  "\<exists>u. init_memory 0x800000 limine_kernel limine_hhdm kernel_map boot_state = Inr u \<and>
     translate (ram u) (cr3 u) 0xffff800000123456 = Some 0x123000 \<and>
     translate (ram u) (cr3 u) 0xffffffff80001234 = Some 0x801000"
proof -
  have nz: "(0x100000 :: u64) \<noteq> 0" by simp
  obtain u where u: "init_memory 0x800000 limine_kernel limine_hhdm kernel_map boot_state = Inr u"
    using init_memory_space [OF kernel_map_layout(1,2) kernel_map_scan nz kernel_map_frames, where base = "0x800000"]
    by blast
  let ?x = "\<lparr>entry_base = 0x100000, entry_length = 0x700000, entry_type = 0\<rparr> :: limine_memmap_entry"
  let ?y = "\<lparr>entry_base = 0x800000, entry_length = 0x20000, entry_type = 6\<rparr> :: limine_memmap_entry"
  note r = boot_reaches_memory [OF kernel_map_layout kernel_map_largest kernel_map_room u, THEN conjunct2]
  have "?x \<in> set kernel_map" "?y \<in> set kernel_map" "kernel_map = boot_map @ ?y # []"
    by (simp_all add: kernel_map_def boot_map_def)
  then have "translate (ram u) (cr3 u) 0xffff800000123456 = Some (frame_bits 0x123456)"
    "translate (ram u) (cr3 u) 0xffffffff80001234 = Some (frame_bits 0x801234)"
    using r [THEN bspec, of ?x, THEN spec, of "0x23456"] r [THEN bspec, of ?y, THEN spec, of "0x1234"] by simp_all
  moreover have "frame_bits 0x123456 = 0x123000" "frame_bits 0x801234 = 0x801000" by (simp_all add: frame_bits_def)
  ultimately show ?thesis using u by simp
qed

text \<open>Each entry of type \<open>LIMINE_MEMMAP_KERNEL_AND_MODULES\<close> is mapped from the base of the kernel image on. On a map
  with more than one such entry (a kernel and a module) the later ones replace the pages of the kernel image.\<close>

theorem modules_replace_kernel:
  fixes s :: "'z boot_scheme"
  assumes "limine_map_ok mm" and "boot_layout h k mm" and "high_half h k"
    and "fold scan_entry mm (0, 0, memEnd s) = (seg, sz, e)" and "seg \<noteq> 0"
    and "(boot_frames mm + unat (bitmap_pages mm) + 3) * 4096 \<le> unat sz"
    and "mm = xs @ kern # ys @ [module]" and "entry_type kern = 6" and "entry_type module = 6"
    and "unat (entry_base module) mod 4096 = 0" and "unat d < unat (entry_length module)"
  shows "\<exists>u. init_memory base k h mm s = Inr u \<and>
    translate (ram u) (cr3 u) (k + d) = Some (frame_bits (entry_base module + d))"
proof -
  obtain u where "init_memory base k h mm s = Inr u"
    and u: "\<And>v. translate (ram u) (cr3 u) v = space_of (boot_mappings h k mm) v"
    using init_memory_space [OF assms(1,2,4-6), where base = base] by blast
  moreover have mm: "mm = (xs @ kern # ys) @ module # []" "module \<in> set mm" using assms(7) by simp_all
  have "space_of (boot_mappings h k mm) (k + d) = Some (frame_bits (entry_base module + d))"
    by (rule space_kernel [OF assms(2,3) mm(2) assms(9) mm(1) _ assms(10,11)]) simp
  ultimately show ?thesis by (intro exI [of _ u]) simp
qed

definition module_map :: memmap where
  "module_map = kernel_map @ [\<lparr>entry_base = 0x900000, entry_length = 0x20000, entry_type = 6\<rparr>]"

theorem modules_replace_kernel_witness:
  "\<exists>u. init_memory 0x800000 limine_kernel limine_hhdm module_map boot_state = Inr u \<and>
     translate (ram u) (cr3 u) limine_kernel = Some 0x900000"
proof -
  let ?m = "\<lparr>entry_base = 0x900000, entry_length = 0x20000, entry_type = 6\<rparr> :: limine_memmap_entry"
  have "\<exists>u. init_memory 0x800000 limine_kernel limine_hhdm module_map boot_state = Inr u \<and>
    translate (ram u) (cr3 u) (limine_kernel + 0) = Some (frame_bits (entry_base ?m + 0))"
  proof (rule modules_replace_kernel)
    show "module_map = boot_map @ \<lparr>entry_base = 0x800000, entry_length = 0x20000, entry_type = 6\<rparr> # [] @ [?m]"
      by (simp add: module_map_def kernel_map_def)
    show "fold scan_entry module_map (0, 0, memEnd boot_state) = (0x100000, 0x700000, 0x920000)"
      by (simp add: module_map_def kernel_map_def boot_map_def scan_entry_def entry_end_def boot_state_def)
    show "limine_map_ok module_map" "boot_layout limine_hhdm limine_kernel module_map"
      by (simp_all add: module_map_def kernel_map_def boot_map_def limine_map_ok_def is_usable_def boot_layout_def)
    show "(boot_frames module_map + unat (bitmap_pages module_map) + 3) * 4096 \<le> unat (0x700000 :: u64)"
      by (simp add: boot_frames_def module_map_def kernel_map_def boot_map_def size_in_pages_def
          getMemoryArealSize_def entry_end_def)
  qed (simp_all add: kernel_map_layout(3))
  then show ?thesis by (simp add: frame_bits_def)
qed

text \<open>
  The heap window, from 0x800000 up to \<open>lim\<close>, is free after the memory set-up when no usable memory reaches into it. The code does not
  ensure this: it maps the window over whatever the map has there. The first page is left out because a split of the last
  segment writes through a null pointer.
\<close>

definition outside_window :: "nat \<Rightarrow> memmap \<Rightarrow> bool" where
  "outside_window lim mm \<longleftrightarrow> (\<forall>x\<in>set mm. is_usable x \<longrightarrow> 4096 \<le> unat (entry_base x) \<and>
     (unat (entry_base x) + unat (entry_length x) \<le> 0x800000 \<or> lim \<le> unat (entry_base x)))"

lemma boot_window_free:
  assumes ok: "limine_map_ok mm" and lay: "boot_layout h k mm"
    and low: "outside_window lim mm"
    and lim: "0x800000 \<le> lim" "lim \<le> unat (map_pages mm) * 4096"
    and u: "paging_inv (globalPageTable u) u" and area: "\<forall>x. paging_area (globalPageTable u) u x \<longrightarrow> boot_area h mm x"
  shows "window_free 0x800000 lim u"
proof -
  have l31: "lim \<le> 2 ^ 31" using lim(2) map_size_bounds(1) [OF boot_layout_areal [OF lay]] by simp
  have "4096 \<le> unat x \<and> (unat x < 0x800000 \<or> lim \<le> unat x)" if "paging_area (globalPageTable u) u x" for x
    using area [rule_format, OF that] unfolding boot_area_def
  proof (elim disjE exE conjE)
    assume "unat h \<le> unat x" "unat x < unat h + 2 ^ 32"
    then show ?thesis using lay l31 by (simp add: boot_layout_def)
  next
    fix j assume j: "j \<in> usable_pages mm" "unat j * 4096 \<le> unat x" "unat x < unat j * 4096 + 4096"
    then obtain e where e: "e \<in> set mm" "is_usable e" "j \<in> entry_pages e" by (auto simp: usable_pages_def)
    then show ?thesis using entry_page_bounds [OF ok e] low e(1,2) j(2,3) by (force simp: outside_window_def)
  next
    fix j assume j: "map_pages mm \<le> j" "unat j * 4096 \<le> unat x"
    then have "unat (map_pages mm) * 4096 \<le> unat x" by (simp add: word_le_nat_alt)
    then show ?thesis using lim by simp
  qed
  moreover have "\<not> in_region 20 8 x" if "4096 \<le> unat x" for x using that by (simp add: in_region_no_wrap)
  ultimately show ?thesis using u l31 by (simp add: window_free_def)
qed

lemma heap_sys_log [simp]: "heap_sys lim (s\<lparr>klog := l\<rparr>) ss = heap_sys lim s ss"
  by (simp add: heap_sys_def heap_inv_def heap_ok_def heap_env_def)

lemma init_heap_result:
  fixes t :: "'z boot_scheme"
  assumes ok: "limine_map_ok mm" and lay: "boot_layout h k mm"
    and low: "outside_window lim mm"
    and lim: "0x900000 \<le> lim" "lim \<le> unat (map_pages mm) * 4096"
    and t: "paging_inv (cr3 t) t" "globalPageTable t = cr3 t" "reserve 1024 t"
    and area: "\<forall>x. paging_area (cr3 t) t x \<longrightarrow> boot_area h mm x"
  obtains u where "init_heap t = Inr u" and "heap_sys lim u [Seg 0x800000 (0x100000 - 29) True]"
    and "globalPageTable u = cr3 u" and "heapStart u = 0x800000" and "heapEnd u = 0x900000" and "cr3 u = cr3 t"
    and "\<forall>x. \<not> paging_area (cr3 t) t x \<longrightarrow> unat x < 0x800000 \<or> lim \<le> unat x \<longrightarrow> ram u x = ram t x \<and> \<not> paging_area (cr3 u) u x"
proof -
  obtain l where l: "init_heap t = bind_r (initHeap 0x800000 256 (t\<lparr>klog := l\<rparr>)) (\<lambda>s.
           Inr (s\<lparr>klog := log_serial (prelog ''initHeap() done'') [] (klog s)\<rparr>))"
    by (simp add: init_heap_def Let_def mb_def kb_def)
  let ?t = "t\<lparr>klog := l\<rparr>"
  have inv: "paging_inv (globalPageTable ?t) ?t" using t(1,2) by simp
  have w: "window_free 0x800000 lim ?t"
    by (rule boot_window_free [OF ok lay low _ lim(2) inv]) (use lim(1) area t(2) in auto)
  have "reserve (4 * unat (256 :: u64)) ?t" using t(3) by simp
  then obtain u where u: "initHeap 0x800000 256 ?t = Inr u" using initHeap_progress [OF inv] by blast
  note e = initHeap_effect [OF w _ _ u]
  have f: "heap_sys lim u [Seg 0x800000 (0x100000 - 29) True]" "heapStart u = 0x800000" "heapEnd u = 0x900000"
    "globalPageTable u = cr3 t" "heap.more u = heap.more ?t"
    using e(1-4,6) lim(1) t(2) by simp_all
  from f(5) have c: "cr3 u = cr3 t" by (cases u; cases t) simp
  have "ram u x = ram t x \<and> \<not> paging_area (cr3 u) u x" if "\<not> paging_area (cr3 t) t x" "unat x < 0x800000 \<or> lim \<le> unat x" for x
    using e(7) [of x] that lim(1) t(2) c by simp
  then show thesis using l u f c by (intro that [of "u\<lparr>klog := log_serial (prelog ''initHeap() done'') [] (klog u)\<rparr>"]) simp_all
qed

text \<open>The memory components together: allocator, paging and heap are set up in the order of \<open>_start\<close>. When the
  usable memory lies outside of the heap window and has room for the tables and the window, the whole sequence returns with
  the address space loaded and a well-formed heap of one free segment of 1 MiB.\<close>

theorem boot_heap_ready:
  fixes s :: "'z boot_scheme"
  assumes "limine_map_ok mm" and "boot_layout h k mm"
    and "fold scan_entry mm (0, 0, memEnd s) = (seg, sz, e)" and "seg \<noteq> 0"
    and "(1024 + boot_frames mm + unat (bitmap_pages mm) + 3) * 4096 \<le> unat sz"
    and "outside_window lim mm"
    and "0x900000 \<le> lim" and "lim \<le> unat (map_pages mm) * 4096"
  shows "\<exists>u. bind_r (init_memory base k h mm s) init_heap = Inr u \<and> heap_sys lim u [Seg 0x800000 (0x100000 - 29) True] \<and>
     globalPageTable u = cr3 u \<and> heapStart u = 0x800000 \<and> heapEnd u = 0x900000"
proof -
  obtain t where t: "init_memory base k h mm s = Inr t" "paging_inv (cr3 t) t" "globalPageTable t = cr3 t"
    and "\<forall>v. translate (ram t) (cr3 t) v = space_of (boot_mappings h k mm) v" and res: "reserve 1024 t"
    and area: "\<forall>x. (paging_area (cr3 t) t x \<longrightarrow> boot_area h mm x) \<and> (\<not> boot_area h mm x \<longrightarrow> ram t x = ram s x)"
    using init_memory_result [OF assms(1-5), where base = base] by blast
  have "\<forall>x. paging_area (cr3 t) t x \<longrightarrow> boot_area h mm x" using area by blast
  then obtain u where "init_heap t = Inr u" "heap_sys lim u [Seg 0x800000 (0x100000 - 29) True]"
    "globalPageTable u = cr3 u" "heapStart u = 0x800000" "heapEnd u = 0x900000"
    by (rule init_heap_result [OF assms(1,2,6-8) t(2,3) res])
  then show ?thesis using t(1) by simp
qed

definition window_map :: memmap where
  "window_map = kernel_map @ [\<lparr>entry_base = 0x820000, entry_length = 0x7e0000, entry_type = 1\<rparr>]"

theorem boot_heap_ready_witness:
  "\<exists>u. bind_r (init_memory 0x800000 limine_kernel limine_hhdm window_map boot_state) init_heap = Inr u \<and>
     heap_sys 0x1000000 u [Seg 0x800000 (0x100000 - 29) True]"
proof -
  have "\<exists>u. bind_r (init_memory 0x800000 limine_kernel limine_hhdm window_map boot_state) init_heap = Inr u \<and>
     heap_sys 0x1000000 u [Seg 0x800000 (0x100000 - 29) True] \<and>
     globalPageTable u = cr3 u \<and> heapStart u = 0x800000 \<and> heapEnd u = 0x900000"
  proof (rule boot_heap_ready)
    show "fold scan_entry window_map (0, 0, memEnd boot_state) = (0x100000, 0x700000, 0x1000000)"
      by (simp add: window_map_def kernel_map_def boot_map_def scan_entry_def entry_end_def boot_state_def)
    show "limine_map_ok window_map" "boot_layout limine_hhdm limine_kernel window_map"
      by (simp_all add: window_map_def kernel_map_def boot_map_def limine_map_ok_def is_usable_def boot_layout_def)
    show "(1024 + boot_frames window_map + unat (bitmap_pages window_map) + 3) * 4096 \<le> unat (0x700000 :: u64)"
      "(0x1000000 :: nat) \<le> unat (map_pages window_map) * 4096"
      by (simp_all add: boot_frames_def window_map_def kernel_map_def boot_map_def size_in_pages_def
          getMemoryArealSize_def entry_end_def)
    show "outside_window 0x1000000 window_map"
      by (simp add: outside_window_def window_map_def kernel_map_def boot_map_def is_usable_def)
  qed simp_all
  then show ?thesis by blast
qed

end
