(* ===== verification/Logger.thy ===== *)
theory Logger
  imports String_Builder Console
begin

text \<open>
  \<^verbatim>\<open>kernel/lib/logger.h\<close>: a log line is put together by a string builder on the heap and printed as a format.
  The state is the pair of heap and console. The fields of the builder object are a record; the
  object itself is the block at \<open>this\<close>, 32 bytes, that \<open>new\<close> takes from \<open>malloc\<close> and \<open>delete\<close> gives back to \<open>free\<close>
  (\<^verbatim>\<open>heap.h\<close>). String literals are addresses that the linker chooses.
\<close>

datatype LoggerTarget = NONE | TERMINAL | SERIAL | BOTH

record Logger =
  tag :: u64
  nspace :: u64
  target :: LoggerTarget

definition Logger_new :: "u64 \<Rightarrow> u64 \<Rightarrow> Logger" where
  "Logger_new tg ns = \<lparr>tag = tg, nspace = ns, target = BOTH\<rparr>"

record log_literals =
  lit_open :: u64
  lit_slash :: u64
  lit_newline :: u64
  lit_inf :: u64
  lit_wrn :: u64
  lit_err :: u64
  lit_oob :: u64
  lit_unable :: u64

definition delete_builder :: "u64 \<Rightarrow> FastStringBuilder \<Rightarrow> 'h heap_scheme \<Rightarrow> 'h heap_scheme" where
  "delete_builder this b h = free this (FastStringBuilder_destroy b h)"

text \<open>One case of the switch: print the built string and delete the builder.\<close>

definition print_built :: "(u8 list \<Rightarrow> varg list \<Rightarrow> 'c console_scheme \<Rightarrow> 'c console_scheme res option) \<Rightarrow> log_literals \<Rightarrow>
    varg list \<Rightarrow> u64 \<Rightarrow> FastStringBuilder \<Rightarrow> 'h heap_scheme \<times> 'c console_scheme \<Rightarrow>
    ('h heap_scheme \<times> 'c console_scheme) res option" where
  "print_built out lits vargs this b = (\<lambda>(h, c).
     bind_ro (build (lit_unable lits) b h) (\<lambda>(p, b, h).
     Option.bind (read_string (ram h) p) (\<lambda>fmt.
     bind_ro (out fmt vargs c) (\<lambda>c. Some (Inr (delete_builder this b h, c))))))"

definition internal_log :: "log_literals \<Rightarrow> Logger \<Rightarrow> u64 \<Rightarrow> u64 \<Rightarrow> varg list \<Rightarrow> 'h heap_scheme \<times> 'c console_scheme \<Rightarrow>
    ('h heap_scheme \<times> 'c console_scheme) res option" where
  "internal_log lits lg tpStr str vargs = (\<lambda>(h, c).
     bind_ro (malloc 32 h) (\<lambda>(this, h).
     if this = 0 then Some (Inl (Undefined ''null builder''))
     else bind_ro (FastStringBuilder_new 7 h) (\<lambda>(b, h).
       let (b, m) = fold (append_part (lit_oob lits))
             [lit_open lits, nspace lg, lit_slash lits, tag lg, tpStr, str, lit_newline lits] (b, ram h);
           h = h\<lparr>ram := m\<rparr> in
       case target lg of
         BOTH \<Rightarrow> print_built kprintf_both lits vargs this b (h, c)
       | SERIAL \<Rightarrow> print_built kprintf_serial lits vargs this b (h, c)
       | TERMINAL \<Rightarrow> print_built kprintf lits vargs this b (h, c)
       | NONE \<Rightarrow> Some (Inr (delete_builder this b h, c)))))"

definition Logger_info :: "log_literals \<Rightarrow> Logger \<Rightarrow> u64 \<Rightarrow> varg list \<Rightarrow> 'h heap_scheme \<times> 'c console_scheme \<Rightarrow>
    ('h heap_scheme \<times> 'c console_scheme) res option" where
  "Logger_info lits lg = internal_log lits lg (lit_inf lits)"

definition Logger_warn :: "log_literals \<Rightarrow> Logger \<Rightarrow> u64 \<Rightarrow> varg list \<Rightarrow> 'h heap_scheme \<times> 'c console_scheme \<Rightarrow>
    ('h heap_scheme \<times> 'c console_scheme) res option" where
  "Logger_warn lits lg = internal_log lits lg (lit_wrn lits)"

definition Logger_error :: "log_literals \<Rightarrow> Logger \<Rightarrow> u64 \<Rightarrow> varg list \<Rightarrow> 'h heap_scheme \<times> 'c console_scheme \<Rightarrow>
    ('h heap_scheme \<times> 'c console_scheme) res option" where
  "Logger_error lits lg = internal_log lits lg (lit_err lits)"

end
