(* ===== verification/Acpi.thy ===== *)
theory Acpi
  imports Logger Structs
begin

text \<open>
  \<^verbatim>\<open>kernel/acpi/acpi.cpp\<close> and the part of \<^verbatim>\<open>kernel/kernel.cpp\<close> that calls it: the search for the fixed ACPI description
  table and the switch to ACPI mode. Tables of the firmware are read in the byte memory at their addresses,
  which the code maps to themselves before it looks at them. String literals are arguments.
\<close>

section \<open>Tables\<close>

definition table_Length :: "mem \<Rightarrow> u64 \<Rightarrow> u32" where
  "table_Length m h = load32 m (h + of_nat (offset_of (ACPISDTHeader False) ''Length''))"

text \<open>The loop counter is an \<open>int\<close> that is compared with the unsigned length.\<close>

definition doChecksum :: "mem \<Rightarrow> u64 \<Rightarrow> bool res" where
  "doChecksum m tableHeader =
     (if 2 ^ 31 \<le> unat (table_Length m tableHeader) then Inl (Undefined ''signed overflow'')
      else Inr (fold (\<lambda>i sum. sum + m (tableHeader + of_nat i)) [0..<unat (table_Length m tableHeader)] 0 = (0 :: u8)))"

definition other_SDT :: "mem \<Rightarrow> u64 \<Rightarrow> nat \<Rightarrow> u64" where
  "other_SDT m rsdt i = ucast (load32 m (rsdt + of_nat (offset_of RSDT ''PointerToOtherSDT'' + 4 * i)))"

text \<open>The difference with \<open>sizeof\<close> is a \<open>u64\<close>; the quotient is converted to an \<open>int\<close>.\<close>

definition table_entries :: "mem \<Rightarrow> u64 \<Rightarrow> int" where
  "table_entries m rsdt =
     sint (ucast ((ucast (table_Length m rsdt) - of_nat (fst (c_struct (ACPISDTHeader False)))) div 4 :: u64) :: i32)"

primrec find_loop :: "u64 \<Rightarrow> u64 \<Rightarrow> nat list \<Rightarrow> 'z heap_scheme \<Rightarrow> (u64 \<times> 'z heap_scheme) res" where
  "find_loop lit_FACP rsdt [] s = Inr (0, s)"
| "find_loop lit_FACP rsdt (i # is) s =
     bind_r (PageTable_MapMemory (globalPageTable s) (other_SDT (ram s) rsdt i) (other_SDT (ram s) rsdt i) False s) (\<lambda>s.
       let h = other_SDT (ram s) rsdt i in
       if strncmp (ram s) (h + of_nat (offset_of (ACPISDTHeader False) ''Signature'')) lit_FACP 4 = 0 then Inr (h, s)
       else find_loop lit_FACP rsdt is s)"

definition findTable :: "u64 \<Rightarrow> u64 \<Rightarrow> u64 \<Rightarrow> 'z heap_scheme \<Rightarrow> (u64 \<times> 'z heap_scheme) res" where
  "findTable lit_FACP gRSDT sig s =
     (let rsdt = gRSDT in
      bind_r (PageTable_MapMemory (globalPageTable s) rsdt rsdt False s) (\<lambda>s.
        find_loop lit_FACP rsdt [0..<nat (table_entries (ram s) rsdt)] s))"

section \<open>Enabling ACPI\<close>

text \<open>\<open>inw(...) & 1 == 0\<close> is \<open>inw(...) & (1 == 0)\<close>.\<close>

partial_function (option) wait_pm1 :: "u16 \<Rightarrow> 'c ports_scheme \<Rightarrow> 'c ports_scheme option" where
  "wait_pm1 port s = (let (v, s) = inw port s in
     if v AND of_bool ((1 :: int) = 0) \<noteq> 0 then wait_pm1 port s else Some s)"

definition enable_acpi :: "mem \<Rightarrow> u64 \<Rightarrow> 'c ports_scheme \<Rightarrow> 'c ports_scheme option" where
  "enable_acpi m fadt s =
     (let s = outb (ucast (load32 m (fadt + of_nat (offset_of (FADT False) ''SMI_CommandPort''))))
                (m (fadt + of_nat (offset_of (FADT False) ''AcpiEnable''))) s
      in wait_pm1 (ucast (load32 m (fadt + of_nat (offset_of (FADT False) ''PM1aControlBlock'')))) s)"

record acpi_literals =
  lit_FACP :: u64
  lit_looking :: u64
  lit_found :: u64
  lit_enabled :: u64

definition ACPI_init :: "log_literals \<Rightarrow> acpi_literals \<Rightarrow> u64 \<Rightarrow> Logger \<Rightarrow> 'h heap_scheme \<times> 'c console_scheme \<Rightarrow>
    (u64 \<times> 'h heap_scheme \<times> 'c console_scheme) res option" where
  "ACPI_init lits al gRSDT logger = (\<lambda>(h, c).
     bind_ro (Logger_info lits logger (lit_looking al) [] (h, c)) (\<lambda>(h, c).
     bind_ro (Some (findTable (lit_FACP al) gRSDT (lit_FACP al) h)) (\<lambda>(facp, h).
     bind_ro (Logger_info lits logger (lit_found al) [VNum facp] (h, c)) (\<lambda>(h, c).
     if facp = 0 then Some (Inl (Panic ''ACPI FACP was not found!''))
     else bind_ro (map_option Inr (enable_acpi (ram h) facp c)) (\<lambda>c.
       bind_ro (Logger_info lits logger (lit_enabled al) [] (h, c)) (\<lambda>(h, c).
       Some (Inr (facp, h, c))))))))"

section \<open>The call in \_start\<close>

record boot_literals =
  lit_ACPI :: u64
  lit_Kernel :: u64
  lit_enabling :: u64
  lit_rsdp :: u64
  lit_acpi2 :: u64
  lit_rsdptr :: u64
  lit_calling :: u64

definition init_acpi :: "log_literals \<Rightarrow> acpi_literals \<Rightarrow> boot_literals \<Rightarrow> u64 \<Rightarrow> 'h heap_scheme \<times> 'c console_scheme \<Rightarrow>
    (u64 \<times> 'h heap_scheme \<times> 'c console_scheme) res option" where
  "init_acpi lits al bl rsdp = (\<lambda>(h, c).
     let acpiLogger = Logger_new (lit_ACPI bl) (lit_Kernel bl) in
     bind_ro (Logger_info lits acpiLogger (lit_enabling bl) [] (h, c)) (\<lambda>(h, c).
     bind_ro (Logger_info lits acpiLogger (lit_rsdp bl) [VNum rsdp] (h, c)) (\<lambda>(h, c).
     bind_ro (if ram h (rsdp + of_nat (offset_of RSDPDescriptor ''Revision'')) = 2
              then Logger_warn lits acpiLogger (lit_acpi2 bl) [] (h, c) else Some (Inr (h, c))) (\<lambda>(h, c).
     if memcmp (ram h) (rsdp + of_nat (offset_of RSDPDescriptor ''Signature'')) (lit_rsdptr bl) 8 \<noteq> 0
     then Some (Inl (Panic ''RSDP Signature does not match!''))
     else
       let gRSDT = ucast (load32 (ram h) (rsdp + of_nat (offset_of RSDPDescriptor ''RsdtAddress''))) in
       bind_ro (Logger_info lits acpiLogger (lit_calling bl) [] (h, c)) (\<lambda>(h, c).
       ACPI_init lits al gRSDT acpiLogger (h, c))))))"

end
