(* ===== verification/Kprintf_Props.thy ===== *)
theory Kprintf_Props
  imports Console_Props
begin

text \<open>
  A reference definition of the formats that \<open>_kprintf\<close> understands, and the proof that the loop of
  \<^verbatim>\<open>kernel/debug.cpp\<close> prints what it says: literal characters, colour escapes that stay open from one call
  to the next, and the text of every conversion.
\<close>

section \<open>Conversions\<close>

text \<open>The text of one conversion and the arguments that are left.\<close>

definition hex16 :: "u64 \<Rightarrow> u8 list" where
  "hex16 v = replicate (16 - length (uitoa_text v 16)) (of_char CHR ''0'') @ uitoa_text v 16"

definition num_arg :: "(u64 \<Rightarrow> u8 list) \<Rightarrow> varg list \<Rightarrow> (u8 list \<times> varg list) option" where
  "num_arg f vargs = (case vargs of VNum v # vs \<Rightarrow> Some (f v, vs) | _ \<Rightarrow> None)"

definition convert :: "u8 \<Rightarrow> varg list \<Rightarrow> (u8 list \<times> varg list) option" where
  "convert c vargs =
     (if c = of_char CHR ''c'' then num_arg (\<lambda>v. [ucast v]) vargs
      else if c = of_char CHR ''e'' \<or> c = of_char CHR ''E'' then Some (chars ''<formatter e/E not implemented>'', vargs)
      else if c = of_char CHR ''f'' then Some (chars ''<formatter f not implemented>'', vargs)
      else if c = of_char CHR ''o'' then num_arg (\<lambda>v. itoa_text v 8) vargs
      else if c = of_char CHR ''d'' \<or> c = of_char CHR ''i'' then num_arg (\<lambda>v. itoa_text v 10) vargs
      else if c = of_char CHR ''s'' then (case vargs of VStr str # vs \<Rightarrow> Some (str, vs) | _ \<Rightarrow> None)
      else if c = of_char CHR ''u'' then num_arg (\<lambda>v. uitoa_text v 10) vargs
      else if c = of_char CHR ''x'' \<or> c = of_char CHR ''X'' then num_arg hex16 vargs
      else Some ([], vargs))"

text \<open>
  A whole format from the escape state \<open>(esc, col)\<close>: the text that is printed and the escape state at the end. A
  conversion inside an open escape, a missing argument and a converted text with a \<open>$\<close> have no meaning.
\<close>

fun render :: "bool \<Rightarrow> bool \<Rightarrow> bool \<Rightarrow> u8 list \<Rightarrow> varg list \<Rightarrow> (u8 list \<times> bool \<times> bool) option" where
  "render esc col spec [] vargs = Some ([], esc, col)"
| "render esc col spec (c # cs) vargs =
     (if c = of_char CHR ''%'' then render esc col True cs vargs
      else if spec then
        (case convert c vargs of
           None \<Rightarrow> None
         | Some (txt, vs) \<Rightarrow> if esc \<or> of_char CHR ''$'' \<in> set txt then None
             else map_option (apfst ((@) txt)) (render False col False cs vs))
      else if c = of_char CHR ''$'' then render True col False cs vargs
      else if esc then (if col then render False False False cs vargs else render True (c = of_char CHR ''c'') False cs vargs)
      else map_option (apfst ((#) c)) (render False col False cs vargs))"

section \<open>What one call prints\<close>

definition printed :: "bool \<Rightarrow> bool \<Rightarrow> u8 list \<Rightarrow> 'z console_scheme \<Rightarrow> 'z console_scheme \<Rightarrow> bool" where
  "printed serial terminal txt s t \<longleftrightarrow> device t = device s \<and> charsPerLine t = charsPerLine s \<and> maxLines t = maxLines s \<and>
     (cursor_ok s \<longrightarrow> cursor_ok t) \<and> emits serial terminal txt s t"

lemma printed_facts:
  assumes "printed serial terminal txt s t"
  shows "device t = device s" and "cursor_ok s \<longrightarrow> cursor_ok t" and "\<exists>rest. port_out t = port_out s @ rest"
    and "serial \<and> \<not> terminal \<longrightarrow> port_out t = port_out s @ map (Pair 0x3f8) txt"
proof -
  show "device t = device s" "cursor_ok s \<longrightarrow> cursor_ok t" using assms by (simp_all add: printed_def)
  show "\<exists>rest. port_out t = port_out s @ rest" using assms by (auto simp: printed_def emits_def)
  show "serial \<and> \<not> terminal \<longrightarrow> port_out t = port_out s @ map (Pair 0x3f8) txt" using assms by (auto simp: printed_def emits_serial)
qed

lemma printed_refl: "printed serial terminal [] s s"
  by (simp add: printed_def)

lemma printed_append:
  "printed serial terminal a s t \<Longrightarrow> printed serial terminal b t u \<Longrightarrow> printed serial terminal (a @ b) s u"
  by (auto simp: printed_def intro: emits_append)

lemma write_str_printed:
  fixes s :: "'z console_scheme"
  assumes "transmits (device s)" and "\<not> currentlyReadingAnything s" and "of_char CHR ''$'' \<notin> set str"
  obtains t where "write_str serial terminal str s = Some t" and "printed serial terminal str s t" and "console_kept s t"
  using write_str_plain [OF assms, of serial terminal] by (auto simp: printed_def console_kept_def)

lemma put_char_printed:
  fixes s :: "'z console_scheme"
  assumes "transmits (device s)" and "\<not> currentlyReadingAnything s"
  obtains t where "put_char writechar c serial terminal s = Some t" and "printed serial terminal [c] s t" and "console_kept s t"
  using put_char_returns [OF assms, of c serial terminal] by (auto simp: printed_def console_kept_def)

text \<open>The conversions of the code.\<close>

lemma sint_10 [simp]: "sint (10 :: i64) = 10" and sint_8 [simp]: "sint (8 :: i64) = 8"
  by (simp_all add: sint_uint signed_take_bit_eq_take_bit_shift take_bit_eq_mod)

lemma conversion_texts:
  "buffer_text (itoa v 0 8 local_mem) = Some (itoa_text v 8)"
  "buffer_text (itoa v 0 10 local_mem) = Some (itoa_text v 10)"
  "buffer_text (uitoa v 0 10 local_mem) = Some (uitoa_text v 10)"
  "hex_text (uitoa v 0 16 local_mem) = Some (hex16 v)"
proof -
  show "buffer_text (itoa v 0 8 local_mem) = Some (itoa_text v 8)"
    using itoa_writes(1) [of 8 0 v local_mem] itoa_writes(2,3) [of 8 0 v] by (simp add: buffer_put_bytes)
  show "buffer_text (itoa v 0 10 local_mem) = Some (itoa_text v 10)"
    using itoa_writes(1) [of 10 0 v local_mem] itoa_writes(2,3) [of 10 0 v] by (simp add: buffer_put_bytes)
  show "buffer_text (uitoa v 0 10 local_mem) = Some (uitoa_text v 10)"
    using uitoa_writes(1) [of 10 0 v local_mem] uitoa_writes(2,3) [of 10 0 v] by (simp add: buffer_put_bytes)
  show "hex_text (uitoa v 0 16 local_mem) = Some (hex16 v)"
    using uitoa_writes(1) [of 16 0 v local_mem] uitoa_writes(2,3) [of 16 0 v] uitoa_text_facts(4) [of v]
    by (simp add: hex_put_bytes hex16_def)
qed

lemma write_str_Nil [simp]: "write_str serial terminal [] s = Some s"
  by (subst write_str.simps) simp

lemma format_spec_eq:
  assumes "c \<noteq> of_char CHR ''%''" and "c \<noteq> of_char CHR ''c''"
  shows "format_spec c serial terminal vargs s = (case convert c vargs of
      None \<Rightarrow> Some (Inl (Undefined ''va_arg''))
    | Some (txt, vs) \<Rightarrow> map_option (\<lambda>s. Inr (vs, s)) (write_str serial terminal txt s))"
proof -
  have num: "take_num vargs f (\<lambda>vs str. map_option (\<lambda>s. Inr (vs, s)) (write_str serial terminal str s)) =
      (case num_arg g vargs of None \<Rightarrow> Some (Inl (Undefined ''va_arg''))
       | Some (txt, vs) \<Rightarrow> map_option (\<lambda>s. Inr (vs, s)) (write_str serial terminal txt s))" if "\<And>v. f v = Some (g v)" for f g
    using that by (simp add: take_num_def num_arg_def split: list.split varg.split)
  note nums = num [of "\<lambda>v. buffer_text (itoa v 0 8 local_mem)" "\<lambda>v. itoa_text v 8", OF conversion_texts(1)]
    num [of "\<lambda>v. buffer_text (itoa v 0 10 local_mem)" "\<lambda>v. itoa_text v 10", OF conversion_texts(2)]
    num [of "\<lambda>v. buffer_text (uitoa v 0 10 local_mem)" "\<lambda>v. uitoa_text v 10", OF conversion_texts(3)]
    num [of "\<lambda>v. hex_text (uitoa v 0 16 local_mem)" hex16, OF conversion_texts(4)]
  have s: "(case vargs of VStr str # vs \<Rightarrow> map_option (\<lambda>s. Inr (vs, s)) (write_str serial terminal str s)
       | _ \<Rightarrow> Some (Inl (Undefined ''va_arg''))) =
      (case (case vargs of VStr str # vs \<Rightarrow> Some (str, vs) | _ \<Rightarrow> None) of None \<Rightarrow> Some (Inl (Undefined ''va_arg''))
       | Some (txt, vs) \<Rightarrow> map_option (\<lambda>s. Inr (vs, s)) (write_str serial terminal txt s))"
    by (simp split: list.split varg.split)
  have push: "(case (if P then x else y) of None \<Rightarrow> a | Some p \<Rightarrow> f p) =
      (if P then (case x of None \<Rightarrow> a | Some p \<Rightarrow> f p) else (case y of None \<Rightarrow> a | Some p \<Rightarrow> f p))"
    for P and x y :: "'p option" and a f by simp
  show ?thesis
    using assms unfolding format_spec_def convert_def Let_def nums s push
    by (simp only: if_False option.case prod.case write_str_Nil option.map(2) simp_thms)
qed

lemma format_spec_converts:
  fixes s :: "'z console_scheme"
  assumes s: "transmits (device s)" "\<not> currentlyReadingAnything s" and c: "c \<noteq> of_char CHR ''%''"
    and conv: "convert c vargs = Some (txt, vs)" "of_char CHR ''$'' \<notin> set txt"
  obtains t where "format_spec c serial terminal vargs s = Some (Inr (vs, t))" and "printed serial terminal txt s t"
    and "console_kept s t"
proof (cases "c = of_char CHR ''c''")
  case True
  then obtain v where v: "vargs = VNum v # vs" "txt = [ucast v]"
    using conv(1) by (auto simp: convert_def num_arg_def split: list.splits varg.splits)
  obtain t where t: "put_char writechar (ucast v) serial terminal s = Some t" "printed serial terminal [ucast v] s t" "console_kept s t"
    by (rule put_char_printed [OF s])
  have "writeChar (ucast v) serial terminal s = Some t"
    using t(1) s(2) conv(2) by (auto simp: writeChar_def writeChar_via_def v(2))
  with t(2,3) show thesis by (intro that [of t]) (simp_all add: True v format_spec_def take_num_def)
next
  case False
  obtain t where t: "write_str serial terminal txt s = Some t" "printed serial terminal txt s t" "console_kept s t"
    by (rule write_str_printed [OF s conv(2)])
  have "format_spec c serial terminal vargs s = Some (Inr (vs, t))"
    unfolding format_spec_eq [OF c False] conv(1) option.case prod.case t(1) by simp
  then show thesis by (rule that [OF _ t(2,3)])
qed

section \<open>The loop\<close>

lemma writeChar_literal:
  fixes s :: "'z console_scheme"
  assumes "transmits (device s)"
  defines "esc \<equiv> currentlyReadingAnything s" and "col \<equiv> currentlyReadingColor s"
  shows "c = of_char CHR ''$'' \<Longrightarrow> \<exists>t. writeChar c serial terminal s = Some t \<and> printed serial terminal [] s t \<and>
      currentlyReadingAnything t \<and> currentlyReadingColor t = col"
    and "c \<noteq> of_char CHR ''$'' \<Longrightarrow> esc \<Longrightarrow> \<exists>t. writeChar c serial terminal s = Some t \<and> printed serial terminal [] s t \<and>
      (currentlyReadingAnything t \<longleftrightarrow> \<not> col) \<and> (currentlyReadingColor t \<longleftrightarrow> \<not> col \<and> c = of_char CHR ''c'')"
    and "c \<noteq> of_char CHR ''$'' \<Longrightarrow> \<not> esc \<Longrightarrow> \<exists>t. writeChar c serial terminal s = Some t \<and> printed serial terminal [c] s t \<and>
      \<not> currentlyReadingAnything t \<and> currentlyReadingColor t = col"
proof -
  have color: "port_out (set_color c s) = port_out s" "cursor_ok (set_color c s) = cursor_ok s" "charX (set_color c s) = charX s"
      "charY (set_color c s) = charY s" "charsPerLine (set_color c s) = charsPerLine s" "maxLines (set_color c s) = maxLines s"
    by (simp_all add: set_color_def cursor_ok_def)
  have flags: "cursor_ok (u\<lparr>currentlyReadingAnything := a\<rparr>) = cursor_ok u" "cursor_ok (u\<lparr>currentlyReadingColor := a\<rparr>) = cursor_ok u"
    for u :: "'z console_scheme" and a by (simp_all add: cursor_ok_def)
  show "\<exists>t. writeChar c serial terminal s = Some t \<and> printed serial terminal [] s t \<and>
      currentlyReadingAnything t \<and> currentlyReadingColor t = col" if "c = of_char CHR ''$''"
    using that by (simp add: writeChar_def writeChar_via_def printed_def flags col_def)
  show "\<exists>t. writeChar c serial terminal s = Some t \<and> printed serial terminal [] s t \<and>
      (currentlyReadingAnything t \<longleftrightarrow> \<not> col) \<and> (currentlyReadingColor t \<longleftrightarrow> \<not> col \<and> c = of_char CHR ''c'')"
    if "c \<noteq> of_char CHR ''$''" "esc"
    using that color by (cases "col"; cases "c = of_char CHR ''c''")
      (simp_all add: writeChar_def writeChar_via_def printed_def flags esc_def col_def)
  show "\<exists>t. writeChar c serial terminal s = Some t \<and> printed serial terminal [c] s t \<and>
      \<not> currentlyReadingAnything t \<and> currentlyReadingColor t = col" if c: "c \<noteq> of_char CHR ''$''" "\<not> esc"
  proof -
    obtain t where "put_char writechar c serial terminal s = Some t" "printed serial terminal [c] s t" "console_kept s t"
      using put_char_printed [OF assms(1)] c(2) unfolding esc_def by metis
    with c show ?thesis by (auto simp: writeChar_def writeChar_via_def console_kept_def esc_def col_def)
  qed
qed

lemma kprintf_loop_renders:
  fixes s :: "'z console_scheme"
  assumes "transmits (device s)"
    and "render (currentlyReadingAnything s) (currentlyReadingColor s) spec fmt vargs = Some (txt, esc', col')"
  obtains t where "kprintf_loop serial terminal spec fmt vargs s = Some (Inr t)" and "printed serial terminal txt s t"
    and "currentlyReadingAnything t = esc'" and "currentlyReadingColor t = col'"
proof -
  have "\<exists>t. kprintf_loop serial terminal spec fmt vargs s = Some (Inr t) \<and> printed serial terminal txt s t \<and>
      currentlyReadingAnything t = esc' \<and> currentlyReadingColor t = col'"
    using assms
  proof (induction fmt arbitrary: spec vargs s "txt")
    case Nil
    then show ?case by (simp add: printed_refl)
  next
    case (Cons c cs)
    let ?esc = "currentlyReadingAnything s" and ?col = "currentlyReadingColor s"
    show ?case
    proof (cases "c = of_char CHR ''%''")
      case True
      then show ?thesis using Cons.IH [of s True vargs "txt"] Cons.prems by simp
    next
      case np: False
      show ?thesis
      proof (cases spec)
        case True
        obtain a vs b where conv: "convert c vargs = Some (a, vs)" "\<not> ?esc" "of_char CHR ''$'' \<notin> set a"
          and b: "render False ?col False cs vs = Some (b, esc', col')" "txt = a @ b"
          using Cons.prems(2) np True by (auto split: option.splits if_splits)
        obtain u where u: "format_spec c serial terminal vargs s = Some (Inr (vs, u))" "printed serial terminal a s u" "console_kept s u"
          by (rule format_spec_converts [OF Cons.prems(1) conv(2) np conv(1,3)])
        have "\<exists>t. kprintf_loop serial terminal False cs vs u = Some (Inr t) \<and> printed serial terminal b u t \<and>
          currentlyReadingAnything t = esc' \<and> currentlyReadingColor t = col'"
          using Cons.IH [of u False vs b] u(3) conv(2) b(1) Cons.prems(1) by (simp add: console_kept_def)
        then show ?thesis using u(1,2) np True b(2) printed_append by fastforce
      next
        case False
        have step: "kprintf_loop serial terminal spec (c # cs) vargs s =
            Option.bind (writeChar c serial terminal s) (kprintf_loop serial terminal False cs vargs)"
          using np False by simp
        have go: ?thesis if u: "writeChar c serial terminal s = Some u" "printed serial terminal a s u" "txt = a @ b"
            and r: "render (currentlyReadingAnything u) (currentlyReadingColor u) False cs vargs = Some (b, esc', col')" for u a b
        proof -
          have "transmits (device u)" using u(2) Cons.prems(1) by (simp add: printed_def)
          then obtain t where "kprintf_loop serial terminal False cs vargs u = Some (Inr t)" "printed serial terminal b u t"
            "currentlyReadingAnything t = esc'" "currentlyReadingColor t = col'" using Cons.IH [OF _ r] by blast
          then show ?thesis unfolding step u(1,3) using printed_append [OF u(2)] by auto
        qed
        note lit = writeChar_literal [OF Cons.prems(1), of c serial terminal]
        show ?thesis
        proof (cases "c = of_char CHR ''$''")
          case True
          then obtain u where "writeChar c serial terminal s = Some u" "printed serial terminal [] s u"
            "currentlyReadingAnything u" "currentlyReadingColor u = ?col" using lit(1) by blast
          then show ?thesis using Cons.prems(2) np False True by (intro go [of u "[]" "txt"]) auto
        next
          case nd: False
          show ?thesis
          proof (cases ?esc)
            case True
            then obtain u where "writeChar c serial terminal s = Some u" "printed serial terminal [] s u"
              "currentlyReadingAnything u \<longleftrightarrow> \<not> ?col" "currentlyReadingColor u \<longleftrightarrow> \<not> ?col \<and> c = of_char CHR ''c''"
              using lit(2) nd by blast
            then show ?thesis using Cons.prems(2) np False nd True by (intro go [of u "[]" "txt"]) (auto split: if_splits)
          next
            case esc: False
            obtain b where b: "render False ?col False cs vargs = Some (b, esc', col')" "txt = c # b"
              using Cons.prems(2) np False nd esc by auto
            obtain u where "writeChar c serial terminal s = Some u" "printed serial terminal [c] s u"
              "\<not> currentlyReadingAnything u" "currentlyReadingColor u = ?col" using lit(3) nd esc by blast
            then show ?thesis using b by (intro go [of u "[c]" b]) auto
          qed
        qed
      qed
    qed
  qed
  then show thesis using that by blast
qed

section \<open>Properties\<close>

text \<open>C30: \<open>kprintf_serial\<close> prints what the reference definition of formats says: for every format, every list of
  arguments that fits it and every escape state, the call returns and the serial port has received exactly the
  rendered text, in order; an escape sequence that the format leaves open stays open.\<close>

theorem kprintf_serial_renders:
  fixes s :: "'z console_scheme"
  assumes "transmits (device s)"
    and "render (currentlyReadingAnything s) (currentlyReadingColor s) False fmt vargs = Some (txt, esc, col)"
  shows "\<exists>t. kprintf_serial fmt vargs s = Some (Inr t) \<and> port_out t = port_out s @ map (Pair 0x3f8) txt \<and>
    currentlyReadingAnything t = esc \<and> currentlyReadingColor t = col"
proof -
  obtain t where "kprintf_loop True False False fmt vargs s = Some (Inr t)" "printed True False txt s t"
    "currentlyReadingAnything t = esc" "currentlyReadingColor t = col"
    using kprintf_loop_renders [OF assms] by metis
  then show ?thesis using printed_facts(4) [of True False "txt" s t] by (auto simp: kprintf_serial_def)
qed

theorem kprintf_serial_renders_witness:
  "\<exists>t. kprintf_serial (chars ''$cRpage %u: %s'') [VNum 42, VStr (chars ''ok'')] console_example = Some (Inr t) \<and>
     port_out t = map (Pair 0x3f8) (chars ''page 42: ok'')"
proof -
  have "uitoa_text 42 10 = chars ''42''"
    by (simp add: uitoa_text_def chars_def digits_of.simps digit_char_def digit_table_def)
  then have "render False False False (chars ''$cRpage %u: %s'') [VNum 42, VStr (chars ''ok'')] =
      Some (chars ''page 42: ok'', False, False)"
    by (simp add: chars_def convert_def num_arg_def)
  with kprintf_serial_renders [of console_example "chars ''$cRpage %u: %s''" "[VNum 42, VStr (chars ''ok'')]"]
  show ?thesis by auto
qed

end
