(* ===== verification/Acpi_Props.thy ===== *)
theory Acpi_Props
  imports Acpi Heap_Stable Kprintf_Props
begin

text \<open>The search finds the first table with the signature and leaves its page mapped to itself.\<close>

section \<open>Checksum\<close>

lemma fold_sum: "fold (\<lambda>i sum. sum + f i) is (a :: u8) = a + (\<Sum>i\<leftarrow>is. f i)"
  by (induction "is" arbitrary: a) (simp_all add: add.assoc)

lemma doChecksum_sum:
  "doChecksum m h = (if 2 ^ 31 \<le> unat (table_Length m h) then Inl (Undefined ''signed overflow'')
     else Inr (sum_list (bytes_at m h (unat (table_Length m h))) = 0))"
  by (simp add: doChecksum_def fold_sum bytes_at_def)

section \<open>Signatures\<close>

lemma strncmp_fixed:
  assumes "bytes_at m b (length cs) = cs" and "0 \<notin> set cs" and "unat n = length cs"
  shows "strncmp m a b n = 0 \<longleftrightarrow> bytes_at m a (length cs) = cs"
  using assms
proof (induction cs arbitrary: a b n)
  case Nil
  then show ?case by (subst strncmp.simps) (simp add: bytes_at_def unat_eq_0)
next
  case (Cons c cs)
  then have n: "n \<noteq> 0" "unat (n - 1) = length cs" and b: "m b = c" "bytes_at m (b + 1) (length cs) = cs" and c: "c \<noteq> 0"
    using unat_sub_le [of 1 n] by (auto simp: bytes_at_Suc word_le_nat_alt)
  then have "strncmp m (a + 1) (b + 1) (n - 1) = 0 \<longleftrightarrow> bytes_at m (a + 1) (length cs) = cs"
    using Cons.prems by (intro Cons.IH) auto
  with n b c show ?case by (subst strncmp.simps) (auto simp: bytes_at_Suc unsigned_eq_0_iff dest: unsigned_word_eqI)
qed

section \<open>Searching\<close>

definition tables_of :: "mem \<Rightarrow> u64 \<Rightarrow> u64 list" where
  "tables_of m rsdt = map (other_SDT m rsdt) [0..<(unat (table_Length m rsdt) - 36) div 4]"

text \<open>A length below the size of the header gives a negative number of entries.\<close>

lemma sint_i32: "sint (x :: i32) = (if uint x < 2 ^ 31 then uint x else uint x - 2 ^ 32)"
proof -
  have u: "0 \<le> uint x" "uint x < 2 ^ 32" using unsigned_less [of x] by simp_all
  have s: "sint x = (uint x + 2 ^ 31) mod 2 ^ 32 - 2 ^ 31"
    by (simp add: sint_uint signed_take_bit_eq_take_bit_shift take_bit_eq_mod)
  show ?thesis
  proof (cases "uint x < 2 ^ 31")
    case True
    with u s show ?thesis by (simp add: mod_pos_pos_trivial)
  next
    case False
    have "uint x + 2 ^ 31 = (uint x - 2 ^ 31) + 2 ^ 32" by simp
    then have "(uint x + 2 ^ 31) mod 2 ^ 32 = (uint x - 2 ^ 31) mod 2 ^ 32" by (simp only: mod_add_self2)
    also have "\<dots> = uint x - 2 ^ 31" using False u by (intro mod_pos_pos_trivial) simp_all
    finally show ?thesis using False s by simp
  qed
qed

lemma table_entries_eq: "nat (table_entries m rsdt) = (unat (table_Length m rsdt) - 36) div 4"
proof -
  define l where "l = table_Length m rsdt"
  define q where "q = (ucast l - 36 :: u64) div 4"
  have u32: "unat l < 2 ^ 32" using unsigned_less [of l, where ?'a = nat] by simp
  then have l: "unat (ucast l :: u64) = unat l" by (simp add: unsigned_ucast_eq take_bit_nat_eq_self)
  have e: "table_entries m rsdt = sint (ucast q :: i32)" by (simp add: table_entries_def l_def q_def struct_sizes)
  have uq: "uint (ucast q :: i32) = int (unat q mod 2 ^ 32)"
    by (simp add: unsigned_ucast_eq take_bit_eq_mod zmod_int)
  show ?thesis
  proof (cases "36 \<le> unat l")
    case True
    then have "unat q = (unat l - 36) div 4"
      unfolding q_def unat_div_distrib using l by (subst unat_sub_le) (simp_all add: word_le_nat_alt)
    moreover from this u32 have "unat q < 2 ^ 31" by simp
    ultimately show ?thesis using e uq by (simp add: sint_i32 l_def)
  next
    case False
    have "unat (ucast l - 36 :: u64) = 2 ^ 64 - (36 - unat l)"
      using False l by (simp add: unat_sub_if')
    then have "unat q = (2 ^ 64 - (36 - unat l)) div 4" unfolding q_def unat_div_distrib by simp
    then have "2 ^ 62 - 9 \<le> unat q" "unat q < 2 ^ 62" using False by (simp_all add: div_le_mono)
    then obtain r where r: "unat q = r + (2 ^ 30 - 1) * 2 ^ 32" "2 ^ 31 \<le> r" "r < 2 ^ 32"
      by (intro that [of "unat q - (2 ^ 30 - 1) * 2 ^ 32"]) simp_all
    have "unat q mod 2 ^ 32 = r" unfolding r(1) using r(3) by (simp only: mod_mult_self1 mod_less)
    with r(2) have "2 ^ 31 \<le> unat q mod 2 ^ 32" by simp
    then show ?thesis using e uq False by (simp add: sint_i32 l_def)
  qed
qed

section \<open>Mapping keeps what is read\<close>

definition kept_outside :: "u64 \<Rightarrow> 'z heap_scheme \<Rightarrow> 'z heap_scheme \<Rightarrow> bool" where
  "kept_outside P s t \<longleftrightarrow> paging_inv P t \<and> globalPageTable t = P \<and> pfa.more t = pfa.more s \<and>
     (\<forall>x. \<not> paging_area P s x \<longrightarrow> ram t x = ram s x \<and> \<not> paging_area P t x)"

lemma kept_outside_trans: "kept_outside P s t \<Longrightarrow> kept_outside P t u \<Longrightarrow> kept_outside P s u"
  by (simp add: kept_outside_def)

lemma MapMemory_outside:
  fixes s :: "'z heap_scheme"
  assumes "paging_inv P s" and "globalPageTable s = P" and "PageTable_MapMemory P a p False s = Inr t"
  shows "kept_outside P s t"
proof -
  note m = MapMemory_translate(1,4,5) [OF assms(1,3)]
  have "globalPageTable t = P" using heap_more(1) [OF m(2)] assms(2) by simp
  with m show ?thesis unfolding kept_outside_def area_kept_def by blast
qed

text \<open>What the search reads is not used by paging: the literal and, for each entry, its slot and the signature.\<close>

definition clear :: "u64 \<Rightarrow> 'z heap_scheme \<Rightarrow> u64 \<Rightarrow> nat \<Rightarrow> bool" where
  "clear P s a n \<longleftrightarrow> (\<forall>x. in_region a n x \<longrightarrow> \<not> paging_area P s x)"

definition entry_readable :: "u64 \<Rightarrow> u64 \<Rightarrow> 'z heap_scheme \<Rightarrow> nat \<Rightarrow> bool" where
  "entry_readable P rsdt s i \<longleftrightarrow> clear P s (rsdt + of_nat (36 + 4 * i)) 4 \<and> clear P s (other_SDT (ram s) rsdt i) 4"

lemma clear_kept:
  assumes "kept_outside P s t" and "clear P s a n"
  shows "clear P t a n" and "n \<le> 2 ^ 64 \<Longrightarrow> bytes_at (ram t) a n = bytes_at (ram s) a n"
    and "n = 4 \<Longrightarrow> load32 (ram t) a = load32 (ram s) a"
proof -
  have k: "ram t x = ram s x" "\<not> paging_area P t x" if "in_region a n x" for x
    using assms that by (auto simp: kept_outside_def clear_def)
  show "clear P t a n" using k(2) by (simp add: clear_def)
  show "bytes_at (ram t) a n = bytes_at (ram s) a n" if "n \<le> 2 ^ 64"
    unfolding bytes_at_def using k(1) in_region_offset [OF _ that] by (intro map_cong) auto
  show "load32 (ram t) a = load32 (ram s) a" if "n = 4" using k(1) that by (intro c32.load_cong) simp
qed

lemma entry_kept:
  assumes "kept_outside P s t" and "entry_readable P rsdt s i"
  shows "other_SDT (ram t) rsdt i = other_SDT (ram s) rsdt i" and "entry_readable P rsdt t i"
    and "bytes_at (ram t) (other_SDT (ram s) rsdt i) 4 = bytes_at (ram s) (other_SDT (ram s) rsdt i) 4"
proof -
  show e: "other_SDT (ram t) rsdt i = other_SDT (ram s) rsdt i"
    using clear_kept(3) [OF assms(1), of "rsdt + of_nat (36 + 4 * i)"] assms(2)
    by (simp add: other_SDT_def table_offsets entry_readable_def)
  show "entry_readable P rsdt t i" using clear_kept(1) [OF assms(1)] assms(2) by (simp add: entry_readable_def e)
  show "bytes_at (ram t) (other_SDT (ram s) rsdt i) 4 = bytes_at (ram s) (other_SDT (ram s) rsdt i) 4"
    using clear_kept(2) [OF assms(1)] assms(2) by (simp add: entry_readable_def)
qed

definition first_FACP :: "mem \<Rightarrow> u64 list \<Rightarrow> u64 option" where
  "first_FACP m ps = find (\<lambda>p. bytes_at m p 4 = chars ''FACP'') ps"

lemma first_FACP_kept:
  assumes "kept_outside P s t" and "\<forall>i\<in>set is. entry_readable P rsdt s i"
  shows "first_FACP (ram t) (map (other_SDT (ram t) rsdt) is) = first_FACP (ram s) (map (other_SDT (ram s) rsdt) is)"
  unfolding first_FACP_def using assms(2) entry_kept(1,3) [OF assms(1)] by (induction "is") auto

lemma find_loop_first:
  fixes s :: "'z heap_scheme"
  assumes "paging_inv P s" and "globalPageTable s = P" and "clear P s lit 4" and "bytes_at (ram s) lit 4 = chars ''FACP''"
    and "\<forall>i\<in>set is. entry_readable P rsdt s i"
  shows "case find_loop lit rsdt is s of
      Inl e \<Rightarrow> e = Panic ''Out of memory''
    | Inr (r, t) \<Rightarrow> kept_outside P s t \<and> (case first_FACP (ram s) (map (other_SDT (ram s) rsdt) is) of
        None \<Rightarrow> r = 0 | Some p \<Rightarrow> r = p \<and> translate (ram t) P p = Some (frame_bits p))"
  using assms
proof (induction "is" arbitrary: s)
  case Nil
  then show ?case by (simp add: first_FACP_def kept_outside_def)
next
  case (Cons i "is")
  let ?p = "other_SDT (ram s) rsdt i"
  show ?case
  proof (cases "PageTable_MapMemory P ?p ?p False s")
    case (Inl e)
    then show ?thesis using MapMemory_cases [OF Cons.prems(1), of ?p ?p False] Cons.prems(2) by simp
  next
    case (Inr t)
    have k: "kept_outside P s t" by (rule MapMemory_outside [OF Cons.prems(1,2) Inr])
    have tr: "translate (ram t) P ?p = Some (frame_bits ?p)" using MapMemory_translate(2) [OF Cons.prems(1) Inr] by simp
    have lit: "clear P t lit 4" "bytes_at (ram t) lit 4 = chars ''FACP''"
      using clear_kept(1,2) [OF k Cons.prems(3)] Cons.prems(4) by simp_all
    have e: "other_SDT (ram t) rsdt j = other_SDT (ram s) rsdt j" "entry_readable P rsdt t j"
      "bytes_at (ram t) (other_SDT (ram s) rsdt j) 4 = bytes_at (ram s) (other_SDT (ram s) rsdt j) 4" if "j \<in> set (i # is)" for j
      using entry_kept [OF k] Cons.prems(5) that by blast+
    have n: "length (chars ''FACP'') = 4" "0 \<notin> set (chars ''FACP'')" by (simp_all add: chars_def)
    have cmp: "strncmp (ram t) ?p lit 4 = 0 \<longleftrightarrow> bytes_at (ram s) ?p 4 = chars ''FACP''"
      using strncmp_fixed [of "ram t" lit "chars ''FACP''" 4 ?p] lit(2) n e(3) [of i] by simp
    have step: "find_loop lit rsdt (i # is) s =
        (if bytes_at (ram s) ?p 4 = chars ''FACP'' then Inr (?p, t) else find_loop lit rsdt is t)"
      using Inr Cons.prems(2) e(1) [of i] cmp by (simp add: table_offsets)
    have same: "first_FACP (ram t) (map (other_SDT (ram t) rsdt) is) = first_FACP (ram s) (map (other_SDT (ram s) rsdt) is)"
      using Cons.prems(5) by (intro first_FACP_kept [OF k]) simp
    show ?thesis
    proof (cases "bytes_at (ram s) ?p 4 = chars ''FACP''")
      case True
      then show ?thesis using step k tr by (simp add: first_FACP_def)
    next
      case False
      have "paging_inv P t" "globalPageTable t = P" using k by (simp_all add: kept_outside_def)
      from Cons.IH [OF this lit] e(2)
      show ?thesis using step False same kept_outside_trans [OF k]
        by (auto simp: first_FACP_def split: sum.splits option.splits)
    qed
  qed
qed

lemma findTable_effect:
  fixes s :: "'z heap_scheme"
  assumes "paging_inv P s" and "globalPageTable s = P" and "clear P s lit 4" and "bytes_at (ram s) lit 4 = chars ''FACP''"
    and "clear P s (rsdt + 4) 4" and "\<forall>i<(unat (table_Length (ram s) rsdt) - 36) div 4. entry_readable P rsdt s i"
  shows "case findTable lit rsdt sig s of
      Inl e \<Rightarrow> e = Panic ''Out of memory''
    | Inr (r, t) \<Rightarrow> kept_outside P s t \<and> (case first_FACP (ram s) (tables_of (ram s) rsdt) of
        None \<Rightarrow> r = 0 | Some p \<Rightarrow> r = p \<and> translate (ram t) P p = Some (frame_bits p))"
proof (cases "PageTable_MapMemory P rsdt rsdt False s")
  case (Inl e)
  then show ?thesis using MapMemory_cases [OF assms(1), of rsdt rsdt False] assms(2) by (simp add: findTable_def)
next
  case (Inr t)
  have k: "kept_outside P s t" by (rule MapMemory_outside [OF assms(1,2) Inr])
  let ?n = "(unat (table_Length (ram s) rsdt) - 36) div 4"
  have len: "table_Length (ram t) rsdt = table_Length (ram s) rsdt"
    using clear_kept(3) [OF k assms(5)] by (simp add: table_Length_def table_offsets)
  have ft: "findTable lit rsdt sig s = find_loop lit rsdt [0..<?n] t"
    using Inr assms(2) len by (simp add: findTable_def table_entries_eq)
  have e: "\<forall>i\<in>set [0..<?n]. entry_readable P rsdt t i" using entry_kept(2) [OF k] assms(6) by simp
  have same: "first_FACP (ram t) (map (other_SDT (ram t) rsdt) [0..<?n]) = first_FACP (ram s) (tables_of (ram s) rsdt)"
    unfolding tables_of_def using assms(6) by (intro first_FACP_kept [OF k]) simp
  have t: "paging_inv P t" "globalPageTable t = P" "clear P t lit 4" "bytes_at (ram t) lit 4 = chars ''FACP''"
    using k clear_kept(1,2) [OF k assms(3)] assms(4) by (simp_all add: kept_outside_def)
  from find_loop_first [OF t e]
  show ?thesis unfolding ft same using kept_outside_trans [OF k] by (auto split: sum.splits option.splits)
qed

section \<open>Properties\<close>

text \<open>C34: \<open>findTable\<close> always returns: it halts for lack of page frames, or returns the first table of the list with the
  signature \<open>FACP\<close>, whose page is then mapped to itself, or 0 when there is none, whatever signature was
  asked for; a root table that is shorter than its header has no entries. Mapping the tables keeps the paging
  invariant and every byte that is not used by paging.\<close>

theorem findTable_first:
  fixes s :: "'z heap_scheme"
  assumes "paging_inv P s" and "globalPageTable s = P" and "clear P s lit 4" and "bytes_at (ram s) lit 4 = chars ''FACP''"
    and "clear P s (rsdt + 4) 4" and "\<forall>i<(unat (table_Length (ram s) rsdt) - 36) div 4. entry_readable P rsdt s i"
  shows "case findTable lit rsdt sig s of
      Inl e \<Rightarrow> e = Panic ''Out of memory''
    | Inr (r, t) \<Rightarrow> kept_outside P s t \<and> (case first_FACP (ram s) (tables_of (ram s) rsdt) of
        None \<Rightarrow> r = 0 | Some p \<Rightarrow> r = p \<and> translate (ram t) P p = Some (frame_bits p))"
  by (rule findTable_effect [OF assms])

theorem findTable_first_witness:
  "\<exists>s :: heap. case findTable 0x900200 0x900000 0 s of Inl e \<Rightarrow> e = Panic ''Out of memory'' | Inr (r, t) \<Rightarrow> r = 0x900100"
proof -
  let ?b = "put_bytes (put_bytes (ram heap_example) 0x900100 (chars ''FACP'')) 0x900200 (chars ''FACP'')"
  define m where "m = store32 (store32 ?b 0x900004 40) 0x900024 0x900100"
  define s where "s = heap_example\<lparr>ram := m\<rparr>"
  have n: "length (chars ''FACP'') = 4" by (simp add: chars_def)
  have range: "in_region 0x900100 4 x \<or> in_region 0x900200 4 x \<or> in_region 0x900004 4 x \<or> in_region 0x900024 4 x \<Longrightarrow>
      0x900000 \<le> unat x \<and> unat x < 0x901000" for x by (auto simp: in_region_no_wrap)
  have out: "m x = ram heap_example x" if "\<not> (0x900000 \<le> unat x \<and> unat x < 0x901000)" for x
  proof -
    have "\<not> in_region 0x900100 4 x" "\<not> in_region 0x900200 4 x" "\<not> in_region 0x900004 4 x" "\<not> in_region 0x900024 4 x"
      using that range [of x] by blast+
    then show ?thesis using put_bytes_frame [of "chars ''FACP''" 0 4] n by (simp add: m_def c32.store_frame)
  qed
  have agree: "m x = ram heap_example x" if "paging_area 0x1000 heap_example x" for x
    using heap_example_area [OF that] by (intro out) auto
  note w = outside_write [OF heap_example_inv agree, folded s_def]
  have cl: "clear 0x1000 s a k" if "0x900000 \<le> unat a" "unat a + k \<le> 0x901000" for a k
    using that heap_example_area by (fastforce simp: clear_def w(2) in_region_no_wrap)
  have dis: "region_disjoint 0x900024 4 0x900004 4" by (simp add: region_disjoint_no_wrap)
  have len: "table_Length (ram s) 0x900000 = 40"
    using dis by (simp add: table_Length_def table_offsets s_def m_def c32.load_store c32.load_store_other)
  have sdt: "other_SDT (ram s) 0x900000 0 = 0x900100"
    by (simp add: other_SDT_def table_offsets s_def m_def c32.load_store)
  have keep: "bytes_at m a 4 = bytes_at ?b a 4" if "0x900028 \<le> unat a" "unat a + 4 \<le> 0x901000" for a
  proof -
    have "m x = ?b x" if "in_region a 4 x" for x
      using that \<open>0x900028 \<le> unat a\<close> \<open>unat a + 4 \<le> 0x901000\<close> by (simp add: m_def c32.store_frame in_region_no_wrap)
    then show ?thesis unfolding bytes_at_def using in_region_offset [of _ 4 a] by (intro map_cong) auto
  qed
  have four: "bytes_at m a 4 = [m a, m (a + 1), m (a + 2), m (a + 3)]" for m a
    by (simp add: bytes_at_def numeral_eq_Suc)
  have facp: "bytes_at (ram s) 0x900100 4 = chars ''FACP''" "bytes_at (ram s) 0x900200 4 = chars ''FACP''"
    by (simp_all add: s_def keep) (simp_all add: four chars_def)
  have tab: "tables_of (ram s) 0x900000 = [0x900100]" by (simp add: tables_of_def len sdt)
  have "entry_readable 0x1000 0x900000 s i" if "i < (unat (table_Length (ram s) 0x900000) - 36) div 4" for i
    using that cl by (simp add: len entry_readable_def sdt)
  moreover have "globalPageTable s = 0x1000" by (simp add: s_def heap_example_pfa)
  moreover have "first_FACP (ram s) (tables_of (ram s) 0x900000) = Some 0x900100" by (simp add: tab first_FACP_def facp)
  ultimately have "case findTable 0x900200 0x900000 0 s of Inl e \<Rightarrow> e = Panic ''Out of memory'' | Inr (r, t) \<Rightarrow> r = 0x900100"
    using findTable_first [of "0x1000" s "0x900200" "0x900000" 0] w(1) facp cl by (auto split: sum.splits)
  then show ?thesis ..
qed

lemma wait_pm1_once: "wait_pm1 port s = Some (s\<lparr>reads := Suc (reads s)\<rparr>)"
  by (subst wait_pm1.simps) (simp add: inw_def)

lemma enable_acpi_effect:
  "enable_acpi m fadt s = Some (s\<lparr>port_out := port_out s @ [(ucast (load32 m (fadt + 48)), m (fadt + 52))], reads := Suc (reads s)\<rparr>)"
proof -
  have "offset_of (FADT False) ''SMI_CommandPort'' = 48" "offset_of (FADT False) ''AcpiEnable'' = 52"
    using FADT_read_offsets by simp_all
  then show ?thesis by (simp add: enable_acpi_def wait_pm1_once outb_def)
qed

end
