(* ===== verification/Panic.thy ===== *)
theory Panic
  imports Console
begin

text \<open>
  \<^verbatim>\<open>kernel/panic.cpp\<close>: the report that \<open>panic\<close> prints before it spins, and the stack traces in it. The stack is
  part of the byte memory; the frame pointers that \<open>__builtin_frame_address(0)\<close> yields are arguments. The result
  of \<open>panic\<close> is the state in which its endless loop starts, so \<open>None\<close> means that the report is never finished.
\<close>

section \<open>Stack frames\<close>

record stackframe =
  sf_rbp :: u64
  sf_rip :: u64

definition load_frame :: "mem \<Rightarrow> u64 \<Rightarrow> stackframe" where
  "load_frame m stk = \<lparr>sf_rbp = load64 m stk, sf_rip = load64 m (stk + 8)\<rparr>"

text \<open>The loop of both traces, with the function that prints; \<open>n\<close> is \<open>MaxFrames - frame\<close>.\<close>

primrec trace_frames :: "(u8 list \<Rightarrow> varg list \<Rightarrow> 'z console_scheme \<Rightarrow> 'z console_scheme res option) \<Rightarrow> mem \<Rightarrow>
    nat \<Rightarrow> u64 \<Rightarrow> 'z console_scheme \<Rightarrow> 'z console_scheme res option" where
  "trace_frames out m 0 stk s = Some (Inr s)"
| "trace_frames out m (Suc n) stk s =
     (if stk = 0 then Some (Inr s)
      else bind_ro (out (chars ''  0x%x     \<newline>'') [VNum (sf_rip (load_frame m stk))] s)
             (trace_frames out m n (sf_rbp (load_frame m stk))))"

definition traceStackTrace :: "mem \<Rightarrow> u64 \<Rightarrow> u32 \<Rightarrow> 'z console_scheme \<Rightarrow> 'z console_scheme res option" where
  "traceStackTrace m stk MaxFrames s =
     bind_ro (kprintf (chars ''Stack trace:\<newline>'') [] s) (trace_frames kprintf m (unat MaxFrames) stk)"

definition traceStackTraceOnlySerial :: "mem \<Rightarrow> u64 \<Rightarrow> u32 \<Rightarrow> 'z console_scheme \<Rightarrow> 'z console_scheme res option" where
  "traceStackTraceOnlySerial m stk MaxFrames s =
     bind_ro (kprintf_serial (chars ''Stack trace:\<newline>'') [] s) (trace_frames kprintf_serial m (unat MaxFrames) stk)"

section \<open>panic\<close>

definition panic :: "mem \<Rightarrow> u64 \<Rightarrow> u64 \<Rightarrow> u8 list \<Rightarrow> 'z console_scheme \<Rightarrow> 'z console_scheme res option" where
  "panic m serial_frame terminal_frame msg s =
     (let s = s\<lparr>fgColor := 0xFF0000\<rparr> in
      bind_ro (kprintf_serial (chars ''Panic GODDAMN!\<newline>'') [] s) (\<lambda>s.
      bind_ro (kprintf_serial (chars ''Message: %s\<newline>\<newline>\<newline>'') [VStr msg] s) (\<lambda>s.
      bind_ro (traceStackTraceOnlySerial m serial_frame 16 s) (\<lambda>s.
      bind_ro (kprintf (chars ''\<newline>\<newline>'') [] s) (\<lambda>s.
      bind_ro (kprintf (chars ''** okeOS Panic **                             :(\<newline>'') [] s) (\<lambda>s.
      bind_ro (kprintf (chars ''A fatal exception occurred and okeOS was halted.\<newline>'') [] s) (\<lambda>s.
      bind_ro (kprintf (chars ''Message: %s\<newline>\<newline>\<newline>'') [VStr msg] s) (\<lambda>s.
      traceStackTrace m terminal_frame 16 s))))))))"

end
