(* ===== verification/Panic_Props.thy ===== *)
theory Panic_Props
  imports Panic Kprintf_Props
begin

text \<open>What a panic leaves on the serial port: the message and the return addresses of the stack.\<close>

section \<open>Calls that print\<close>

text \<open>A run that returns outside of an escape sequence.\<close>

definition reports :: "bool \<Rightarrow> bool \<Rightarrow> u8 list \<Rightarrow> 'z console_scheme \<Rightarrow> 'z console_scheme res option \<Rightarrow> bool" where
  "reports serial terminal out s r \<longleftrightarrow> (\<exists>t. r = Some (Inr t) \<and> printed serial terminal out s t \<and> \<not> currentlyReadingAnything t)"

lemma reports_bind:
  assumes "reports serial terminal a s r"
    and "\<And>t. r = Some (Inr t) \<Longrightarrow> device t = device s \<Longrightarrow> \<not> currentlyReadingAnything t \<Longrightarrow> reports serial terminal b t (f t)"
  shows "reports serial terminal (a @ b) s (bind_ro r f)"
proof -
  obtain t where t: "r = Some (Inr t)" "printed serial terminal a s t" "\<not> currentlyReadingAnything t"
    using assms(1) by (auto simp: reports_def)
  then have "reports serial terminal b t (f t)" by (intro assms(2)) (auto simp: printed_def)
  then show ?thesis using t printed_append by (fastforce simp: reports_def)
qed

lemma kprintf_loop_reports:
  fixes s :: "'z console_scheme"
  assumes "transmits (device s)" and "\<not> currentlyReadingAnything s"
    and "\<And>col. \<exists>col'. render False col False fmt vargs = Some (out, False, col')"
  shows "reports serial terminal out s (kprintf_loop serial terminal False fmt vargs s)"
proof -
  obtain col' where "render (currentlyReadingAnything s) (currentlyReadingColor s) False fmt vargs = Some (out, False, col')"
    using assms(2,3) by auto
  from kprintf_loop_renders [OF assms(1) this, of serial terminal] show ?thesis
    unfolding reports_def by metis
qed

section \<open>The formats of the report\<close>

lemma hex16_no_dollar: "of_char CHR ''$'' \<notin> set (hex16 v)"
  using uitoa_text_facts(6) [of v] by (auto simp: hex16_def)

lemma render_texts:
  "render False col False (chars ''Panic GODDAMN!\<newline>'') [] = Some (chars ''Panic GODDAMN!\<newline>'', False, col)"
  "render False col False (chars ''Stack trace:\<newline>'') [] = Some (chars ''Stack trace:\<newline>'', False, col)"
  "render False col False (chars ''\<newline>\<newline>'') [] = Some (chars ''\<newline>\<newline>'', False, col)"
  "render False col False (chars ''** okeOS Panic **                             :(\<newline>'') [] =
     Some (chars ''** okeOS Panic **                             :(\<newline>'', False, col)"
  "render False col False (chars ''A fatal exception occurred and okeOS was halted.\<newline>'') [] =
     Some (chars ''A fatal exception occurred and okeOS was halted.\<newline>'', False, col)"
  by (simp_all add: chars_def)

definition message_text :: "u8 list \<Rightarrow> u8 list" where
  "message_text msg = chars ''Message: '' @ msg @ chars ''\<newline>\<newline>\<newline>''"

definition frame_line :: "u64 \<Rightarrow> u8 list" where
  "frame_line rip = chars ''  0x'' @ hex16 rip @ chars ''     \<newline>''"

lemma render_message:
  "of_char CHR ''$'' \<notin> set msg \<Longrightarrow>
   render False col False (chars ''Message: %s\<newline>\<newline>\<newline>'') [VStr msg] = Some (message_text msg, False, col)"
  by (simp add: chars_def convert_def message_text_def)

lemma render_frame:
  "render False col False (chars ''  0x%x     \<newline>'') [VNum rip] = Some (frame_line rip, False, col)"
  using hex16_no_dollar [of rip] by (simp add: chars_def convert_def num_arg_def frame_line_def)

section \<open>Stack traces\<close>

text \<open>The return addresses along the chain of frame pointers, up to \<open>n\<close> of them.\<close>

primrec return_addresses :: "mem \<Rightarrow> nat \<Rightarrow> u64 \<Rightarrow> u64 list" where
  "return_addresses m 0 stk = []"
| "return_addresses m (Suc n) stk = (if stk = 0 then [] else load64 m (stk + 8) # return_addresses m n (load64 m stk))"

lemma return_addresses_length: "length (return_addresses m n stk) \<le> n"
  by (induction n arbitrary: stk) simp_all

lemma trace_frames_reports:
  fixes s :: "'z console_scheme"
  assumes "transmits (device s)" and "\<not> currentlyReadingAnything s"
  shows "reports serial terminal (concat (map frame_line (return_addresses m n stk))) s
    (trace_frames (kprintf_loop serial terminal False) m n stk s)"
  using assms
proof (induction n arbitrary: stk s)
  case 0
  then show ?case by (simp add: reports_def printed_refl)
next
  case (Suc n)
  show ?case
  proof (cases "stk = 0")
    case True
    then show ?thesis using Suc.prems by (simp add: reports_def printed_refl)
  next
    case False
    have "reports serial terminal (frame_line (load64 m (stk + 8))) s
        (kprintf_loop serial terminal False (chars ''  0x%x     \<newline>'') [VNum (load64 m (stk + 8))] s)"
      by (rule kprintf_loop_reports [OF Suc.prems]) (auto simp: render_frame)
    then have "reports serial terminal (frame_line (load64 m (stk + 8)) @
        concat (map frame_line (return_addresses m n (load64 m stk)))) s
        (bind_ro (kprintf_loop serial terminal False (chars ''  0x%x     \<newline>'') [VNum (load64 m (stk + 8))] s)
          (trace_frames (kprintf_loop serial terminal False) m n (load64 m stk)))"
      by (rule reports_bind) (rule Suc.IH, use Suc.prems in simp_all)
    with False show ?thesis by (simp add: load_frame_def)
  qed
qed

definition trace_text :: "mem \<Rightarrow> u64 \<Rightarrow> u8 list" where
  "trace_text m stk = chars ''Stack trace:\<newline>'' @ concat (map frame_line (return_addresses m 16 stk))"

lemma trace_reports:
  fixes s :: "'z console_scheme"
  assumes "transmits (device s)" and "\<not> currentlyReadingAnything s"
  shows "reports True False (trace_text m stk) s (traceStackTraceOnlySerial m stk 16 s)"
    and "reports False True (trace_text m stk) s (traceStackTrace m stk 16 s)"
proof -
  have "reports serial terminal (trace_text m stk) s (bind_ro (kprintf_loop serial terminal False (chars ''Stack trace:\<newline>'') [] s)
      (trace_frames (kprintf_loop serial terminal False) m (unat (16 :: u32)) stk))" for serial terminal
    unfolding trace_text_def
  proof (rule reports_bind)
    show "reports serial terminal (chars ''Stack trace:\<newline>'') s (kprintf_loop serial terminal False (chars ''Stack trace:\<newline>'') [] s)"
      by (rule kprintf_loop_reports [OF assms]) (auto simp: render_texts)
  next
    fix t :: "'z console_scheme" assume "device t = device s" "\<not> currentlyReadingAnything t"
    then show "reports serial terminal (concat (map frame_line (return_addresses m 16 stk))) t
        (trace_frames (kprintf_loop serial terminal False) m (unat (16 :: u32)) stk t)"
      using trace_frames_reports [of t serial terminal m 16 stk] assms(1) by simp
  qed
  from this [of True False] this [of False True]
  show "reports True False (trace_text m stk) s (traceStackTraceOnlySerial m stk 16 s)"
    "reports False True (trace_text m stk) s (traceStackTrace m stk 16 s)"
    by (simp_all add: traceStackTrace_def traceStackTraceOnlySerial_def kprintf_def [abs_def] kprintf_serial_def [abs_def])
qed

section \<open>The report\<close>

lemma kprintf_reports:
  fixes s :: "'z console_scheme"
  assumes "transmits (device s)" and "\<not> currentlyReadingAnything s"
    and "\<And>col. \<exists>col'. render False col False fmt vargs = Some (out, False, col')"
  shows "reports True False out s (kprintf_serial fmt vargs s)" and "reports False True out s (kprintf fmt vargs s)"
  using kprintf_loop_reports [OF assms] by (simp_all add: kprintf_serial_def kprintf_def)

definition panic_serial_text :: "mem \<Rightarrow> u64 \<Rightarrow> u8 list \<Rightarrow> u8 list" where
  "panic_serial_text m stk msg = chars ''Panic GODDAMN!\<newline>'' @ message_text msg @ trace_text m stk"

lemma kprintf_loop_append:
  fixes s :: "'z console_scheme"
  assumes "of_char CHR ''%'' \<notin> set cs"
  shows "kprintf_loop serial terminal False (cs @ ds) vs s =
    bind_ro (kprintf_loop serial terminal False cs vs s) (kprintf_loop serial terminal False ds vs)"
  using assms by (induction cs arbitrary: s) (auto simp: bind_ro_def split: Option.bind_splits)

lemma message_hangs:
  fixes s :: "'z console_scheme"
  assumes s: "transmits (device s)" "\<not> currentlyReadingAnything s" and msg: "of_char CHR ''$'' \<in> set msg"
  shows "kprintf_serial (chars ''Message: %s\<newline>\<newline>\<newline>'') [VStr msg] s = None"
proof -
  have "reports True False (chars ''Message: '') s (kprintf_loop True False False (chars ''Message: '') [VStr msg] s)"
    by (rule kprintf_loop_reports [OF s]) (simp add: chars_def)
  then obtain v where v: "kprintf_loop True False False (chars ''Message: '') [VStr msg] s = Some (Inr v)"
    by (auto simp: reports_def)
  have "write_str True False msg v = None"
    using write_str_writable [of True False msg v] msg by (cases "write_str True False msg v") (auto simp: writable_def)
  then have h: "kprintf_loop True False False (chars ''%s\<newline>\<newline>\<newline>'') [VStr msg] v = None"
    by (simp add: chars_def format_spec_def Let_def)
  have np: "of_char CHR ''%'' \<notin> set (chars ''Message: '')" by (simp add: chars_def)
  have "chars ''Message: %s\<newline>\<newline>\<newline>'' = chars ''Message: '' @ chars ''%s\<newline>\<newline>\<newline>''" by (simp add: chars_def)
  then show ?thesis unfolding kprintf_serial_def by (simp only: kprintf_loop_append [OF np] v h bind_ro_simps)
qed

text \<open>The two halves of the report.\<close>

definition panic_serial :: "mem \<Rightarrow> u64 \<Rightarrow> u8 list \<Rightarrow> 'z console_scheme \<Rightarrow> 'z console_scheme res option" where
  "panic_serial m stk msg s = bind_ro (kprintf_serial (chars ''Panic GODDAMN!\<newline>'') [] s) (\<lambda>s.
      bind_ro (kprintf_serial (chars ''Message: %s\<newline>\<newline>\<newline>'') [VStr msg] s) (traceStackTraceOnlySerial m stk 16))"

definition panic_terminal :: "mem \<Rightarrow> u64 \<Rightarrow> u8 list \<Rightarrow> 'z console_scheme \<Rightarrow> 'z console_scheme res option" where
  "panic_terminal m stk msg s = bind_ro (kprintf (chars ''\<newline>\<newline>'') [] s) (\<lambda>s.
      bind_ro (kprintf (chars ''** okeOS Panic **                             :(\<newline>'') [] s) (\<lambda>s.
      bind_ro (kprintf (chars ''A fatal exception occurred and okeOS was halted.\<newline>'') [] s) (\<lambda>s.
      bind_ro (kprintf (chars ''Message: %s\<newline>\<newline>\<newline>'') [VStr msg] s) (traceStackTrace m stk 16))))"

lemma panic_halves: "panic m stk stk' msg s = bind_ro (panic_serial m stk msg (s\<lparr>fgColor := 0xFF0000\<rparr>)) (panic_terminal m stk' msg)"
  unfolding panic_def panic_serial_def panic_terminal_def [abs_def] Let_def bind_ro_assoc ..

lemma panic_first:
  fixes s :: "'z console_scheme"
  assumes "transmits (device s)" and "\<not> currentlyReadingAnything s"
  shows "reports True False (chars ''Panic GODDAMN!\<newline>'') s (kprintf_serial (chars ''Panic GODDAMN!\<newline>'') [] s)"
  by (rule kprintf_reports(1) [OF assms]) (auto simp: render_texts)

lemma panic_serial_reports:
  fixes s :: "'z console_scheme"
  assumes s: "transmits (device s)" "\<not> currentlyReadingAnything s" and msg: "of_char CHR ''$'' \<notin> set msg"
  shows "reports True False (panic_serial_text m stk msg) s (panic_serial m stk msg s)"
  unfolding panic_serial_text_def panic_serial_def
proof (rule reports_bind [OF panic_first [OF s]], rule reports_bind)
  fix t :: "'z console_scheme" assume t: "device t = device s" "\<not> currentlyReadingAnything t"
  then show "reports True False (message_text msg) t (kprintf_serial (chars ''Message: %s\<newline>\<newline>\<newline>'') [VStr msg] t)"
    using s(1) by (intro kprintf_reports(1)) (auto simp: render_message [OF msg])
  fix u :: "'z console_scheme" assume "device u = device t" "\<not> currentlyReadingAnything u"
  then show "reports True False (trace_text m stk) u (traceStackTraceOnlySerial m stk 16 u)"
    using t s(1) by (intro trace_reports(1)) simp_all
qed

definition panic_terminal_text :: "mem \<Rightarrow> u64 \<Rightarrow> u8 list \<Rightarrow> u8 list" where
  "panic_terminal_text m stk msg = chars ''\<newline>\<newline>'' @ chars ''** okeOS Panic **                             :(\<newline>'' @
     chars ''A fatal exception occurred and okeOS was halted.\<newline>'' @ message_text msg @ trace_text m stk"

lemma panic_terminal_reports:
  fixes s :: "'z console_scheme"
  assumes s: "transmits (device s)" "\<not> currentlyReadingAnything s" and msg: "of_char CHR ''$'' \<notin> set msg"
  shows "reports False True (panic_terminal_text m stk msg) s (panic_terminal m stk msg s)"
  unfolding panic_terminal_def panic_terminal_text_def
proof (rule reports_bind)
  show "reports False True (chars ''\<newline>\<newline>'') s (kprintf (chars ''\<newline>\<newline>'') [] s)"
    using s by (intro kprintf_reports(2)) (auto simp: render_texts)
next
  fix u :: "'z console_scheme" assume u: "device u = device s" "\<not> currentlyReadingAnything u"
  show "reports False True (chars ''** okeOS Panic **                             :(\<newline>'' @
      chars ''A fatal exception occurred and okeOS was halted.\<newline>'' @ message_text msg @ trace_text m stk) u
      (bind_ro (kprintf (chars ''** okeOS Panic **                             :(\<newline>'') [] u) (\<lambda>s.
      bind_ro (kprintf (chars ''A fatal exception occurred and okeOS was halted.\<newline>'') [] s) (\<lambda>s.
      bind_ro (kprintf (chars ''Message: %s\<newline>\<newline>\<newline>'') [VStr msg] s) (traceStackTrace m stk 16))))"
  proof (rule reports_bind, goal_cases)
    case 1
    then show ?case using s u by (intro kprintf_reports(2)) (auto simp: render_texts)
  next
    case (2 v)
    show ?case
    proof (rule reports_bind, goal_cases)
      case 1
      then show ?case using s u 2 by (intro kprintf_reports(2)) (auto simp: render_texts)
    next
      case (2 w)
      have w: "transmits (device w)" "\<not> currentlyReadingAnything w"
        using s u 2 \<open>device v = device u\<close> by simp_all
      show ?case
        by (rule reports_bind [OF kprintf_reports(2) [OF w]])
          (use w in \<open>auto simp: render_message [OF msg] intro!: trace_reports(2)\<close>)
    qed
  qed
qed

text \<open>C31: \<open>panic\<close> always reaches its endless loop when its message has no \<open>$\<close>, and by then the serial port has received
  the message and the return addresses of at most 16 stack frames; what follows on the port are only the reports
  of a screen that was cleared. On a message with a \<open>$\<close> it hangs before the message is printed.\<close>

theorem panic_reports:
  fixes s :: "'z console_scheme"
  assumes "transmits (device s)" and "\<not> currentlyReadingAnything s"
  shows "if of_char CHR ''$'' \<in> set msg then panic m stk stk' msg s = None
    else \<exists>t rest. panic m stk stk' msg s = Some (Inr t) \<and>
      port_out t = port_out s @ map (Pair 0x3f8) (panic_serial_text m stk msg) @ rest \<and>
      length (return_addresses m 16 stk) \<le> 16"
proof -
  let ?s = "s\<lparr>fgColor := 0xFF0000\<rparr>"
  have s: "transmits (device ?s)" "\<not> currentlyReadingAnything ?s" using assms by simp_all
  show ?thesis
  proof (cases "of_char CHR ''$'' \<in> set msg")
    case True
    obtain t where t: "kprintf_serial (chars ''Panic GODDAMN!\<newline>'') [] ?s = Some (Inr t)" "transmits (device t)"
      "\<not> currentlyReadingAnything t" using panic_first [OF s] s(1) by (auto simp: reports_def printed_def)
    have "panic_serial m stk msg ?s = None"
      by (simp only: panic_serial_def t(1) bind_ro_simps message_hangs [OF t(2,3) True])
    with True show ?thesis by (simp add: panic_halves)
  next
    case False
    obtain t where t: "panic_serial m stk msg ?s = Some (Inr t)" "transmits (device t)" "\<not> currentlyReadingAnything t"
      "port_out t = port_out s @ map (Pair 0x3f8) (panic_serial_text m stk msg)"
      using panic_serial_reports [OF s False, of m stk] s(1) by (auto simp: reports_def printed_def emits_serial)
    obtain u rest where u: "panic_terminal m stk' msg t = Some (Inr u)" "port_out u = port_out t @ rest"
      using panic_terminal_reports [OF t(2,3) False, of m stk'] by (auto simp: reports_def printed_def emits_def)
    then have "panic m stk stk' msg s = Some (Inr u)" using t(1) by (simp add: panic_halves)
    then show ?thesis using False u(2) t(4) return_addresses_length by auto
  qed
qed

theorem panic_reports_witness:
  "\<exists>t rest. panic (\<lambda>_. 0) 0 0 (chars ''Out of memory'') console_example = Some (Inr t) \<and>
     port_out t = map (Pair 0x3f8) (chars ''Panic GODDAMN!\<newline>Message: Out of memory\<newline>\<newline>\<newline>Stack trace:\<newline>'') @ rest"
proof -
  have "panic_serial_text (\<lambda>_. 0) 0 (chars ''Out of memory'') =
      chars ''Panic GODDAMN!\<newline>Message: Out of memory\<newline>\<newline>\<newline>Stack trace:\<newline>''"
    by (simp add: panic_serial_text_def message_text_def trace_text_def chars_def numeral_eq_Suc)
  moreover have "of_char CHR ''$'' \<notin> set (chars ''Out of memory'')" by (simp add: chars_def)
  ultimately show ?thesis using panic_reports [of console_example "chars ''Out of memory''" "\<lambda>_. 0" 0 0] by auto
qed

end
