(* ===== verification/Logger_Props.thy ===== *)
theory Logger_Props
  imports Logger String_Builder_Props Panic_Props
begin

text \<open>A log call prints the line it is asked for, gives every block back and leaves the memory of its callers alone.\<close>

section \<open>The parts of a line\<close>

lemma slot_region:
  assumes "i < n" and "8 * n \<le> 2 ^ 64"
  shows "in_region (part_addr b (int i)) 8 x \<longleftrightarrow> 8 * i \<le> unat (x - parts b) \<and> unat (x - parts b) < 8 * i + 8"
proof -
  have a: "part_addr b (int i) = parts b + of_nat (8 * i)" by (simp add: part_addr_def)
  show ?thesis
  proof
    assume "in_region (part_addr b (int i)) 8 x"
    then obtain k where k: "k < 8" "x = parts b + of_nat (8 * i) + of_nat k" by (auto simp: in_region_iff_offset a)
    then have "x - parts b = of_nat (8 * i + k)" by simp
    moreover have "unat (of_nat (8 * i + k) :: u64) = 8 * i + k" using assms k(1) by (intro unat_of_nat_small) simp
    ultimately show "8 * i \<le> unat (x - parts b) \<and> unat (x - parts b) < 8 * i + 8" using k(1) by simp
  next
    assume d: "8 * i \<le> unat (x - parts b) \<and> unat (x - parts b) < 8 * i + 8"
    have "x = parts b + of_nat (unat (x - parts b))" by simp
    also have "\<dots> = part_addr b (int i) + of_nat (unat (x - parts b) - 8 * i)"
      using d by (simp only: a add.assoc of_nat_add [symmetric]) simp
    finally have x: "x = part_addr b (int i) + of_nat (unat (x - parts b) - 8 * i)" .
    show "in_region (part_addr b (int i)) 8 x"
      by (subst x, rule in_region_offset) (use d in auto)
  qed
qed

lemma append_parts:
  assumes "length ps \<le> n" and "8 * n \<le> 2 ^ 64"
    and b: "partOffset b = 0" "nParts b = int n"
  obtains m' where "fold (append_part oob) ps (b, m) = (b\<lparr>partOffset := int (length ps)\<rparr>, m')"
    and "\<forall>i<length ps. load64 m' (part_addr b (int i)) = ps ! i"
    and "\<forall>x. \<not> in_region (parts b) (8 * length ps) x \<longrightarrow> m' x = m x"
proof -
  have "\<exists>m'. fold (append_part oob) ps (b, m) = (b\<lparr>partOffset := int (length ps)\<rparr>, m') \<and>
      (\<forall>i<length ps. load64 m' (part_addr b (int i)) = ps ! i) \<and>
      (\<forall>x. \<not> in_region (parts b) (8 * length ps) x \<longrightarrow> m' x = m x)"
    using assms(1)
  proof (induction ps rule: rev_induct)
    case Nil
    then show ?case using b by (simp add: fold_Nil)
  next
    case (snoc p ps)
    then obtain m' where m': "fold (append_part oob) ps (b, m) = (b\<lparr>partOffset := int (length ps)\<rparr>, m')"
      "\<forall>i<length ps. load64 m' (part_addr b (int i)) = ps ! i"
      "\<forall>x. \<not> in_region (parts b) (8 * length ps) x \<longrightarrow> m' x = m x" by auto
    let ?a = "part_addr b (int (length ps))" and ?m = "store64 m' (part_addr b (int (length ps))) p"
    have len: "length ps < n" using snoc.prems by simp
    have "fold (append_part oob) (ps @ [p]) (b, m) = (b\<lparr>partOffset := int (length (ps @ [p]))\<rparr>, ?m)"
      using m'(1) b(2) len by (simp add: append_part_def part_addr_def)
    moreover have "load64 ?m (part_addr b (int i)) = (ps @ [p]) ! i" if "i < length (ps @ [p])" for i
    proof (cases "i = length ps")
      case True
      then show ?thesis by (simp add: mem_simps)
    next
      case False
      then have i: "i < length ps" "i < n" using that len by auto
      then have "region_disjoint ?a 8 (part_addr b (int i)) 8"
        using len assms(2) unfolding region_disjoint_def by (auto simp: slot_region [of _ n])
      then show ?thesis using m'(2) i by (simp add: c64.load_store_other nth_append)
    qed
    moreover have "?m x = m x" if "\<not> in_region (parts b) (8 * length (ps @ [p])) x" for x
    proof -
      have "\<not> in_region ?a 8 x" using that slot_region [OF len assms(2), of b x] by (auto simp: in_region_def)
      then show ?thesis using that m'(3) by (simp add: c64.store_frame in_region_def)
    qed
    ultimately show ?case by blast
  qed
  then show thesis using that by blast
qed

section \<open>The string that is printed\<close>

lemma read_string_returns: "m x = 0 \<Longrightarrow> \<exists>str. read_string m p = Some str"
proof (induction "unat (x - p)" arbitrary: p)
  case 0
  then have "x = p" by (simp add: unat_eq_0)
  with 0 show ?case by (subst read_string.simps) simp
next
  case (Suc n)
  then have "x \<noteq> p" by auto
  then have "n = unat (x - (p + 1))" using Suc.hyps(2) by (simp add: unat_step_down)
  from Suc.hyps(1) [OF this Suc.prems] obtain str where "read_string m (p + 1) = Some str" by blast
  then show ?case by (subst read_string.simps) simp
qed

lemma read_string_prefix:
  "bytes_at m p (length cs) = cs \<Longrightarrow> 0 \<notin> set cs \<Longrightarrow>
   read_string m p = map_option ((@) cs) (read_string m (p + of_nat (length cs)))"
proof (induction cs arbitrary: p)
  case Nil
  then show ?case by (cases "read_string m p") simp_all
next
  case (Cons c cs)
  then show ?case
    by (subst read_string.simps) (cases "read_string m (p + 1 + of_nat (length cs))"; auto simp: bytes_at_Suc add.assoc)
qed

section \<open>Deleting the builder\<close>

lemma delete_builder_effect:
  fixes s :: "'z heap_scheme"
  assumes h: "heap_holds lim s (insert (outputBuf b, k) (insert (parts b, l) (insert (this, n) B)))"
    and new: "this \<notin> fst ` B" "parts b \<notin> fst ` insert (this, n) B" "outputBuf b \<notin> fst ` insert (parts b, l) (insert (this, n) B)"
    and len: "4 \<le> unat l" "unat (ucast (outputBufSize b) :: u64) \<le> unat k"
  shows "heap_holds lim (delete_builder this b s) B"
    and "hp.stable lim s B x \<Longrightarrow> ram (delete_builder this b s) x = ram s x \<and> hp.stable lim (delete_builder this b s) B x"
proof -
  let ?t = "sfree (parts b) 4 s" and ?u = "FastStringBuilder_destroy b s"
  have h1: "heap_holds lim s (insert (parts b, l) (insert (outputBuf b, k) (insert (this, n) B)))"
    using h by (simp add: insert_commute)
  have n1: "parts b \<notin> fst ` insert (outputBuf b, k) (insert (this, n) B)" using new by auto
  note t = sfree_stable [OF h1 n1, of 4]
  have t1: "heap_holds lim ?t (insert (outputBuf b, k) (insert (this, n) B))" using t(1) len(1) by simp
  have n2: "outputBuf b \<notin> fst ` insert (this, n) B" using new(3) by auto
  note u = sfree_stable [OF t1 n2 len(2), folded FastStringBuilder_destroy_def]
  have B: "insert (this, n) B - {(this, n)} = B" using new(1) by force
  note f = hp.release_stable [OF u(1) insertI1, unfolded B] and g = hp.release_removes [OF u(1) insertI1, unfolded B]
  show "heap_holds lim (delete_builder this b s) B" using g by (simp add: delete_builder_def)
  show "ram (delete_builder this b s) x = ram s x \<and> hp.stable lim (delete_builder this b s) B x" if x: "hp.stable lim s B x"
  proof -
    have "ram ?t x = ram s x" "hp.stable lim ?t B x" using x t(2,3) len(1) by (simp_all add: stable_insert)
    moreover from this(2) have "ram ?u x = ram ?t x" "hp.stable lim ?u B x" using u(2,3) by (simp_all add: stable_insert)
    ultimately show ?thesis using f by (simp add: delete_builder_def)
  qed
qed

section \<open>Logging\<close>

definition log_pointers :: "log_literals \<Rightarrow> Logger \<Rightarrow> u64 \<Rightarrow> u64 \<Rightarrow> u64 list" where
  "log_pointers lits lg tpStr str = [lit_open lits, nspace lg, lit_slash lits, tag lg, tpStr, str, lit_newline lits]"

definition with_builder :: "u64 \<Rightarrow> u64 list \<Rightarrow> (u64 \<Rightarrow> FastStringBuilder \<Rightarrow> 'h heap_scheme \<Rightarrow> 'r res option) \<Rightarrow> 'h heap_scheme \<Rightarrow> 'r res option" where
  "with_builder oob ps k h = bind_ro (malloc 32 h) (\<lambda>(this, h).
     if this = 0 then Some (Inl (Undefined ''null builder''))
     else bind_ro (FastStringBuilder_new (int (length ps)) h) (\<lambda>(b, h).
       let (b, m) = fold (append_part oob) ps (b, ram h) in k this b (h\<lparr>ram := m\<rparr>)))"

lemma internal_log_with_builder:
  "internal_log lits lg tpStr str vargs (h, c) =
     with_builder (lit_oob lits) (log_pointers lits lg tpStr str) (\<lambda>this b h. case target lg of
         BOTH \<Rightarrow> print_built kprintf_both lits vargs this b (h, c)
       | SERIAL \<Rightarrow> print_built kprintf_serial lits vargs this b (h, c)
       | TERMINAL \<Rightarrow> print_built kprintf lits vargs this b (h, c)
       | NONE \<Rightarrow> Some (Inr (delete_builder this b h, c))) h"
proof -
  have seven: "int (length (log_pointers lits lg tpStr str)) = 7" by (simp add: log_pointers_def)
  show ?thesis unfolding internal_log_def with_builder_def seven unfolding log_pointers_def Let_def prod.case ..
qed

text \<open>Strings the caller relies on.\<close>

definition text_in :: "(u64 \<Rightarrow> bool) \<Rightarrow> mem \<Rightarrow> u64 \<Rightarrow> u8 list \<Rightarrow> bool" where
  "text_in S m p str \<longleftrightarrow> string_at m p str \<and> Suc (length str) < 2 ^ 32 \<and> (\<forall>x. in_region p (Suc (length str)) x \<longrightarrow> S x)"

abbreviation text_at :: "nat \<Rightarrow> 'h heap_scheme \<Rightarrow> (u64 \<times> u64) set \<Rightarrow> u64 \<Rightarrow> u8 list \<Rightarrow> bool" where
  "text_at lim h B \<equiv> text_in (hp.stable lim h B) (ram h)"

text \<open>The bytes in \<open>S\<close> of one memory are bytes in \<open>S'\<close> of another.\<close>

definition keeps :: "(u64 \<Rightarrow> bool) \<Rightarrow> mem \<Rightarrow> (u64 \<Rightarrow> bool) \<Rightarrow> mem \<Rightarrow> bool" where
  "keeps S m S' m' \<longleftrightarrow> (\<forall>x. S x \<longrightarrow> m' x = m x \<and> S' x)"

lemma text_in_keeps:
  assumes "keeps S m S' m'" and "text_in S m p str"
  shows "text_in S' m' p str"
proof -
  have "string_at m' p str = string_at m p str"
    using assms by (intro string_at_cong) (auto simp: text_in_def keeps_def)
  with assms show ?thesis by (simp add: text_in_def keeps_def)
qed

lemma text_at_kept:
  assumes "text_at lim h B p str" and "\<forall>x. hp.stable lim h B x \<longrightarrow> ram s x = ram h x \<and> hp.stable lim s C x"
  shows "text_at lim s C p str"
  using assms text_in_keeps by (auto simp: keeps_def)

lemma builder_parts:
  assumes "list_all2 (text_at lim s C) ps ss" and "nParts b = int (length ps)"
    and slot: "\<forall>i<length ps. load64 (ram s) (part_addr b (int i)) = ps ! i"
    and own: "\<forall>i<length ps. \<forall>x. in_region (part_addr b (int i)) 8 x \<longrightarrow> hp.stable lim s C x"
  shows "list_all2 (\<lambda>i str. part_holds b (ram s) i str \<and> (\<forall>x. part_bytes b (ram s) i str x \<longrightarrow> hp.stable lim s C x))
    [0..nParts b - 1] ss"
proof (rule list_all2_all_nthI)
  have len: "length ss = length ps" using assms(1) by (simp add: list_all2_lengthD)
  then show "length [0..nParts b - 1] = length ss" using assms(2) by simp
  fix i assume "i < length [0..nParts b - 1]"
  then have i: "i < length ps" "[0..nParts b - 1] ! i = int i" using assms(2) by simp_all
  have "text_at lim s C (ps ! i) (ss ! i)" using assms(1) i(1) by (simp add: list_all2_nthD)
  then show "part_holds b (ram s) ([0..nParts b - 1] ! i) (ss ! i) \<and>
      (\<forall>x. part_bytes b (ram s) ([0..nParts b - 1] ! i) (ss ! i) x \<longrightarrow> hp.stable lim s C x)"
    unfolding i(2) using slot own i(1) by (auto simp: text_in_def part_holds_def part_bytes_def)
qed

text \<open>The state in which the line is put together.\<close>

definition builder_ready :: "nat \<Rightarrow> (u64 \<times> u64) set \<Rightarrow> u8 list list \<Rightarrow> u64 \<Rightarrow> FastStringBuilder \<Rightarrow> 'h heap_scheme \<Rightarrow> bool" where
  "builder_ready lim B ss this b s \<longleftrightarrow> (\<exists>l n. heap_holds lim s (insert (parts b, l) (insert (this, n) B)) \<and>
     this \<notin> fst ` B \<and> parts b \<notin> fst ` insert (this, n) B \<and> 4 \<le> unat l \<and> outputBuf b = 0 \<and> nParts b = int (length ss) \<and>
     list_all2 (\<lambda>i str. part_holds b (ram s) i str \<and>
       (\<forall>x. part_bytes b (ram s) i str x \<longrightarrow> hp.stable lim s (insert (parts b, l) (insert (this, n) B)) x))
       [0..nParts b - 1] ss)"

lemma with_builder_effect:
  fixes h :: "'h heap_scheme"
  assumes h: "heap_holds lim h B" and texts: "list_all2 (text_at lim h B) ps ss"
    and len: "0 < length ps" "length ps \<le> 32" and room: "unat (heapEnd h) + 16384 \<le> lim"
  obtains "with_builder oob ps k h = Some (Inl (Panic ''Out of memory''))"
  | this b s where "with_builder oob ps k h = k this b s" and "builder_ready lim B ss this b s"
    and "\<forall>x. hp.stable lim h B x \<longrightarrow> ram s x = ram h x \<and> hp.stable lim s B x"
    and "unat (heapEnd s) \<le> unat (heapEnd h) + 16384"
proof -
  have r32: "round_page (unat (align16 32)) = 4096" by (simp add: align16_def round_page_def)
  have "heap_room lim 32 h" using room by (simp add: heap_room_def r32)
  from malloc_cases [OF h this] show thesis
  proof cases
    case 1
    then show thesis by (intro that(1)) (simp add: with_builder_def)
  next
    case t: (2 this t n)
    let ?z = "8 * of_int (int (length ps)) :: u64"
    have z: "?z = of_nat (8 * length ps)" by simp
    have uz: "unat ?z = 8 * length ps" unfolding z using len(2) by (intro unat_of_nat_small) simp
    have rz: "round_page (unat (align16 ?z)) \<le> 4096"
      using align16 [of ?z] uz len by (simp add: round_page_def)
    have e2: "unat (heapEnd t) \<le> unat (heapEnd h) + 8192" using t(8) r32 by simp
    have "heap_room lim ?z t" using len rz uz e2 room by (simp add: heap_room_def)
    from malloc_cases [OF t(5) this] show thesis
    proof cases
      case 1
      with t show thesis by (intro that(1)) (simp add: with_builder_def FastStringBuilder_new_def)
    next
      case (2 p u l)
      let ?n = "length ps" and ?B = "insert (p, l) (insert (this, n) B)"
      define b where "b = \<lparr>parts = p, nParts = int ?n, partOffset = 0, outputBuf = 0, outputBufSize = 0\<rparr>"
      have n64: "8 * ?n \<le> 2 ^ 64" using len(2) by simp
      obtain m where m: "fold (append_part oob) ps (b, ram u) = (b\<lparr>partOffset := int ?n\<rparr>, m)"
        "\<forall>i<?n. load64 m (part_addr b (int i)) = ps ! i" "\<forall>x. \<not> in_region (parts b) (8 * ?n) x \<longrightarrow> m x = ram u x"
        by (rule append_parts [of ps ?n b oob "ram u", OF order_refl n64]) (simp_all add: b_def)
      let ?b = "b\<lparr>partOffset := int ?n\<rparr>" and ?s = "u\<lparr>ram := m\<rparr>"
      have l: "8 * ?n \<le> unat l" using 2(3) uz by simp
      have mu: "\<forall>x. \<not> in_region p (unat l) x \<longrightarrow> m x = ram u x"
        using m(3) l in_region_mono by (fastforce simp: b_def)
      note s = payload_stable [OF 2(5) insertI1 mu]
      have kept: "\<forall>x. hp.stable lim h B x \<longrightarrow> ram ?s x = ram h x \<and> hp.stable lim ?s B x"
      proof (intro allI impI)
        fix x assume "hp.stable lim h B x"
        then have "ram t x = ram h x" and st: "hp.stable lim t B x" using t(6,7) by blast+
        moreover from st have "hp.stable lim t (insert (this, n) B) x" "hp.stable lim u B x"
          using 2(7) stable_insert by blast+
        moreover from this(1) have "ram u x = ram t x" using 2(6) by blast
        moreover have "m x = ram u x"
          using mu stable_apart [OF 2(5,4)] stable_insert [OF \<open>hp.stable lim u B x\<close>] by blast
        ultimately show "ram ?s x = ram h x \<and> hp.stable lim ?s B x" using s(2) by simp
      qed
      have "list_all2 (\<lambda>i str. part_holds ?b (ram ?s) i str \<and>
          (\<forall>x. part_bytes ?b (ram ?s) i str x \<longrightarrow> hp.stable lim ?s ?B x)) [0..nParts ?b - 1] ss"
      proof (rule builder_parts)
        have "text_at lim ?s ?B p str" if "text_at lim h B p str" for p str
          using text_at_kept [OF that, of ?s ?B] kept stable_insert by blast
        then show "list_all2 (text_at lim ?s ?B) ps ss" using texts list_all2_mono by blast
        have "in_region p (unat l) x" if "i < ?n" "in_region (part_addr b (int i)) 8 x" for i x
          using that l slot_region [OF that(1) n64, of b x] by (auto simp: in_region_def b_def)
        then show "\<forall>i<?n. \<forall>x. in_region (part_addr ?b (int i)) 8 x \<longrightarrow> hp.stable lim ?s ?B x"
          by (auto simp: part_addr_def intro!: block_stable [of p l])
        show "\<forall>i<?n. load64 (ram ?s) (part_addr ?b (int i)) = ps ! i" using m(2) by (simp add: part_addr_def)
      qed (simp add: b_def)
      moreover have "4 \<le> unat l" using l len(1) by (cases ps) simp_all
      ultimately have "builder_ready lim B ss this ?b ?s"
        unfolding builder_ready_def using s(1) t(4) 2(4) list_all2_lengthD [OF texts]
        by - (rule exI [of _ l], rule exI [of _ n], simp add: b_def)
      moreover have "with_builder oob ps k h = k this ?b ?s"
        using t(1,2) 2(1) m(1) by (simp add: with_builder_def FastStringBuilder_new_def b_def)
      moreover have "unat (heapEnd ?s) \<le> unat (heapEnd h) + 16384" using 2(8) rz e2 by simp
      ultimately show thesis using kept by (intro that(2) [of this ?b ?s])
    qed
  qed
qed

lemma concat_no_zero:
  assumes "list_all2 (\<lambda>i str. part_holds b m i str \<and> Q i str) is ss"
  shows "0 \<notin> set (concat ss)"
  using assms by (induction rule: list_all2_induct) (auto simp: part_holds_def string_at_def)

text \<open>One case of the switch.\<close>

lemma print_built_effect:
  fixes s :: "'h heap_scheme" and c :: "'c console_scheme"
  assumes ready: "builder_ready lim B ss this b s" and ss: "ss \<noteq> []" "built_size ss \<le> 2 ^ 61"
    and room: "unat (heapEnd s) + 2 * round_page (unat (align16 (of_nat (built_size ss)))) \<le> lim"
  obtains "print_built out lits vargs this b (s, c) = Some (Inl (Panic ''Out of memory''))"
  | h' junk where "print_built out lits vargs this b (s, c) =
        bind_ro (out (concat ss @ junk) vargs c) (\<lambda>c. Some (Inr (h', c)))"
    and "heap_holds lim h' B" and "\<forall>x. hp.stable lim s B x \<longrightarrow> ram h' x = ram s x \<and> hp.stable lim h' B x"
proof -
  obtain l n where r: "heap_holds lim s (insert (parts b, l) (insert (this, n) B))" "this \<notin> fst ` B"
    "parts b \<notin> fst ` insert (this, n) B" "4 \<le> unat l" "outputBuf b = 0" "nParts b = int (length ss)"
    "list_all2 (\<lambda>i str. part_holds b (ram s) i str \<and>
       (\<forall>x. part_bytes b (ram s) i str x \<longrightarrow> hp.stable lim s (insert (parts b, l) (insert (this, n) B)) x))
       [0..nParts b - 1] ss"
    using ready unfolding builder_ready_def by blast
  let ?B = "insert (parts b, l) (insert (this, n) B)" and ?z = "of_nat (built_size ss) :: u64"
  have z: "unat ?z = built_size ss" using ss(2) by (intro unat_of_nat_small) simp
  have "0 < built_size ss" using ss(1) by (cases ss) (simp_all add: built_size_def)
  then have hr: "heap_room lim ?z s" using room ss(2) z by (simp add: heap_room_def)
  have np: "0 < nParts b" using r(6) ss(1) by simp
  note e = build_effect [OF r(1,5) np r(7) hr ss(2), of "lit_unable lits"]
  show thesis
  proof (cases "build (lit_unable lits) b s")
    case None
    with e show thesis by simp
  next
    case (Some res)
    show thesis
    proof (cases res)
      case (Inl err)
      with Some e show thesis by (intro that(1)) (simp add: print_built_def)
    next
      case (Inr q)
      obtain p b' t where q: "q = (p, b', t)" by (cases q) auto
      obtain k where t: "b' = b\<lparr>outputBuf := p, outputBufSize := ucast ?z\<rparr>" "bytes_at (ram t) p (length (concat ss)) = concat ss"
        "built_size ss \<le> unat k" "heap_holds lim t (insert (p, k) ?B)" "p \<notin> fst ` ?B"
        "\<forall>x. hp.stable lim s ?B x \<longrightarrow> ram t x = ram s x" "\<forall>C x. hp.stable lim s C x \<longrightarrow> hp.stable lim t C x" using e Some Inr q by auto
      have "list_all2 (\<lambda>i str. part_holds b (ram s) i str \<and> (\<forall>x. part_bytes b (ram s) i str x \<longrightarrow> hp.stable lim s ?B x)) (0 # [1..nParts b - 1]) ss"
        using r(7) np by (simp add: upto_rec1)
      then obtain str where str: "part_holds b (ram s) 0 str" "\<forall>x. part_bytes b (ram s) 0 str x \<longrightarrow> hp.stable lim s ?B x"
        by (auto simp: list_all2_Cons1)
      let ?x = "load64 (ram s) (part_addr b 0) + of_nat (length str)"
      have "ram s ?x = 0" using str(1) by (simp add: part_holds_def string_at_def)
      moreover have "hp.stable lim s ?B ?x"
        using str in_region_offset [of "length str" "Suc (length str)" "load64 (ram s) (part_addr b 0)"]
        by (auto simp: part_bytes_def part_holds_def)
      ultimately have "ram t ?x = 0" using t(6) by simp
      then obtain junk where "read_string (ram t) (p + of_nat (length (concat ss))) = Some junk"
        using read_string_returns by blast
      then have rs: "read_string (ram t) p = Some (concat ss @ junk)"
        using read_string_prefix [OF t(2) concat_no_zero [OF r(7)]] by simp
      have pb: "print_built out lits vargs this b (s, c) =
          bind_ro (out (concat ss @ junk) vargs c) (\<lambda>c. Some (Inr (delete_builder this b' t, c)))"
        using Some Inr q rs by (simp add: print_built_def)
      have b': "parts b' = parts b" "outputBuf b' = p" "unat (ucast (outputBufSize b') :: u64) \<le> unat k"
        using t(1) z le_trans [OF take_bit_nat_less_eq_self t(3)] by (simp_all add: unsigned_ucast_eq unsigned_take_bit_eq)
      note d = delete_builder_effect [of lim t b' k l this n B]
      show thesis
      proof (rule that(2) [OF pb])
        show "heap_holds lim (delete_builder this b' t) B"
          using d(1) t(4,5) r(2-4) b' by simp
        show "\<forall>x. hp.stable lim s B x \<longrightarrow> ram (delete_builder this b' t) x = ram s x \<and> hp.stable lim (delete_builder this b' t) B x"
        proof (intro allI impI)
          fix x assume x: "hp.stable lim s B x"
          then have "ram t x = ram s x" "hp.stable lim t B x" using t(6,7) stable_insert by blast+
          then show "ram (delete_builder this b' t) x = ram s x \<and> hp.stable lim (delete_builder this b' t) B x" using d(2) t(4,5) r(2-4) b' by simp
        qed
      qed
    qed
  qed
qed

section \<open>Properties\<close>

definition log_line :: "u8 list \<Rightarrow> u8 list \<Rightarrow> string \<Rightarrow> u8 list \<Rightarrow> u8 list list" where
  "log_line ns tg pre msg = [chars ''$c8['', ns, chars ''/'', tg, chars pre, msg, chars ''\<newline>'']"

definition target_print :: "LoggerTarget \<Rightarrow> u8 list \<Rightarrow> varg list \<Rightarrow> 'c console_scheme \<Rightarrow> 'c console_scheme res option" where
  "target_print tgt fmt vargs c = (case tgt of BOTH \<Rightarrow> kprintf_both fmt vargs c | SERIAL \<Rightarrow> kprintf_serial fmt vargs c
     | TERMINAL \<Rightarrow> kprintf fmt vargs c | NONE \<Rightarrow> Some (Inr c))"

lemma built_size_texts: "list_all2 (text_at lim h B) ps ss \<Longrightarrow> built_size ss \<le> length ss * 2 ^ 32"
  by (induction rule: list_all2_induct) (auto simp: built_size_def text_in_def)

lemma log_effect:
  fixes h :: "'h heap_scheme" and c :: "'c console_scheme"
  assumes "heap_holds lim h B" and "target lg \<noteq> NONE"
    and "(log, lit, pre) \<in> {(Logger_info, lit_inf lits, ''] $c7[INF]$cF ''), (Logger_warn, lit_wrn lits, ''] $cY[WRN]$cF ''),
      (Logger_error, lit_err lits, ''] $cR[ERR]$cF '')}"
    and "list_all2 (text_at lim h B) (log_pointers lits lg lit str) (log_line ns tg pre msg)"
    and "unat (heapEnd h) + 16384 + 2 * round_page (unat (align16 (of_nat (built_size (log_line ns tg pre msg))))) \<le> lim"
  shows "log lits lg str vargs (h, c) = Some (Inl (Panic ''Out of memory'')) \<or>
    (\<exists>h' junk. log lits lg str vargs (h, c) =
        bind_ro (target_print (target lg) (concat (log_line ns tg pre msg) @ junk) vargs c) (\<lambda>c. Some (Inr (h', c))) \<and>
      heap_holds lim h' B \<and> (\<forall>x. hp.stable lim h B x \<longrightarrow> ram h' x = ram h x \<and> hp.stable lim h' B x))"
proof -
  let ?ss = "log_line ns tg pre msg" and ?ps = "log_pointers lits lg lit str"
  define k where "k = (\<lambda>this b (h :: 'h heap_scheme). case target lg of
         BOTH \<Rightarrow> print_built kprintf_both lits vargs this b (h, c)
       | SERIAL \<Rightarrow> print_built kprintf_serial lits vargs this b (h, c)
       | TERMINAL \<Rightarrow> print_built kprintf lits vargs this b (h, c)
       | NONE \<Rightarrow> Some (Inr (delete_builder this b h, c)))"
  have log: "log lits lg str vargs (h, c) = with_builder (lit_oob lits) ?ps k h"
  proof -
    have "log lits lg = internal_log lits lg lit"
      using assms(3) unfolding insert_iff prod.inject empty_iff
      by (elim disjE conjE) (simp_all only: Logger_info_def Logger_warn_def Logger_error_def)
    then show ?thesis by (simp only: internal_log_with_builder k_def)
  qed
  have k: "k this b s = print_built (target_print (target lg)) lits vargs this b (s, c)" for this b s
    using assms(2) by (cases "target lg") (simp_all add: k_def target_print_def [abs_def])
  have len: "length ?ps = 7" "length ?ss = 7" "?ss \<noteq> []" by (simp_all add: log_pointers_def log_line_def)
  have size: "built_size ?ss \<le> 2 ^ 61" using built_size_texts [OF assms(4)] len by simp
  show ?thesis
  proof (rule with_builder_effect [where oob = "lit_oob lits" and k = k, OF assms(1,4)])
    show "0 < length ?ps" "length ?ps \<le> 32" "unat (heapEnd h) + 16384 \<le> lim" using len assms(5) by simp_all
  next
    assume "with_builder (lit_oob lits) ?ps k h = Some (Inl (Panic ''Out of memory''))"
    then show ?thesis by (simp add: log)
  next
    fix this b and s :: "'h heap_scheme"
    assume s: "with_builder (lit_oob lits) ?ps k h = k this b s" "builder_ready lim B ?ss this b s"
      "\<forall>x. hp.stable lim h B x \<longrightarrow> ram s x = ram h x \<and> hp.stable lim s B x" "unat (heapEnd s) \<le> unat (heapEnd h) + 16384"
    have room: "unat (heapEnd s) + 2 * round_page (unat (align16 (of_nat (built_size ?ss)))) \<le> lim" using s(4) assms(5) by simp
    show ?thesis
      unfolding log s(1) k
    proof (rule print_built_effect [OF s(2) len(3) size room, of "target_print (target lg)" lits vargs c], goal_cases)
      case 1
      then show ?case ..
    next
      case (2 h' junk)
      moreover have "\<forall>x. hp.stable lim h B x \<longrightarrow> ram h' x = ram h x \<and> hp.stable lim h' B x" using s(3) 2(3) by simp
      ultimately show ?case by (intro disjI2 exI [of _ h'] exI [of _ junk] conjI)
    qed
  qed
qed

text \<open>C32: a call of \<open>info\<close>, \<open>warn\<close> or \<open>error\<close> on a logger with a target halts for lack of frames or prints, with the
  given arguments, the format made of the prefix, the name space, the tag, the level, the message and a new
  line, followed by whatever characters lie behind it, since the builder writes no terminator. It leaks nothing: when
  the call returns, exactly the blocks of before are allocated, and every byte the caller relies on is kept.\<close>

theorem logger_prints_and_frees:
  fixes h :: "'h heap_scheme" and c :: "'c console_scheme"
  assumes "heap_holds lim h B" and "target lg \<noteq> NONE"
    and "(log, lit, pre) \<in> {(Logger_info, lit_inf lits, ''] $c7[INF]$cF ''), (Logger_warn, lit_wrn lits, ''] $cY[WRN]$cF ''),
      (Logger_error, lit_err lits, ''] $cR[ERR]$cF '')}"
    and "list_all2 (text_at lim h B) (log_pointers lits lg lit str) (log_line ns tg pre msg)"
    and "unat (heapEnd h) + 16384 + 2 * round_page (unat (align16 (of_nat (built_size (log_line ns tg pre msg))))) \<le> lim"
  shows "log lits lg str vargs (h, c) = Some (Inl (Panic ''Out of memory'')) \<or>
    (\<exists>h' junk. log lits lg str vargs (h, c) =
        bind_ro (target_print (target lg) (concat (log_line ns tg pre msg) @ junk) vargs c) (\<lambda>c. Some (Inr (h', c))) \<and>
      heap_holds lim h' B \<and> (\<forall>x. hp.stable lim h B x \<longrightarrow> ram h' x = ram h x))"
  using log_effect [OF assms, of vargs c] by blast

theorem logger_prints_and_frees_witness:
  "\<exists>(h :: heap) lits lg str. heap_holds 0x900000 h {(0x80001d, 112)} \<and>
     (Logger_info lits lg str [] (h, console_example) = Some (Inl (Panic ''Out of memory'')) \<or>
      (\<exists>h' junk. Logger_info lits lg str [] (h, console_example) =
          bind_ro (kprintf_serial (chars ''$c8[k/m] $c7[INF]$cF up\<newline>'' @ junk) [] console_example) (\<lambda>c. Some (Inr (h', c))) \<and>
        heap_holds 0x900000 h' {(0x80001d, 112)}))"
proof -
  let ?ss = "[Seg 0x800000 112 False, Seg 0x80008d 3926 True]" and ?B = "{(0x80001d, 112)} :: (u64 \<times> u64) set"
  obtain t u where "initHeap 0x800000 1 heap_example = Inr t" "malloc 100 t = Some (Inr (0x80001d, u))"
    and u: "heap_sys 0x900000 u ?ss" by (rule heap_example_malloc)
  define bs where "bs = chars ''$c8['' @ 0 # chars ''/'' @ 0 # chars ''\<newline>'' @ 0 # chars ''] $c7[INF]$cF '' @
    0 # chars ''k'' @ 0 # chars ''m'' @ 0 # chars ''up'' @ [0]"
  define m where "m = put_bytes (ram u) 0x80001d bs"
  define h where "h = u\<lparr>ram := m\<rparr>"
  let ?lits = "\<lparr>lit_open = 0x80001d, lit_slash = 0x800022, lit_newline = 0x800024, lit_inf = 0x800026, lit_wrn = 0, lit_err = 0,
    lit_oob = 0, lit_unable = 0\<rparr>" and ?lg = "\<lparr>tag = 0x800037, nspace = 0x800035, target = SERIAL\<rparr>"
  have "blocks ?ss = ?B" by simp
  then have hu: "heap_holds 0x900000 u ?B" using u unfolding heap_holds_def by blast
  have bl: "length bs = 31" by (simp add: bs_def chars_def)
  have hh: "heap_holds 0x900000 h ?B"
    unfolding h_def
  proof (rule payload_update [OF hu, of "0x80001d" 112])
    fix x :: u64 assume "\<not> in_region 0x80001d (unat (112 :: u64)) x"
    then show "m x = ram u x" unfolding m_def
      using put_bytes_frame [of bs 0 31 "0x80001d" x "ram u"] bl in_region_mono [of "0x80001d" 31 x 112] by auto
  qed simp
  have tx: "text_at 0x900000 h ?B p str"
    if "string_at m p str" "Suc (length str) < 32" "0x80001d \<le> unat p" "unat p + Suc (length str) \<le> 0x80008d" for p str
  proof -
    have "in_region 0x80001d 112 x" if "in_region p (Suc (length str)) x" for x
      using that \<open>0x80001d \<le> unat p\<close> \<open>unat p + Suc (length str) \<le> 0x80008d\<close> by (auto simp: in_region_no_wrap)
    then show ?thesis using that by (auto simp: text_in_def h_def hp.stable_def)
  qed
  have texts: "list_all2 (text_at 0x900000 h ?B) (log_pointers ?lits ?lg 0x800026 0x800039)
      (log_line (chars ''k'') (chars ''m'') ''] $c7[INF]$cF '' (chars ''up''))"
    unfolding log_pointers_def log_line_def
    by (simp only: list_all2_Cons list.rel_inject simp_thms log_literals.simps Logger.simps, intro conjI tx)
      (simp_all add: m_def bs_def chars_def)
  have "heap_ok u ?ss" using u by (simp add: heap_sys_def heap_inv_def)
  then have "unat (heapEnd h) = 0x801000" using last_seg_end [of u ?ss] by (simp add: h_def)
  then have room: "unat (heapEnd h) + 16384 + 2 * round_page (unat (align16 (of_nat (built_size
      (log_line (chars ''k'') (chars ''m'') ''] $c7[INF]$cF '' (chars ''up'')))))) \<le> 0x900000"
    by (simp add: align16_def round_page_def built_size_def log_line_def chars_def)
  have line: "concat (log_line (chars ''k'') (chars ''m'') ''] $c7[INF]$cF '' (chars ''up'')) = chars ''$c8[k/m] $c7[INF]$cF up\<newline>''"
    by (simp add: log_line_def chars_def)
  from logger_prints_and_frees [OF hh _ _ texts room, where log = Logger_info and vargs = "[]" and c = console_example] hh
  show ?thesis unfolding line
    by (intro exI [of _ h] exI [of _ ?lits] exI [of _ ?lg] exI [of _ "0x800039"]) (auto simp: target_print_def)
qed

end
