(* ===== verification/Console_Trace.thy ===== *)
theory Console_Trace
  imports Console_Props
begin

text \<open>
  What holds of printing in every state: if it ends, writes to ports have only been added to, and the only error
  is a conversion without its argument. \<open>run_ok N E Q\<close> speaks about a run that ends unless \<open>N\<close>: its errors
  satisfy \<open>E\<close> and its results \<open>Q\<close>.
\<close>

definition run_ok :: "bool \<Rightarrow> (kerror \<Rightarrow> bool) \<Rightarrow> ('a \<Rightarrow> bool) \<Rightarrow> 'a res option \<Rightarrow> bool" where
  "run_ok N E Q r \<longleftrightarrow> (case r of None \<Rightarrow> N | Some (Inl e) \<Rightarrow> E e | Some (Inr x) \<Rightarrow> Q x)"

lemma run_ok_simps [simp]:
  "run_ok N E Q None = N" "run_ok N E Q (Some (Inl e)) = E e" "run_ok N E Q (Some (Inr x)) = Q x"
  by (simp_all add: run_ok_def)

lemma run_ok_bind:
  assumes "run_ok N E Q r" and "\<And>x. Q x \<Longrightarrow> run_ok N E R (k x)"
  shows "run_ok N E R (bind_ro r k)"
  using assms by (auto simp: bind_ro_def run_ok_def [of N E Q] split: option.splits sum.splits)

lemma run_ok_if: "run_ok N E Q r \<Longrightarrow> run_ok N E Q t \<Longrightarrow> run_ok N E Q (if c then r else t)"
  by simp

lemma run_ok_mono: "run_ok N E Q r \<Longrightarrow> (N \<Longrightarrow> M) \<Longrightarrow> (\<And>e. E e \<Longrightarrow> F e) \<Longrightarrow> (\<And>x. Q x \<Longrightarrow> R x) \<Longrightarrow> run_ok M F R r"
  by (auto simp: run_ok_def split: option.splits sum.splits)

lemma run_ok_map: "(\<And>x. r = Some x \<Longrightarrow> Q (f x)) \<Longrightarrow> run_ok True E Q (map_option (\<lambda>x. Inr (f x)) r)"
  by (cases r) simp_all

definition trace_grows :: "'z ports_scheme \<Rightarrow> 'z ports_scheme \<Rightarrow> bool" where
  "trace_grows s t \<longleftrightarrow> (\<exists>rest. port_out t = port_out s @ rest)"

lemma trace_grows_refl: "trace_grows s s"
  by (simp add: trace_grows_def)

lemma trace_grows_trans: "trace_grows s t \<Longrightarrow> trace_grows t u \<Longrightarrow> trace_grows s u"
  by (auto simp: trace_grows_def)

lemma trace_grows_eq: "port_out t = port_out s \<Longrightarrow> trace_grows s t"
  by (simp add: trace_grows_def)

lemma wait_transmit_trace:
  fixes s :: "'z ports_scheme"
  assumes "wait_transmit s = Some t"
  shows "port_out t = port_out s"
proof (rule wait_transmit.raw_induct [where P = "\<lambda>s t. port_out t = port_out s", OF _ assms])
  fix f :: "'z ports_scheme \<Rightarrow> 'z ports_scheme option" and s t
  assume IH: "\<And>s t. f s = Some t \<Longrightarrow> port_out t = port_out s"
    and "(let (v, s) = is_transmit_empty s in if v = 0 then f s else Some s) = Some t"
  then show "port_out t = port_out s" by (auto simp: is_transmit_empty_def inb_def Let_def split: if_splits dest!: IH)
qed

lemma serial_write_trace: "serial_write c s = Some t \<Longrightarrow> trace_grows s t"
  by (auto simp: serial_write_def outb_def trace_grows_def dest: wait_transmit_trace)

lemma put_char_trace:
  fixes s :: "'z console_scheme"
  assumes "\<And>s t. tw c s = Some t \<Longrightarrow> trace_grows s t" and "put_char tw c serial terminal s = Some t"
  shows "trace_grows s t"
  using assms(2) by (auto simp: put_char_def Option.bind_eq_Some_conv split: if_splits
      intro: trace_grows_refl assms(1) serial_write_trace trace_grows_trans)

lemma set_color_port_out: "port_out (set_color c s) = port_out s"
  by (simp add: set_color_def)

lemma writeChar_via_trace:
  fixes s :: "'z console_scheme"
  assumes "\<And>s t. tw c s = Some t \<Longrightarrow> trace_grows s t" and "writeChar_via tw c serial terminal s = Some t"
  shows "trace_grows s t"
  using assms(2) by (auto simp: writeChar_via_def set_color_port_out split: if_splits
      intro: trace_grows_eq put_char_trace [of tw c, OF assms(1)])

lemma write_plain_trace: "write_plain cs s = Some t \<Longrightarrow> trace_grows s t"
proof (induction cs arbitrary: s)
  case (Cons c cs)
  then obtain u where "writeChar_via (\<lambda>_ _. None) c True False s = Some u" "write_plain cs u = Some t"
    by (auto simp: Option.bind_eq_Some_conv)
  then show ?case using Cons.IH writeChar_via_trace [of "\<lambda>_ _. None" c True False s u] trace_grows_trans by auto
qed (simp add: trace_grows_refl)

lemma writechar_trace:
  fixes s :: "'z console_scheme"
  assumes "writechar c s = Some t"
  shows "trace_grows s t"
proof -
  define s1 where "s1 = (if sint c > 31 then drawChar c (charX s * 8) (charY s * 16) (fgColor s) s else s)"
  have "port_out s1 = port_out s"
    using drawChar_vram [of c "charX s * 8" "charY s * 16" "fgColor s" s] by (auto simp: s1_def)
  moreover have "trace_grows s1 t"
    using assms unfolding writechar_def s1_def [symmetric]
    by (auto simp: Let_def Option.bind_eq_Some_conv trace_grows_def split: if_splits dest!: write_plain_trace)
  ultimately show ?thesis by (simp add: trace_grows_def)
qed

lemma writeChar_trace: "writeChar c serial terminal s = Some t \<Longrightarrow> trace_grows s t"
  unfolding writeChar_def by (rule writeChar_via_trace [OF writechar_trace])

lemma write_str_trace:
  fixes s :: "'z console_scheme"
  assumes "write_str serial terminal str s = Some t"
  shows "trace_grows s t"
proof (rule write_str.raw_induct [where P = "\<lambda>serial terminal str s t. trace_grows s t", OF _ assms], goal_cases)
  case (1 f serial terminal str s t)
  show ?case
  proof (cases str)
    case Nil
    then show ?thesis using 1(2) by (simp add: trace_grows_refl)
  next
    case (Cons c cs)
    consider v where "f serial terminal (c # cs) v = Some t" "port_out v = port_out s"
      | u where "put_char writechar c serial terminal s = Some u" "f serial terminal cs u = Some t"
      using 1(2) Cons by (auto simp: Option.bind_eq_Some_conv set_color_port_out split: if_splits)
    then show ?thesis
    proof cases
      case 1
      then show ?thesis using \<open>\<And>serial terminal str s t. f serial terminal str s = Some t \<Longrightarrow> trace_grows s t\<close> [OF 1(1)]
        by (simp add: trace_grows_def)
    next
      case 2
      then show ?thesis using \<open>\<And>serial terminal str s t. f serial terminal str s = Some t \<Longrightarrow> trace_grows s t\<close> [OF 2(2)]
        put_char_trace [of writechar c serial terminal s u] writechar_trace trace_grows_trans by blast
    qed
  qed
qed

definition no_argument :: "kerror \<Rightarrow> bool" where
  "no_argument e \<longleftrightarrow> e = Undefined ''va_arg''"

lemma no_argument_va_arg [simp]: "no_argument (Undefined ''va_arg'')"
  by (simp add: no_argument_def)

lemma run_ok_take_num:
  assumes "\<And>vs x. run_ok True no_argument Q (k vs x)"
  shows "run_ok True no_argument Q (take_num vargs f k)"
  using assms by (auto simp: take_num_def split: list.split varg.split Option.bind_split)

lemma format_spec_run:
  fixes s :: "'z console_scheme"
  shows "run_ok True no_argument (\<lambda>(vs, t). trace_grows s t) (format_spec c serial terminal vargs s)"
proof -
  let ?Q = "\<lambda>(vs, t). trace_grows s t"
  have out: "run_ok True no_argument ?Q (map_option (\<lambda>s. Inr (vs, s)) (write_str serial terminal str s))" for vs :: "varg list" and str
    by (rule run_ok_map) (simp add: write_str_trace)
  have ch: "run_ok True no_argument ?Q (map_option (\<lambda>s. Inr (vs, s)) (writeChar d serial terminal s))" for vs :: "varg list" and d
    by (rule run_ok_map) (simp add: writeChar_trace)
  have str: "run_ok True no_argument ?Q (case vargs of VStr str # vargs \<Rightarrow> map_option (\<lambda>s. Inr (vargs, s)) (write_str serial terminal str s)
      | _ \<Rightarrow> Some (Inl (Undefined ''va_arg'')))"
    using out by (auto split: list.split varg.split)
  show ?thesis
    unfolding format_spec_def Let_def
    by (intro run_ok_if run_ok_take_num out ch str) (simp add: trace_grows_refl)
qed

lemma kprintf_loop_run:
  fixes s :: "'z console_scheme"
  shows "run_ok True no_argument (trace_grows s) (kprintf_loop serial terminal spec fmt vargs s)"
proof (induction fmt arbitrary: spec vargs s)
  case Nil
  then show ?case by (simp add: trace_grows_refl)
next
  case (Cons c cs)
  have later: "run_ok True no_argument (trace_grows s) (kprintf_loop serial terminal False cs vs t)" if "trace_grows s t" for vs t
    by (rule run_ok_mono [OF Cons.IH]) (simp_all add: trace_grows_trans [OF that])
  have spec: "run_ok True no_argument (trace_grows s) (Option.bind (format_spec c serial terminal vargs s) (\<lambda>r. case r of
            Inl e \<Rightarrow> Some (Inl e) | Inr (vargs, s) \<Rightarrow> kprintf_loop serial terminal False cs vargs s))"
    unfolding bind_ro_def [symmetric] by (rule run_ok_bind [OF format_spec_run]) (use later in auto)
  have plain: "run_ok True no_argument (trace_grows s) (Option.bind (writeChar c serial terminal s) (kprintf_loop serial terminal False cs vargs))"
    by (cases "writeChar c serial terminal s") (simp_all add: later writeChar_trace)
  show ?case unfolding kprintf_loop.simps(2) by (intro run_ok_if Cons.IH spec plain)
qed

lemmas kprintf_run = kprintf_loop_run [of _ False True False, folded kprintf_def]
  kprintf_loop_run [of _ True True False, folded kprintf_both_def] kprintf_loop_run [of _ True False False, folded kprintf_serial_def]

end
