(* ===== verification/Acpi_Init.thy ===== *)
theory Acpi_Init
  imports Acpi_Props Logger_Props Console_Trace
begin

text \<open>
  The whole of ACPI start-up: the log calls, the search for the table and the switch to ACPI mode are steps on heap and
  console that keep what their caller relies on, so that the tables read at the end are those of the start.
\<close>

section \<open>Steps\<close>

definition log_kept :: "nat \<Rightarrow> (u64 \<times> u64) set \<Rightarrow> nat \<Rightarrow> 'h heap_scheme \<times> 'c console_scheme \<Rightarrow> 'h heap_scheme \<times> 'c console_scheme \<Rightarrow> bool" where
  "log_kept lim B n s t \<longleftrightarrow> heap_holds lim (fst t) B \<and> unat (heapEnd (fst t)) \<le> unat (heapEnd (fst s)) + n \<and>
     (\<forall>x. hp.stable lim (fst s) B x \<longrightarrow> ram (fst t) x = ram (fst s) x \<and> hp.stable lim (fst t) B x) \<and> trace_grows (snd s) (snd t)"

lemma log_kept_trans:
  assumes "log_kept lim B n s t" and "log_kept lim B k t u"
  shows "log_kept lim B (n + k) s u"
  using assms trace_grows_trans [of "snd s" "snd t" "snd u"] by (auto simp: log_kept_def)

lemma log_kept_refl: "heap_holds lim h B \<Longrightarrow> log_kept lim B 0 (h, c) (h, c)"
  by (simp add: log_kept_def trace_grows_refl)

lemma log_kept_keeps:
  "log_kept lim B n s t \<Longrightarrow> keeps (hp.stable lim (fst s) B) (ram (fst s)) (hp.stable lim (fst t) B) (ram (fst t))"
  by (simp add: log_kept_def keeps_def)

definition log_words :: "(u64 \<Rightarrow> bool) \<Rightarrow> mem \<Rightarrow> log_literals \<Rightarrow> Logger \<Rightarrow> u64 \<Rightarrow> string \<Rightarrow> u64 \<Rightarrow> u8 list list \<Rightarrow> bool" where
  "log_words S m lits lg lit pre str ss \<longleftrightarrow> list_all2 (text_in S m) (log_pointers lits lg lit str) ss \<and>
     (\<exists>ns tg msg. ss = log_line ns tg pre msg) \<and> built_size ss \<le> 4096"

abbreviation log_text :: "nat \<Rightarrow> (u64 \<times> u64) set \<Rightarrow> log_literals \<Rightarrow> Logger \<Rightarrow> u64 \<Rightarrow> string \<Rightarrow> u64 \<Rightarrow> u8 list list \<Rightarrow> 'h heap_scheme \<Rightarrow> bool" where
  "log_text lim B lits lg lit pre str ss h \<equiv> log_words (hp.stable lim h B) (ram h) lits lg lit pre str ss"

lemma log_words_keeps: "keeps S m S' m' \<Longrightarrow> log_words S m lits lg lit pre str ss \<Longrightarrow> log_words S' m' lits lg lit pre str ss"
  unfolding log_words_def using text_in_keeps by (elim conjE) (intro conjI, erule list_all2_mono, blast+)

lemmas log_text_kept = log_words_keeps [OF log_kept_keeps]

lemma text_at_shrink: "text_at lim h B p str \<Longrightarrow> l \<le> lim \<Longrightarrow> text_at l h B p str"
  unfolding text_in_def hp.stable_def outer_def by (meson le_trans)

lemma target_print_run: "run_ok True no_argument (trace_grows c) (target_print tgt fmt vargs c)"
  by (cases tgt) (simp_all add: target_print_def kprintf_run trace_grows_refl)

definition log_error :: "kerror \<Rightarrow> bool" where
  "log_error e \<longleftrightarrow> e = Panic ''Out of memory'' \<or> no_argument e"

lemma log_step:
  fixes h :: "'h heap_scheme" and c :: "'c console_scheme"
  assumes h: "heap_holds lim h B" and tgt: "target lg \<noteq> NONE"
    and log: "(log, lit, pre) \<in> {(Logger_info, lit_inf lits, ''] $c7[INF]$cF ''), (Logger_warn, lit_wrn lits, ''] $cY[WRN]$cF ''),
      (Logger_error, lit_err lits, ''] $cR[ERR]$cF '')}"
    and words: "log_text lim B lits lg lit pre str ss h" and room: "unat (heapEnd h) + 24576 \<le> lim"
  shows "run_ok True log_error (log_kept lim B 24576 (h, c)) (log lits lg str vargs (h, c))"
proof -
  obtain ns tg msg where ss: "ss = log_line ns tg pre msg" and texts: "list_all2 (text_at lim h B) (log_pointers lits lg lit str) ss"
    and size: "built_size ss \<le> 4096" using words unfolding log_words_def by blast
  define l where "l = unat (heapEnd h) + 24576"
  have "unat (of_nat (built_size ss) :: u64) = built_size ss" using size by (intro unat_of_nat_small) simp
  then have "unat (align16 (of_nat (built_size ss))) \<le> 4096" using size align16(1) [of "of_nat (built_size ss)"] by simp
  then have rp: "2 * round_page (unat (align16 (of_nat (built_size ss)))) \<le> 8192" by (simp add: round_page_def)
  obtain segs where segs: "heap_sys lim h segs" "blocks segs = B" using h by (auto simp: heap_holds_def)
  have "heap_sys l h segs" by (rule heap_sys_shrink [OF segs(1)]) (use room in \<open>simp_all add: l_def\<close>)
  then have hl: "heap_holds l h B" using segs(2) by (auto simp: heap_holds_def)
  have "list_all2 (text_at l h B) (log_pointers lits lg lit str) ss"
    using texts text_at_shrink room by (auto simp: l_def elim!: list_all2_mono)
  note lt = this [unfolded ss]
  have room2: "unat (heapEnd h) + 16384 + 2 * round_page (unat (align16 (of_nat (built_size (log_line ns tg pre msg))))) \<le> l" "l \<le> lim"
    using rp room unfolding ss l_def by simp_all
  note small = log_effect [OF hl tgt log lt room2(1), of vargs c]
    and big = log_effect [OF h tgt log texts [unfolded ss] order_trans [OF room2], of vargs c]
  consider "log lits lg str vargs (h, c) = Some (Inl (Panic ''Out of memory''))"
    | h1 fmt1 h2 fmt2 where "log lits lg str vargs (h, c) = bind_ro (target_print (target lg) fmt1 vargs c) (\<lambda>c. Some (Inr (h1, c)))"
      "log lits lg str vargs (h, c) = bind_ro (target_print (target lg) fmt2 vargs c) (\<lambda>c. Some (Inr (h2, c)))"
      "heap_holds lim h1 B" "\<forall>x. hp.stable lim h B x \<longrightarrow> ram h1 x = ram h x \<and> hp.stable lim h1 B x" "heap_holds l h2 B"
    using small big by blast
  then show ?thesis
  proof cases
    case 1
    then show ?thesis by (simp add: log_error_def)
  next
    case 2
    have fst_eq: "h' = k" if "bind_ro r (\<lambda>c. Some (Inr (k, c))) = Some (Inr (h', c'))" for r :: "'c console_scheme res option" and k h' c'
      using that by (cases r) (auto simp: bind_ro_def split: sum.splits)
    have same: "h1 = h2" if "log lits lg str vargs (h, c) = Some (Inr (h', c'))" for h' c'
      using fst_eq [OF that [unfolded 2(1)]] fst_eq [OF that [unfolded 2(2)]] by simp
    have he: "unat (heapEnd h2) \<le> unat (heapEnd h) + 24576"
      using 2(5) by (auto simp: heap_holds_def heap_sys_def heap_env_def l_def)
    have print: "run_ok True log_error (trace_grows c) (target_print (target lg) fmt1 vargs c)"
      using target_print_run [of c "target lg" fmt1 vargs] trace_grows_refl [of c]
      by (auto simp: run_ok_def log_error_def split: option.splits sum.splits)
    have run: "run_ok True log_error (\<lambda>(h', c'). h' = h1 \<and> trace_grows c c') (log lits lg str vargs (h, c))"
      unfolding 2(1) by (rule run_ok_bind [OF print]) simp
    show ?thesis
      using run same he 2(3,4) by (auto simp: run_ok_def log_kept_def split: option.splits sum.splits)
  qed
qed

section \<open>The search\<close>

lemma stable_no_paging:
  assumes "heap_holds lim h B" and "hp.stable lim h B x"
  shows "\<not> paging_area (globalPageTable h) h x"
proof -
  obtain ss where ok: "heap_ok h ss" and env: "heap_env lim h" and B: "blocks ss = B"
    using assms(1) by (auto simp: heap_holds_def heap_sys_def heap_inv_def)
  consider "outer lim h x" | q l where "(q, l) \<in> B" "in_region q (unat l) x" using assms(2) by (auto simp: hp.stable_def)
  then show ?thesis
  proof cases
    case 1
    then show ?thesis by (simp add: outer_def)
  next
    case (2 q l)
    then obtain u where "u \<in> set ss" "in_payload u x" using blocksE [OF ok, of q l] B by metis
    then have "unat (heapStart h) \<le> unat x" "unat x < lim"
      using heap_ok_bounds [OF ok] env by (force simp: in_payload_def heap_env_def)+
    then show ?thesis using env by (auto simp: heap_env_def)
  qed
qed

text \<open>Mapping pages leaves the heap as it is.\<close>

lemma kept_outside_heap:
  assumes h: "heap_holds lim h B" and k: "kept_outside (globalPageTable h) h t"
  shows "log_kept lim B 0 (h, c) (t, c)"
proof -
  obtain ss where ok: "heap_ok h ss" and env: "heap_env lim h" and adj: "no_adjacent_free ss" and B: "blocks ss = B"
    using h by (auto simp: heap_holds_def heap_sys_def heap_inv_def)
  have more: "globalPageTable t = globalPageTable h" "heapStart t = heapStart h" "heapEnd t = heapEnd h" "LastHdr t = LastHdr h"
    using heap_more [of t h] k by (simp_all add: kept_outside_def)
  have out: "ram t x = ram h x" "\<not> paging_area (globalPageTable h) t x" if "\<not> paging_area (globalPageTable h) h x" for x
    using k that by (simp_all add: kept_outside_def)
  have "ram t x = ram h x" if "u \<in> set ss" "in_region (sg_addr u) 29 x" for u x
  proof -
    have "unat (heapStart h) \<le> unat x" "unat x < lim"
      using heap_ok_bounds [OF ok that(1)] that(2) env by (simp_all add: hdr_range heap_env_def)
    then show ?thesis using env by (intro out(1)) (auto simp: heap_env_def)
  qed
  then have "chain (ram t) 0 ss 0 = chain (ram h) 0 ss 0" by (intro chain_cong) blast
  with ok more have "heap_ok t ss" by (simp add: heap_ok_def)
  moreover have "paging_inv (globalPageTable h) t" using k by (simp add: kept_outside_def)
  then have "heap_env lim t" using env out(2) unfolding heap_env_def more by blast
  ultimately have "heap_holds lim t B" using adj B by (auto simp: heap_holds_def heap_sys_def heap_inv_def)
  moreover have "ram t x = ram h x \<and> hp.stable lim t B x" if "hp.stable lim h B x" for x
    using that out [OF stable_no_paging [OF h that]] by (auto simp: hp.stable_def outer_def more)
  ultimately show ?thesis by (simp add: log_kept_def more trace_grows_refl)
qed

definition relied_in :: "(u64 \<Rightarrow> bool) \<Rightarrow> u64 \<Rightarrow> nat \<Rightarrow> bool" where
  "relied_in S a n \<longleftrightarrow> (\<forall>x. in_region a n x \<longrightarrow> S x)"

abbreviation relied :: "nat \<Rightarrow> (u64 \<times> u64) set \<Rightarrow> 'h heap_scheme \<Rightarrow> u64 \<Rightarrow> nat \<Rightarrow> bool" where
  "relied lim B h \<equiv> relied_in (hp.stable lim h B)"

lemma relied_clear: "heap_holds lim h B \<Longrightarrow> relied lim B h a n \<Longrightarrow> clear (globalPageTable h) h a n"
  by (simp add: relied_in_def clear_def stable_no_paging)

lemma relied_in_keeps:
  assumes "keeps S m S' m'" and "relied_in S a n"
  shows "relied_in S' a n" and "n \<le> 2 ^ 64 \<Longrightarrow> bytes_at m' a n = bytes_at m a n"
    and "n = 4 \<Longrightarrow> load32 m' a = load32 m a" and "n = 8 \<Longrightarrow> load64 m' a = load64 m a"
proof -
  have k: "m' x = m x" "S' x" if "in_region a n x" for x
    using assms that by (auto simp: keeps_def relied_in_def)
  show "relied_in S' a n" using k(2) by (simp add: relied_in_def)
  show "bytes_at m' a n = bytes_at m a n" if "n \<le> 2 ^ 64"
    unfolding bytes_at_def using k(1) in_region_offset [OF _ that] by (intro map_cong) auto
  show "load32 m' a = load32 m a" if "n = 4" using k(1) that by (intro c32.load_cong) simp
  show "load64 m' a = load64 m a" if "n = 8" using k(1) that by (intro c64.load_cong) simp
qed

lemmas relied_kept = relied_in_keeps [OF log_kept_keeps]

text \<open>What the search and the switch read: the literal, the length of the root table, its entries, and in every table
  the signature, the command port (4 bytes at 48) and the command (1 byte at 52).\<close>

definition entry_relied_in :: "(u64 \<Rightarrow> bool) \<Rightarrow> mem \<Rightarrow> u64 \<Rightarrow> nat \<Rightarrow> bool" where
  "entry_relied_in S m rsdt i \<longleftrightarrow> relied_in S (rsdt + of_nat (36 + 4 * i)) 4 \<and> relied_in S (other_SDT m rsdt i) 4 \<and>
     relied_in S (other_SDT m rsdt i + 48) 4 \<and> relied_in S (other_SDT m rsdt i + 52) 1"

definition acpi_tables_in :: "(u64 \<Rightarrow> bool) \<Rightarrow> mem \<Rightarrow> u64 \<Rightarrow> u64 \<Rightarrow> bool" where
  "acpi_tables_in S m lit rsdt \<longleftrightarrow> relied_in S lit 4 \<and> bytes_at m lit 4 = chars ''FACP'' \<and> relied_in S (rsdt + 4) 4 \<and>
     (\<forall>i<(unat (table_Length m rsdt) - 36) div 4. entry_relied_in S m rsdt i)"

abbreviation acpi_tables :: "nat \<Rightarrow> (u64 \<times> u64) set \<Rightarrow> u64 \<Rightarrow> u64 \<Rightarrow> 'h heap_scheme \<Rightarrow> bool" where
  "acpi_tables lim B lit rsdt h \<equiv> acpi_tables_in (hp.stable lim h B) (ram h) lit rsdt"

definition the_FACP :: "mem \<Rightarrow> u64 \<Rightarrow> u64 option" where
  "the_FACP m rsdt = first_FACP m (tables_of m rsdt)"

text \<open>The write that switches to ACPI mode.\<close>

definition enable_write :: "mem \<Rightarrow> u64 \<Rightarrow> u16 \<times> u8" where
  "enable_write m facp = (ucast (load32 m (facp + 48)), m (facp + 52))"

lemma entry_relied_keeps:
  assumes k: "keeps S m S' m'" and e: "entry_relied_in S m rsdt i"
  shows "other_SDT m' rsdt i = other_SDT m rsdt i" and "entry_relied_in S' m' rsdt i"
    and "bytes_at m' (other_SDT m rsdt i) 4 = bytes_at m (other_SDT m rsdt i) 4"
    and "enable_write m' (other_SDT m rsdt i) = enable_write m (other_SDT m rsdt i)"
proof -
  let ?p = "other_SDT m rsdt i"
  note r = e [unfolded entry_relied_in_def]
  show same: "other_SDT m' rsdt i = ?p"
    using relied_in_keeps(3) [OF k, of "rsdt + of_nat (36 + 4 * i)"] r by (simp add: other_SDT_def table_offsets)
  show "entry_relied_in S' m' rsdt i" using relied_in_keeps(1) [OF k] r by (simp add: entry_relied_in_def same)
  show "bytes_at m' ?p 4 = bytes_at m ?p 4" using relied_in_keeps(2) [OF k] r by simp
  have "S (?p + 52)" using r by (simp add: relied_in_def in_region_def)
  then show "enable_write m' ?p = enable_write m ?p"
    using relied_in_keeps(3) [OF k, of "?p + 48"] r k by (simp add: enable_write_def keeps_def)
qed

lemma acpi_tables_keeps:
  assumes k: "keeps S m S' m'" and a: "acpi_tables_in S m lit rsdt"
  shows "acpi_tables_in S' m' lit rsdt" and "the_FACP m' rsdt = the_FACP m rsdt"
    and "the_FACP m rsdt = Some p \<Longrightarrow> enable_write m' p = enable_write m p"
proof -
  let ?n = "(unat (table_Length m rsdt) - 36) div 4"
  have len: "table_Length m' rsdt = table_Length m rsdt"
    using relied_in_keeps(3) [OF k, of "rsdt + 4"] a by (simp add: acpi_tables_in_def table_Length_def table_offsets)
  have e: "entry_relied_in S m rsdt i" if "i < ?n" for i using a that by (simp add: acpi_tables_in_def)
  show "acpi_tables_in S' m' lit rsdt"
    using relied_in_keeps(1,2) [OF k] entry_relied_keeps(2) [OF k] a by (simp add: acpi_tables_in_def len)
  have tab: "tables_of m' rsdt = tables_of m rsdt"
    using entry_relied_keeps(1) [OF k e] by (simp add: tables_of_def len)
  show "the_FACP m' rsdt = the_FACP m rsdt"
    unfolding the_FACP_def first_FACP_def tab using entry_relied_keeps(3) [OF k e]
    by (intro find_cong) (auto simp: tables_of_def)
  show "enable_write m' p = enable_write m p" if "the_FACP m rsdt = Some p"
    using that entry_relied_keeps(4) [OF k e] by (auto simp: the_FACP_def first_FACP_def find_Some_iff tables_of_def)
qed

lemmas acpi_tables_kept = acpi_tables_keeps [OF log_kept_keeps]

lemma findTable_step:
  assumes h: "heap_holds lim h B" and a: "acpi_tables lim B lit rsdt h"
  shows "run_ok N log_error (\<lambda>(r, t). log_kept lim B 0 (h, c) (t, c) \<and> r = (case the_FACP (ram h) rsdt of None \<Rightarrow> 0 | Some p \<Rightarrow> p))
    (Some (findTable lit rsdt sig h))"
proof -
  have "paging_inv (globalPageTable h) h" using h by (auto simp: heap_holds_def heap_sys_def heap_env_def)
  moreover have "entry_readable (globalPageTable h) rsdt h i" if "i < (unat (table_Length (ram h) rsdt) - 36) div 4" for i
    using a that relied_clear [OF h] by (simp add: acpi_tables_in_def entry_relied_in_def entry_readable_def)
  ultimately have "case findTable lit rsdt sig h of
      Inl e \<Rightarrow> e = Panic ''Out of memory''
    | Inr (r, t) \<Rightarrow> kept_outside (globalPageTable h) h t \<and> (case first_FACP (ram h) (tables_of (ram h) rsdt) of
        None \<Rightarrow> r = 0 | Some p \<Rightarrow> r = p \<and> translate (ram t) (globalPageTable h) p = Some (frame_bits p))"
    using a relied_clear [OF h] by (intro findTable_effect) (simp_all add: acpi_tables_in_def)
  then show ?thesis
    using kept_outside_heap [OF h] by (auto simp: run_ok_def log_error_def the_FACP_def split: sum.splits option.splits)
qed

section \<open>Start-up\<close>

lemma log_step_from:
  assumes k: "log_kept lim B n s0 s" and tgt: "target lg \<noteq> NONE"
    and log: "(log, lit, pre) \<in> {(Logger_info, lit_inf lits, ''] $c7[INF]$cF ''), (Logger_warn, lit_wrn lits, ''] $cY[WRN]$cF ''),
      (Logger_error, lit_err lits, ''] $cR[ERR]$cF '')}"
    and words: "log_text lim B lits lg lit pre str ss (fst s0)" and room: "unat (heapEnd (fst s0)) + n + 24576 \<le> lim"
    and E: "\<forall>e. log_error e \<longrightarrow> E e"
  shows "run_ok True E (log_kept lim B (n + 24576) s0) (log lits lg str vargs s)"
proof -
  obtain h c where s: "s = (h, c)" by (cases s)
  have "run_ok True log_error (log_kept lim B 24576 (h, c)) (log lits lg str vargs (h, c))"
    using k room log_text_kept [OF k words] by (intro log_step [OF _ tgt log]) (simp_all add: s log_kept_def)
  then show ?thesis
    unfolding s using E log_kept_trans [OF k] by (elim run_ok_mono) (auto simp: s)
qed

definition info_words :: "(u64 \<Rightarrow> bool) \<Rightarrow> mem \<Rightarrow> log_literals \<Rightarrow> Logger \<Rightarrow> u64 \<Rightarrow> bool" where
  "info_words S m lits lg str \<longleftrightarrow> (\<exists>ss. log_words S m lits lg (lit_inf lits) ''] $c7[INF]$cF '' str ss)"

abbreviation info_text :: "nat \<Rightarrow> (u64 \<times> u64) set \<Rightarrow> log_literals \<Rightarrow> Logger \<Rightarrow> 'h heap_scheme \<Rightarrow> u64 \<Rightarrow> bool" where
  "info_text lim B lits lg h \<equiv> info_words (hp.stable lim h B) (ram h) lits lg"

lemma info_step:
  assumes "log_kept lim B n s0 s" and "target lg \<noteq> NONE" and "info_text lim B lits lg (fst s0) str"
    and "unat (heapEnd (fst s0)) + n + 24576 \<le> lim" and "\<forall>e. log_error e \<longrightarrow> E e"
  shows "run_ok True E (log_kept lim B (n + 24576) s0) (Logger_info lits lg str vargs s)"
  using assms(3) unfolding info_words_def by (elim exE) (rule log_step_from [OF assms(1,2) insertI1 _ assms(4,5)])

definition no_FACP :: "mem \<Rightarrow> u64 \<Rightarrow> kerror \<Rightarrow> bool" where
  "no_FACP m rsdt e \<longleftrightarrow> e = Panic ''ACPI FACP was not found!'' \<and> the_FACP m rsdt \<in> {None, Some 0}"

text \<open>ACPI mode has been switched on.\<close>

definition acpi_enabled :: "nat \<Rightarrow> (u64 \<times> u64) set \<Rightarrow> nat \<Rightarrow> u64 \<Rightarrow> 'h heap_scheme \<times> 'c console_scheme \<Rightarrow> u64 \<times> 'h heap_scheme \<times> 'c console_scheme \<Rightarrow> bool" where
  "acpi_enabled lim B n rsdt s r \<longleftrightarrow> log_kept lim B n s (snd r) \<and> the_FACP (ram (fst s)) rsdt = Some (fst r) \<and> fst r \<noteq> 0 \<and>
     (\<exists>before after. port_out (snd (snd r)) = port_out (snd s) @ before @ enable_write (ram (fst s)) (fst r) # after)"

lemma enable_step:
  fixes s0 :: "'h heap_scheme \<times> 'c console_scheme"
  assumes k: "log_kept lim B n s0 (h, c)" and tgt: "target lg \<noteq> NONE" and words: "info_text lim B lits lg (fst s0) str"
    and a: "acpi_tables lim B lit rsdt (fst s0)" and p: "the_FACP (ram (fst s0)) rsdt = Some p" "p \<noteq> 0"
    and room: "unat (heapEnd (fst s0)) + n + 24576 \<le> lim" and E: "\<forall>e. log_error e \<longrightarrow> E e"
  shows "run_ok True E (acpi_enabled lim B (n + 24576) rsdt s0)
      (bind_ro (map_option Inr (enable_acpi (ram h) p c)) (\<lambda>c. bind_ro (Logger_info lits lg str [] (h, c)) (\<lambda>(h, c). Some (Inr (p, h, c)))))"
proof -
  have w: "enable_write (ram h) p = enable_write (ram (fst s0)) p" using acpi_tables_kept(3) [OF k a p(1)] by simp
  define c1 where "c1 = c\<lparr>port_out := port_out c @ [enable_write (ram (fst s0)) p], reads := Suc (reads c)\<rparr>"
  have e: "enable_acpi (ram h) p c = Some c1" using w by (simp add: enable_acpi_effect c1_def enable_write_def)
  obtain before where b: "port_out c1 = port_out (snd s0) @ before @ [enable_write (ram (fst s0)) p]"
    using k by (auto simp: log_kept_def trace_grows_def c1_def)
  have k1: "log_kept lim B n s0 (h, c1)" using k b by (simp add: log_kept_def trace_grows_def)
  have k0: "log_kept lim B 0 (h, c1) (h, c1)" using k by (intro log_kept_refl) (simp add: log_kept_def)
  have "info_text lim B lits lg h str" using words log_text_kept [OF k] unfolding info_words_def fst_conv by blast
  then have run: "run_ok True E (log_kept lim B 24576 (h, c1)) (Logger_info lits lg str [] (h, c1))"
    using info_step [OF k0 tgt, of lits str E "[]"] k room E by (simp add: log_kept_def)
  have "acpi_enabled lim B (n + 24576) rsdt s0 (p, t)" if "log_kept lim B 24576 (h, c1) t" for t
    using log_kept_trans [OF k1 that] that p b by (auto simp: acpi_enabled_def log_kept_def trace_grows_def)
  then show ?thesis unfolding e option.map bind_ro_simps by (intro run_ok_bind [OF run]) auto
qed

lemma ACPI_init_run:
  fixes s0 s :: "'h heap_scheme \<times> 'c console_scheme"
  assumes k: "log_kept lim B n s0 s" and tgt: "target lg \<noteq> NONE"
    and words: "\<forall>str\<in>{lit_looking al, lit_found al, lit_enabled al}. info_text lim B lits lg (fst s0) str"
    and a: "acpi_tables lim B (lit_FACP al) rsdt (fst s0)" and room: "unat (heapEnd (fst s0)) + n + 3 * 24576 \<le> lim"
    and E: "\<forall>e. log_error e \<or> no_FACP (ram (fst s0)) rsdt e \<longrightarrow> E e"
  shows "run_ok True E (acpi_enabled lim B (n + 3 * 24576) rsdt s0) (ACPI_init lits al rsdt lg s)"
proof -
  let ?p = "case the_FACP (ram (fst s0)) rsdt of None \<Rightarrow> 0 | Some p \<Rightarrow> p"
  have E': "\<forall>e. log_error e \<longrightarrow> E e" using E by blast
  note log = info_step [where lg = lg and lits = lits and E = E, OF _ tgt _ _ E']
  have found: "run_ok True E (\<lambda>(r, t). log_kept lim B m s0 (t, c) \<and> r = ?p) (Some (findTable (lit_FACP al) rsdt sig h))"
    if "log_kept lim B m s0 (h, c)" for m sig h and c :: "'c console_scheme"
  proof -
    note t = acpi_tables_kept [OF that, unfolded fst_conv, OF a]
    have "heap_holds lim h B" using that by (simp add: log_kept_def)
    from findTable_step [OF this t(1), of True c sig] show ?thesis
      by (rule run_ok_mono) (use E' log_kept_trans [OF that, of 0] t(2) in auto)
  qed
  obtain h c where s: "s = (h, c)" by (cases s)
  show ?thesis
    unfolding ACPI_init_def s prod.case
  proof (rule run_ok_bind [OF log [OF k [unfolded s]]], goal_cases)
    case (3 s1)
    obtain h1 c1 where s1: "s1 = (h1, c1)" by (cases s1)
    show ?case
      unfolding s1 prod.case
    proof (rule run_ok_bind [OF found [OF 3 [unfolded s1]]], clarify)
      fix h2 assume k2: "log_kept lim B (n + 24576) s0 (h2, c1)"
      show "run_ok True E (acpi_enabled lim B (n + 3 * 24576) rsdt s0)
          (bind_ro (Logger_info lits lg (lit_found al) [VNum ?p] (h2, c1)) (\<lambda>(h, c).
             if ?p = 0 then Some (Inl (Panic ''ACPI FACP was not found!''))
             else bind_ro (map_option Inr (enable_acpi (ram h) ?p c)) (\<lambda>c.
               bind_ro (Logger_info lits lg (lit_enabled al) [] (h, c)) (\<lambda>(h, c). Some (Inr (?p, h, c))))))"
      proof (rule run_ok_bind [OF log [OF k2]], goal_cases)
        case (3 s3)
        obtain h3 c3 where s3: "s3 = (h3, c3)" by (cases s3)
        have "E (Panic ''ACPI FACP was not found!'')" if "?p = 0"
          using that by (intro E [rule_format]) (auto simp: no_FACP_def split: option.splits)
        moreover have "the_FACP (ram (fst s0)) rsdt = Some ?p" if "?p \<noteq> 0" using that by (auto split: option.splits)
        moreover note enable_step [OF 3 [unfolded s3] tgt, of lits "lit_enabled al" "lit_FACP al" rsdt ?p E] a words room E'
        ultimately show ?case unfolding s3 prod.case by (simp add: add.assoc)
      qed (use words room in simp_all)
    qed
  qed (use words room in simp_all)
qed

lemma log_kept_mono: "log_kept lim B n s t \<Longrightarrow> n \<le> k \<Longrightarrow> log_kept lim B k s t"
  by (simp add: log_kept_def)

lemma relied_sub:
  assumes "relied_in S a n" and "k + l \<le> n" and "n \<le> 2 ^ 64"
  shows "relied_in S (a + of_nat k) l"
  unfolding relied_in_def
proof (intro allI impI)
  fix x assume "in_region (a + of_nat k) l x"
  then obtain j where j: "j < l" "x = a + of_nat (k + j)"
    using assms(2,3) in_region_iff_offset [of l "a + of_nat k" x] by (auto simp: add.assoc)
  then have "in_region a n x" using assms(2,3) in_region_offset [of "k + j" n a] by simp
  then show "S x" using assms(1) by (simp add: relied_in_def)
qed

definition signature_ok :: "mem \<Rightarrow> u64 \<Rightarrow> u64 \<Rightarrow> bool" where
  "signature_ok m rsdp lit \<longleftrightarrow> bytes_at m rsdp 8 = bytes_at m lit 8"

definition acpi_error :: "mem \<Rightarrow> u64 \<Rightarrow> u64 \<Rightarrow> kerror \<Rightarrow> bool" where
  "acpi_error m rsdp lit e \<longleftrightarrow> log_error e \<or> e = Panic ''RSDP Signature does not match!'' \<and> \<not> signature_ok m rsdp lit \<or>
     no_FACP m (ucast (load32 m (rsdp + 16))) e"

text \<open>The descriptor is read in a state that is reached by logging.\<close>

lemma descriptor_kept:
  assumes k: "log_kept lim B n s0 (h, c)" and r: "relied lim B (fst s0) rsdp 20" and lit: "relied lim B (fst s0) lit 8"
  shows "memcmp (ram h) rsdp lit 8 = 0 \<longleftrightarrow> signature_ok (ram (fst s0)) rsdp lit"
    and "load32 (ram h) (rsdp + 16) = load32 (ram (fst s0)) (rsdp + 16)"
proof -
  have "relied lim B (fst s0) rsdp 8" "relied lim B (fst s0) (rsdp + 16) 4"
    using relied_sub [OF r, of 0 8] relied_sub [OF r, of 16 4] by simp_all
  then show "memcmp (ram h) rsdp lit 8 = 0 \<longleftrightarrow> signature_ok (ram (fst s0)) rsdp lit"
    and "load32 (ram h) (rsdp + 16) = load32 (ram (fst s0)) (rsdp + 16)"
    using relied_kept(2,3) [OF k] lit by (simp_all add: memcmp_lexicographic signature_ok_def Let_def)
qed

lemma init_acpi_run:
  fixes h :: "'h heap_scheme" and c :: "'c console_scheme"
  assumes h: "heap_holds lim h B" and room: "unat (heapEnd h) + 7 * 24576 \<le> lim"
    and lg: "lg = Logger_new (lit_ACPI bl) (lit_Kernel bl)"
    and words: "\<forall>str\<in>{lit_enabling bl, lit_rsdp bl, lit_calling bl, lit_looking al, lit_found al, lit_enabled al}. info_text lim B lits lg h str"
    and warn: "log_text lim B lits lg (lit_wrn lits) ''] $cY[WRN]$cF '' (lit_acpi2 bl) ss h"
    and r: "relied lim B h rsdp 20" and lit: "relied lim B h (lit_rsdptr bl) 8"
    and rsdt: "rsdt = ucast (load32 (ram h) (rsdp + 16))" and a: "acpi_tables lim B (lit_FACP al) rsdt h"
  shows "run_ok True (acpi_error (ram h) rsdp (lit_rsdptr bl))
    (\<lambda>q. signature_ok (ram h) rsdp (lit_rsdptr bl) \<and> acpi_enabled lim B (7 * 24576) rsdt (h, c) q) (init_acpi lits al bl rsdp (h, c))"
proof -
  let ?s = "(h, c)" and ?E = "acpi_error (ram h) rsdp (lit_rsdptr bl)"
  have tgt: "target lg \<noteq> NONE" "target lg = BOTH" by (simp_all add: lg Logger_new_def)
  have E: "\<forall>e. log_error e \<longrightarrow> ?E e" by (simp add: acpi_error_def)
  note log = info_step [where ?s0.0 = ?s and lg = lg and lits = lits, OF _ tgt(1) _ _ E, unfolded tgt(2) fst_conv snd_conv]
  have last: "run_ok True ?E (\<lambda>q. signature_ok (ram h) rsdp (lit_rsdptr bl) \<and> acpi_enabled lim B (7 * 24576) rsdt ?s q)
      (bind_ro (Logger_info lits lg (lit_calling bl) [] t) (\<lambda>(h, c). ACPI_init lits al rsdt lg (h, c)))"
    if "log_kept lim B (3 * 24576) ?s t" "signature_ok (ram h) rsdp (lit_rsdptr bl)" for t
  proof (rule run_ok_bind [OF log [OF that(1)]], goal_cases)
    case (3 u)
    then have "run_ok True ?E (acpi_enabled lim B (4 * 24576 + 3 * 24576) rsdt ?s) (ACPI_init lits al rsdt lg u)"
      using words a room by (intro ACPI_init_run tgt(1)) (auto simp: acpi_error_def rsdt)
    then show ?case using that(2) tgt(2) by (cases u) (auto elim: run_ok_mono)
  qed (use words room in simp_all)
  have wrn: "run_ok True ?E (log_kept lim B (3 * 24576) ?s)
      (if b then Logger_warn lits lg (lit_acpi2 bl) [] t else Some (Inr t))" if "log_kept lim B (2 * 24576) ?s t" for b t
    using log_step_from [where ss = ss and E = ?E and vargs = "[]", OF that tgt(1) insertI2 [OF insertI1]] warn room E that log_kept_mono [OF that] tgt(2) by simp
  show ?thesis
    unfolding init_acpi_def Let_def prod.case lg [symmetric] table_offsets of_nat_0 add_0_right
  proof (rule run_ok_bind [OF log [OF log_kept_refl [OF h]]], goal_cases)
    case (3 s1)
    show ?case
      unfolding case_prod_unfold prod.collapse
    proof (rule run_ok_bind [OF log [OF 3]], goal_cases)
      case (3 s2)
      show ?case
        unfolding prod.collapse
      proof (rule run_ok_bind [OF wrn], goal_cases)
        case 1
        then show ?case using 3 by simp
      next
        case (2 s3)
        obtain h3 c3 where s3: "s3 = (h3, c3)" by (cases s3)
        note d = descriptor_kept [OF 2 [unfolded s3], unfolded fst_conv, OF r lit]
        show ?case
          using last [OF 2] d by (simp add: s3 rsdt acpi_error_def case_prod_unfold)
      qed
    qed (use words room in simp_all)
  qed (use words room in simp_all)
qed

section \<open>Properties\<close>

text \<open>C33: with tables and texts in memory that its caller relies on, and room in the heap for seven log lines, ACPI start-up
  halts or returns as follows, if it ends (nothing is claimed when the serial port is never ready, or when a log line runs on into
  bytes of the heap with which the print never ends). It halts for lack of frames, with a conversion that has no argument, with the message for
  a wrong signature only when the signature of the descriptor is wrong, or with the one for a missing table only
  when no entry of the root table is a table \<open>FACP\<close> (or the first one is at 0). When it returns, the signature is right, the result is
  the first such table, the \<open>AcpiEnable\<close> of that table has been written to its command port, all that was allocated is
  freed and every byte the caller relies on is kept.\<close>

theorem init_acpi_enables:
  fixes h :: "'h heap_scheme" and c :: "'c console_scheme"
  assumes "heap_holds lim h B" and "unat (heapEnd h) + 7 * 24576 \<le> lim" and "lg = Logger_new (lit_ACPI bl) (lit_Kernel bl)"
    and "\<forall>str\<in>{lit_enabling bl, lit_rsdp bl, lit_calling bl, lit_looking al, lit_found al, lit_enabled al}. info_text lim B lits lg h str"
    and "log_text lim B lits lg (lit_wrn lits) ''] $cY[WRN]$cF '' (lit_acpi2 bl) ss h"
    and "relied lim B h rsdp 20" and "relied lim B h (lit_rsdptr bl) 8"
    and "rsdt = ucast (load32 (ram h) (rsdp + 16))" and "acpi_tables lim B (lit_FACP al) rsdt h"
  shows "case init_acpi lits al bl rsdp (h, c) of
      None \<Rightarrow> True
    | Some (Inl e) \<Rightarrow> log_error e \<or>
        e = Panic ''RSDP Signature does not match!'' \<and> bytes_at (ram h) rsdp 8 \<noteq> bytes_at (ram h) (lit_rsdptr bl) 8 \<or>
        e = Panic ''ACPI FACP was not found!'' \<and> the_FACP (ram h) rsdt \<in> {None, Some 0}
    | Some (Inr (facp, h', c')) \<Rightarrow> bytes_at (ram h) rsdp 8 = bytes_at (ram h) (lit_rsdptr bl) 8 \<and>
        the_FACP (ram h) rsdt = Some facp \<and> facp \<noteq> 0 \<and> heap_holds lim h' B \<and> (\<forall>x. hp.stable lim h B x \<longrightarrow> ram h' x = ram h x) \<and>
        (\<exists>before after. port_out c' = port_out c @ before @ enable_write (ram h) facp # after)"
  using init_acpi_run [OF assms, of c] assms(8)
  by (auto simp: run_ok_def acpi_error_def no_FACP_def signature_ok_def acpi_enabled_def log_kept_def split: option.splits sum.splits) blast

text \<open>A page with the literals, the descriptor, a root table with two entries, and the two tables.\<close>

definition acpi_page :: "u8 list" where
  "acpi_page = chars ''$c8['' @ [0] @ chars ''/'' @ [0] @ chars ''\<newline>'' @ [0] @ chars ''] $c7[INF]$cF '' @ [0] @ chars ''] $cY[WRN]$cF '' @ [0] @
     chars ''Kernel'' @ [0] @ chars ''ACPI'' @ [0] @ chars ''msg'' @ [0] @ chars ''FACP'' @ chars ''RSD PTR '' @ replicate 13 0 @
     chars ''RSD PTR '' @ replicate 7 0 @ [2, 0x80, 0, 0xA0, 0] @ replicate 28 0 @
     chars ''RSDT'' @ [44, 0, 0, 0] @ replicate 28 0 @ [0xC0, 0, 0xA0, 0, 0, 1, 0xA0, 0] @ replicate 20 0 @
     chars ''APIC'' @ replicate 60 0 @ chars ''FACP'' @ replicate 44 0 @ [0xB2, 0, 0, 0, 0xA1] @ chars ''Hello World!'' @ [0] @
     chars ''] $cR[ERR]$cF '' @ [0]"

definition acpi_page_mem :: mem where
  "acpi_page_mem x = acpi_page ! unat (x - 0xA00000)"

definition on_page :: "u64 \<Rightarrow> bool" where
  "on_page x \<longleftrightarrow> 0xA00000 \<le> unat x \<and> unat x < 0xA00151"

lemma acpi_page_values:
  "length acpi_page = 337" "string_at acpi_page_mem 0xA00000 (chars ''$c8['')" "string_at acpi_page_mem 0xA00005 (chars ''/'')"
  "string_at acpi_page_mem 0xA00007 (chars ''\<newline>'')" "string_at acpi_page_mem 0xA00009 (chars ''] $c7[INF]$cF '')"
  "string_at acpi_page_mem 0xA00018 (chars ''] $cY[WRN]$cF '')" "string_at acpi_page_mem 0xA00027 (chars ''Kernel'')"
  "string_at acpi_page_mem 0xA0002e (chars ''ACPI'')" "string_at acpi_page_mem 0xA00033 (chars ''msg'')"
  "string_at acpi_page_mem 0xA00135 (chars ''Hello World!'')" "string_at acpi_page_mem 0xA00142 (chars ''] $cR[ERR]$cF '')"
  "bytes_at acpi_page_mem 0xA00037 4 = chars ''FACP''"
  "bytes_at acpi_page_mem 0xA00050 8 = bytes_at acpi_page_mem 0xA0003b 8"
  "load32 acpi_page_mem 0xA00060 = 0xA00080" "load32 acpi_page_mem 0xA00084 = 44"
  "load32 acpi_page_mem 0xA000a4 = 0xA000c0" "load32 acpi_page_mem 0xA000a8 = 0xA00100"
  "bytes_at acpi_page_mem 0xA000c0 4 \<noteq> chars ''FACP''" "bytes_at acpi_page_mem 0xA00100 4 = chars ''FACP''"
  "load32 acpi_page_mem 0xA00130 = 0xB2" "acpi_page_mem 0xA00134 = 0xA1"
  by code_simp+

lemma on_page_region:
  assumes "0xA00000 \<le> unat a" and "unat a + n \<le> 0xA00151"
  shows "relied_in on_page a n"
proof -
  have "in_region a n x \<longleftrightarrow> unat a \<le> unat x \<and> unat x < unat a + n" for x using assms by (intro in_region_no_wrap) simp
  then show ?thesis using assms by (simp add: relied_in_def on_page_def)
qed

lemma on_page_text:
  assumes "string_at acpi_page_mem a str" and "0xA00000 \<le> unat a" and "unat a + Suc (length str) \<le> 0xA00151"
  shows "text_in on_page acpi_page_mem a str"
  using assms on_page_region [OF assms(2,3)] by (simp add: text_in_def relied_in_def)

text \<open>The literals of the code that logs.\<close>

definition log_example :: log_literals where
  "log_example = \<lparr>lit_open = 0xA00000, lit_slash = 0xA00005, lit_newline = 0xA00007, lit_inf = 0xA00009, lit_wrn = 0xA00018,
     lit_err = 0xA00142, lit_oob = 0, lit_unable = 0\<rparr>"

definition acpi_example :: acpi_literals where
  "acpi_example = \<lparr>lit_FACP = 0xA00037, lit_looking = 0xA00033, lit_found = 0xA00033, lit_enabled = 0xA00033\<rparr>"

definition boot_example :: boot_literals where
  "boot_example = \<lparr>lit_ACPI = 0xA0002e, lit_Kernel = 0xA00027, lit_enabling = 0xA00033, lit_rsdp = 0xA00033,
     lit_acpi2 = 0xA00033, lit_rsdptr = 0xA0003b, lit_calling = 0xA00033\<rparr>"

lemma on_page_words:
  defines "lg \<equiv> Logger_new 0xA0002e 0xA00027"
  shows "info_words on_page acpi_page_mem log_example lg 0xA00033"
    and "\<exists>ss. log_words on_page acpi_page_mem log_example lg (lit_wrn log_example) ''] $cY[WRN]$cF '' 0xA00033 ss"
    and "\<exists>ss. log_words on_page acpi_page_mem log_example lg (lit_err log_example) ''] $cR[ERR]$cF '' 0xA00033 ss"
proof -
  have n: "length (chars str) = length str" for str by (simp add: chars_def)
  have ok: "log_words on_page acpi_page_mem log_example lg lit pre 0xA00033 (log_line (chars ''Kernel'') (chars ''ACPI'') pre (chars ''msg''))"
    if "text_in on_page acpi_page_mem lit (chars pre)" "length pre = 14" for lit pre
    unfolding log_words_def log_pointers_def log_line_def lg_def Logger_new_def log_example_def
    using that by (auto simp: n built_size_def intro!: on_page_text acpi_page_values)
  show "info_words on_page acpi_page_mem log_example lg 0xA00033"
    unfolding info_words_def by (rule exI, rule ok) (auto simp: log_example_def n intro!: on_page_text acpi_page_values)
  show "\<exists>ss. log_words on_page acpi_page_mem log_example lg (lit_wrn log_example) ''] $cY[WRN]$cF '' 0xA00033 ss"
    by (rule exI, rule ok) (auto simp: log_example_def n intro!: on_page_text acpi_page_values)
  show "\<exists>ss. log_words on_page acpi_page_mem log_example lg (lit_err log_example) ''] $cR[ERR]$cF '' 0xA00033 ss"
    by (rule exI, rule ok) (auto simp: log_example_def n intro!: on_page_text acpi_page_values)
qed

lemma on_page_tables:
  "acpi_tables_in on_page acpi_page_mem 0xA00037 0xA00080" "the_FACP acpi_page_mem 0xA00080 = Some 0xA00100"
  "enable_write acpi_page_mem 0xA00100 = (0xB2, 0xA1)"
proof -
  have len: "table_Length acpi_page_mem 0xA00080 = 44" by (simp add: table_Length_def table_offsets acpi_page_values)
  have e: "other_SDT acpi_page_mem 0xA00080 0 = 0xA000c0" "other_SDT acpi_page_mem 0xA00080 (Suc 0) = 0xA00100"
    by (simp_all add: other_SDT_def table_offsets acpi_page_values)
  have two: "i = 0 \<or> i = Suc 0" if "i < 2" for i using that by auto
  show "acpi_tables_in on_page acpi_page_mem 0xA00037 0xA00080"
    by (auto simp: acpi_tables_in_def entry_relied_in_def len e acpi_page_values on_page_region dest!: two)
  show "the_FACP acpi_page_mem 0xA00080 = Some 0xA00100"
    by (simp add: the_FACP_def first_FACP_def tables_of_def len e acpi_page_values upt_rec)
  show "enable_write acpi_page_mem 0xA00100 = (0xB2, 0xA1)" by (simp add: enable_write_def acpi_page_values)
qed

text \<open>A heap of one page, with that page behind its window.\<close>

definition acpi_mem :: mem where
  "acpi_mem x = (if on_page x then acpi_page_mem x
     else set_free 0x800000 True (set_last 0x800000 0 (set_next 0x800000 0 (set_length 0x800000 4067 (ram heap_example)))) x)"

definition acpi_heap :: heap where
  "acpi_heap = heap_example\<lparr>heapStart := 0x800000, heapEnd := 0x801000, LastHdr := 0x800000, ram := acpi_mem\<rparr>"

lemma acpi_heap_holds: "heap_holds 0x900000 acpi_heap {}"
  and acpi_heap_page: "keeps on_page acpi_page_mem (hp.stable 0x900000 acpi_heap {}) (ram acpi_heap)"
proof -
  let ?m = "set_free 0x800000 True (set_last 0x800000 0 (set_next 0x800000 0 (set_length 0x800000 4067 (ram heap_example))))"
  define s where "s = heap_example\<lparr>heapStart := 0x800000, heapEnd := 0x801000, LastHdr := 0x800000\<rparr>"
  have h: "acpi_heap = s\<lparr>ram := acpi_mem\<rparr>" by (simp add: acpi_heap_def s_def)
  have s: "paging_inv 0x1000 s" "paging_area 0x1000 s = paging_area 0x1000 heap_example" "ram s = ram heap_example" "globalPageTable s = 0x1000"
    using heap_example_inv by (simp_all add: s_def heap_example_pfa(5))
  have hdr: "in_region 0x800000 29 x \<longleftrightarrow> 0x800000 \<le> unat x \<and> unat x < 0x80001d" for x by (subst hdr_range) simp_all
  have agree: "acpi_mem x = ram s x" if "paging_area 0x1000 s x" for x
    using heap_example_area [of x] that hdr [of x] by (auto simp: s acpi_mem_def on_page_def hdr_frame)
  have w: "paging_inv 0x1000 acpi_heap" "paging_area 0x1000 acpi_heap = paging_area 0x1000 heap_example"
    using outside_write(1,2) [of "0x1000" s acpi_mem] s(1,2) agree by (simp_all add: h)
  have area: "0x1000 \<le> unat x \<and> unat x < 0x8000 \<or> 2 ^ 48 \<le> unat x" if "paging_area 0x1000 acpi_heap x" for x
    using that heap_example_area w(2) by simp
  have "chain acpi_mem 0 [Seg 0x800000 4067 True] 0 = chain ?m 0 [Seg 0x800000 4067 True] 0"
    by (rule chain_cong) (auto simp: hdr acpi_mem_def on_page_def)
  then have "heap_inv acpi_heap [Seg 0x800000 4067 True]"
    by (simp add: heap_inv_def heap_ok_def hdr_holds_def h s_def)
  moreover have "\<not> in_region 20 8 x \<and> (unat x < 0x800000 \<or> 0x900000 \<le> unat x)" if "paging_area 0x1000 acpi_heap x" for x
    using area [OF that] by (auto intro!: low_address)
  then have "heap_env 0x900000 acpi_heap" using w(1) s(4) by (simp add: heap_env_def h) (simp add: s_def)
  ultimately have "heap_sys 0x900000 acpi_heap [Seg 0x800000 4067 True]" by (simp add: heap_sys_def)
  moreover have "blocks [Seg 0x800000 4067 True] = {}" by (simp add: blocks_def)
  ultimately show "heap_holds 0x900000 acpi_heap {}" unfolding heap_holds_def by blast
  have "hp.stable 0x900000 acpi_heap {} x" if "on_page x" for x
  proof -
    have "\<not> paging_area 0x1000 acpi_heap x" using area [of x] that by (auto simp: on_page_def)
    moreover have "\<not> in_region 20 8 x" using that by (auto simp: on_page_def in_region_no_wrap)
    moreover have "globalPageTable acpi_heap = 0x1000" using s(4) by (simp add: h)
    ultimately show ?thesis using that by (simp add: hp.stable_def outer_def on_page_def)
  qed
  then show "keeps on_page acpi_page_mem (hp.stable 0x900000 acpi_heap {}) (ram acpi_heap)"
    by (simp add: keeps_def h acpi_mem_def)
qed

theorem init_acpi_enables_witness:
  "case init_acpi log_example acpi_example boot_example 0xA00050 (acpi_heap, console_example) of
      None \<Rightarrow> True
    | Some (Inl e) \<Rightarrow> log_error e
    | Some (Inr (facp, h', c')) \<Rightarrow> facp = 0xA00100 \<and> heap_holds 0x900000 h' {} \<and>
        (\<exists>before after. port_out c' = before @ (0xB2, 0xA1) # after)"
proof -
  let ?lg = "Logger_new 0xA0002e 0xA00027"
  note k = acpi_heap_page
  obtain ss where wrn: "log_text 0x900000 {} log_example ?lg (lit_wrn log_example) ''] $cY[WRN]$cF '' 0xA00033 ss acpi_heap"
    using log_words_keeps [OF k] on_page_words(2) by blast
  have inf: "info_text 0x900000 {} log_example ?lg acpi_heap 0xA00033"
    using log_words_keeps [OF k] on_page_words(1) unfolding info_words_def by blast
  note rel = relied_in_keeps [OF k on_page_region] and tab = acpi_tables_keeps [OF k on_page_tables(1)]
  have sig: "bytes_at (ram acpi_heap) 0xA00050 8 = bytes_at (ram acpi_heap) 0xA0003b 8" by (simp add: rel(2) acpi_page_values)
  have rsdt: "0xA00080 = (ucast (load32 (ram acpi_heap) (0xA00050 + 16)) :: u64)" by (simp add: rel(3) [of _ 4] acpi_page_values)
  have room: "unat (heapEnd acpi_heap) + 7 * 24576 \<le> 0x900000" by (simp add: acpi_heap_def)
  have f: "lit_ACPI boot_example = 0xA0002e" "lit_Kernel boot_example = 0xA00027" "lit_enabling boot_example = 0xA00033" "lit_rsdp boot_example = 0xA00033" "lit_calling boot_example = 0xA00033"
    "lit_acpi2 boot_example = 0xA00033" "lit_rsdptr boot_example = 0xA0003b" "lit_looking acpi_example = 0xA00033"
    "lit_found acpi_example = 0xA00033" "lit_enabled acpi_example = 0xA00033" "lit_FACP acpi_example = 0xA00037"
    by (simp_all add: acpi_example_def boot_example_def)
  note run = init_acpi_enables [where bl = boot_example and al = acpi_example and lits = log_example and c = console_example,
      OF acpi_heap_holds room refl _ _ _ _ rsdt, unfolded f, OF _ wrn rel(1) rel(1) tab(1)]
  show ?thesis
    using run inf sig tab(2) on_page_tables(2,3) tab(3) [of "0xA00100"] by (auto split: option.splits sum.splits) blast
qed

end
