(* ===== verification/Start.thy ===== *)
theory Start
  imports Boot Acpi Tables
begin

text \<open>
  The other stages of \<open>_start\<close>, \<^verbatim>\<open>kernel/kernel.cpp\<close>: the console and the segment table before memory is set up, and the
  self-test of the heap after. Responses of the boot loader are arguments. \<open>None\<close> means that a stage is never left, as in
  \<open>hcf\<close>, which halts the processor for good.
\<close>

section \<open>Console\<close>

definition hcf :: "'a res option" where
  "hcf = None"

text \<open>The framebuffer response: none, or the list of its framebuffers.\<close>

definition start_console :: "limine_framebuffer list option \<Rightarrow> 'c console_scheme \<Rightarrow> 'c console_scheme res option" where
  "start_console response c =
     (if response = None \<or> length (the response) < 1 then hcf
      else
        let c = c\<lparr>gFramebuffer := hd (the response)\<rparr>;
            c = Terminal_init c
        in bind_ro (kprintf_both (chars (prelog
              ''Initiliazed terminal! Test: %d | Test 2: 0x%x | chars/line: %u | lines/screen: %u''))
              [VNum 30, VNum 0xFF00FF, VNum (ucast (charsPerLine c)), VNum (ucast (maxLines c))] c) (\<lambda>c.
           let (r, c) = serial_init c
           in bind_ro (kprintf (chars (prelog ''Initiliazing serial port: %d'')) [VNum (of_int r)] c) (\<lambda>c.
              kprintf_both (chars (prelog ''Initialized serial port!'')) [] c)))"

section \<open>Segment table\<close>

text \<open>The address that is printed is the one of the local variable.\<close>

definition start_gdt :: "u64 \<Rightarrow> u64 \<Rightarrow> u64 \<Rightarrow> cpu_tables \<times> 'c console_scheme \<Rightarrow> (cpu_tables \<times> 'c console_scheme) res option" where
  "start_gdt tss_addr gdt_addr gdtDescriptor_addr = (\<lambda>(g, c).
     bind_ro (kprintf (chars (prelog ''Loading GDT...'')) [] c) (\<lambda>c.
     let g = gdt_init tss_addr gdt_addr g in
     bind_ro (kprintf (chars (prelog
        ''If you are reading this, we did load the GDT! hooray! GDTDescriptor Address: 0x%x'')) [VNum gdtDescriptor_addr] c) (\<lambda>c.
     Some (Inr (g, c)))))"

section \<open>The self-test of the heap\<close>

text \<open>\<open>copyable\<close> is the address of the literal. The \<open>%s\<close> reads the block up to the next zero byte.\<close>

definition heap_test :: "u64 \<Rightarrow> 'z boot_scheme \<Rightarrow> 'z boot_scheme res option" where
  "heap_test copyable s =
     bind_ro (malloc 16 s) (\<lambda>(newString, s).
     let s = s\<lparr>klog := log_serial (prelog ''Address of newString: 0x%x'') [Num newString] (klog s)\<rparr> in
     Option.bind (strlen (ram s) copyable) (\<lambda>len.
     let s = s\<lparr>ram := memcpy (ram s) newString copyable (ucast len)\<rparr> in
     Option.bind (read_string (ram s) newString) (\<lambda>str.
     let s = s\<lparr>klog := log_both (prelog ''Heap Test: %s'') [Str (map (char_of \<circ> unat) str)] (klog s)\<rparr>;
         s = s\<lparr>klog := log_both (prelog ''Heap successfully initiliazed!'') [] (klog s)\<rparr>;
         s = s\<lparr>klog := log_both (prelog ''Funny fun fact: The HeapSegHdr is %d bytes long'') [Num HeapSegHdr_size] (klog s)\<rparr>
     in Some (Inr (sfree newString 16 s)))))"

end
