(* ===== verification/Limine.thy ===== *)
theory Limine
  imports Memutils Framebuffer Structs
begin

text \<open>
  The boot protocol as far as the kernel uses it: the requests of \<^verbatim>\<open>kernel/kernel.cpp\<close>, the structures of \<^verbatim>\<open>kernel/limine.h\<close>
  that the boot loader fills in, and how the kernel reads them from memory. The addresses of the requests are chosen by
  the linker.
\<close>

section \<open>Requests\<close>

definition LIMINE_COMMON_MAGIC :: "u64 list" where
  "LIMINE_COMMON_MAGIC = [0xc7b1dd30df4c8b88, 0x0a82e883a194f07b]"

text \<open>The words of a request as the kernel image has them: identifier, revision, and no response.\<close>

definition request_image :: "u64 list \<Rightarrow> u64 list" where
  "request_image rid = rid @ [0, 0]"

definition framebuffer_request :: "u64 list" where
  "framebuffer_request = request_image (LIMINE_COMMON_MAGIC @ [0x9d5827dcd881dd75, 0xa3148604f6fab11b])"

definition memmap_request :: "u64 list" where
  "memmap_request = request_image (LIMINE_COMMON_MAGIC @ [0x67cf3d9d378a806f, 0xe304acdfc50c3c62])"

definition hhdm_request :: "u64 list" where
  "hhdm_request = request_image (LIMINE_COMMON_MAGIC @ [0x48dcf1cb8ad2b852, 0x63984e959a98244b])"

definition kaddr_request :: "u64 list" where
  "kaddr_request = request_image (LIMINE_COMMON_MAGIC @ [0x71ba76863cc55f63, 0xb2644a48c516a487])"

definition rsdp_request :: "u64 list" where
  "rsdp_request = request_image (LIMINE_COMMON_MAGIC @ [0xc5e77b6b397e7b43, 0x27637845accdcf3c])"

section \<open>Structures\<close>

abbreviation (input) uint64 :: c_type where "uint64 \<equiv> c_int False 8"

abbreviation (input) uint8 :: c_type where "uint8 \<equiv> c_int False 1"

definition limine_request_fields :: "(string \<times> c_type) list" where
  "limine_request_fields = [(''id'', c_array 4 uint64), (''revision'', uint64), (''response'', uint64)]"

definition limine_hhdm_response :: "(string \<times> c_type) list" where
  "limine_hhdm_response = [(''revision'', uint64), (''offset'', uint64)]"

definition limine_framebuffer_fields :: "(string \<times> c_type) list" where
  "limine_framebuffer_fields = [(''address'', uint64), (''width'', uint64), (''height'', uint64), (''pitch'', uint64),
     (''bpp'', c_int False 2), (''memory_model'', uint8), (''red_mask_size'', uint8), (''red_mask_shift'', uint8),
     (''green_mask_size'', uint8), (''green_mask_shift'', uint8), (''blue_mask_size'', uint8), (''blue_mask_shift'', uint8),
     (''unused'', c_array 7 uint8), (''edid_size'', uint64), (''edid'', uint64), (''mode_count'', uint64), (''modes'', uint64)]"

definition limine_framebuffer_response :: "(string \<times> c_type) list" where
  "limine_framebuffer_response = [(''revision'', uint64), (''framebuffer_count'', uint64), (''framebuffers'', uint64)]"

definition limine_memmap_entry_fields :: "(string \<times> c_type) list" where
  "limine_memmap_entry_fields = [(''base'', uint64), (''length'', uint64), (''type'', uint64)]"

definition limine_memmap_response :: "(string \<times> c_type) list" where
  "limine_memmap_response = [(''revision'', uint64), (''entry_count'', uint64), (''entries'', uint64)]"

definition limine_rsdp_response :: "(string \<times> c_type) list" where
  "limine_rsdp_response = [(''revision'', uint64), (''address'', uint64)]"

definition limine_kernel_address_response :: "(string \<times> c_type) list" where
  "limine_kernel_address_response = [(''revision'', uint64), (''physical_base'', uint64), (''virtual_base'', uint64)]"

section \<open>Reading\<close>

definition field64 :: "mem \<Rightarrow> (string \<times> c_type) list \<Rightarrow> u64 \<Rightarrow> string \<Rightarrow> u64" where
  "field64 m fs a n = load64 m (a + of_nat (offset_of fs n))"

definition request_response :: "mem \<Rightarrow> u64 \<Rightarrow> u64" where
  "request_response m req = field64 m limine_request_fields req ''response''"

definition read_framebuffer :: "mem \<Rightarrow> u64 \<Rightarrow> limine_framebuffer" where
  "read_framebuffer m a = (let f = field64 m limine_framebuffer_fields a in
     \<lparr>fb_address = f ''address'', fb_width = f ''width'', fb_height = f ''height'', fb_pitch = f ''pitch'',
      fb_bpp = ucast (load32 m (a + of_nat (offset_of limine_framebuffer_fields ''bpp'')))\<rparr>)"

text \<open>\<open>framebuffer_request.response\<close> with the pointers of its array followed, or nothing for a null pointer.\<close>

definition framebuffers_of :: "mem \<Rightarrow> u64 \<Rightarrow> limine_framebuffer list option" where
  "framebuffers_of m req =
     (let r = request_response m req in
      if r = 0 then None
      else Some (map (\<lambda>i. read_framebuffer m (load64 m (field64 m limine_framebuffer_response r ''framebuffers'' + 8 * i)))
             (count_upto (field64 m limine_framebuffer_response r ''framebuffer_count''))))"

definition read_entry :: "mem \<Rightarrow> u64 \<Rightarrow> limine_memmap_entry" where
  "read_entry m a = (let f = field64 m limine_memmap_entry_fields a in
     \<lparr>entry_base = f ''base'', entry_length = f ''length'', entry_type = f ''type''\<rparr>)"

text \<open>\<open>(*memmap.entries)[i]\<close>: the array starts at the first entry.\<close>

definition read_memmap :: "mem \<Rightarrow> u64 \<Rightarrow> memmap" where
  "read_memmap m r =
     map (\<lambda>i. read_entry m (load64 m (field64 m limine_memmap_response r ''entries'') + i * of_nat (fst (c_struct limine_memmap_entry_fields))))
       (count_upto (field64 m limine_memmap_response r ''entry_count''))"

section \<open>Layout\<close>

lemmas limine_struct_defs = limine_request_fields_def limine_hhdm_response_def limine_framebuffer_fields_def limine_framebuffer_response_def
  limine_memmap_entry_fields_def limine_memmap_response_def limine_rsdp_response_def limine_kernel_address_response_def

lemma limine_offsets:
  "offset_of limine_request_fields ''response'' = 40" "offset_of limine_hhdm_response ''offset'' = 8"
  "offset_of limine_framebuffer_response ''framebuffer_count'' = 8" "offset_of limine_framebuffer_response ''framebuffers'' = 16"
  "offset_of limine_memmap_entry_fields ''base'' = 0" "offset_of limine_memmap_entry_fields ''length'' = 8"
  "offset_of limine_memmap_entry_fields ''type'' = 16" "offset_of limine_memmap_response ''entry_count'' = 8"
  "offset_of limine_memmap_response ''entries'' = 16" "offset_of limine_rsdp_response ''address'' = 8"
  "offset_of limine_kernel_address_response ''physical_base'' = 8" "offset_of limine_kernel_address_response ''virtual_base'' = 16"
  "offset_of limine_framebuffer_fields ''address'' = 0" "offset_of limine_framebuffer_fields ''width'' = 8"
  "offset_of limine_framebuffer_fields ''height'' = 16" "offset_of limine_framebuffer_fields ''pitch'' = 24"
  "offset_of limine_framebuffer_fields ''bpp'' = 32"
  by (simp_all add: limine_struct_defs layout_defs)

lemma limine_sizes: "fst (c_struct limine_memmap_entry_fields) = 24" "fst (c_struct limine_request_fields) = 48"
  "fst (c_struct limine_framebuffer_fields) = 80"
  by (simp_all add: limine_struct_defs layout_defs)

text \<open>The boot loader finds each request by its identifier.\<close>

lemma limine_requests:
  "distinct [framebuffer_request, memmap_request, hhdm_request, kaddr_request, rsdp_request]"
  "\<forall>r\<in>{framebuffer_request, memmap_request, hhdm_request, kaddr_request, rsdp_request}.
     8 * length r = fst (c_struct limine_request_fields) \<and> take 2 r = LIMINE_COMMON_MAGIC \<and> r ! 5 = 0"
  by (simp_all add: framebuffer_request_def memmap_request_def hhdm_request_def kaddr_request_def rsdp_request_def
      request_image_def LIMINE_COMMON_MAGIC_def limine_sizes)

section \<open>Properties\<close>

text \<open>The map that the protocol describes: every element of the array is a pointer to its entry.\<close>

definition protocol_memmap :: "mem \<Rightarrow> u64 \<Rightarrow> memmap" where
  "protocol_memmap m r = map (\<lambda>i. read_entry m (load64 m (load64 m (r + 16) + 8 * i))) (count_upto (load64 m (r + 8)))"

lemma read_memmap_eq:
  "read_memmap m r = map (\<lambda>i. read_entry m (load64 m (load64 m (r + 16)) + i * 24)) (count_upto (load64 m (r + 8)))"
  by (simp add: read_memmap_def field64_def limine_offsets limine_sizes)

lemma read_entry_eq:
  "read_entry m a = \<lparr>entry_base = load64 m a, entry_length = load64 m (a + 8), entry_type = load64 m (a + 16)\<rparr>"
  by (simp add: read_entry_def Let_def field64_def limine_offsets)

text \<open>What reading depends on: the response, the first pointer of the array, and the block of entries it points to.\<close>

definition memmap_bytes :: "mem \<Rightarrow> u64 \<Rightarrow> u64 \<Rightarrow> bool" where
  "memmap_bytes m r x \<longleftrightarrow> in_region (r + 8) 8 x \<or> in_region (r + 16) 8 x \<or> in_region (load64 m (r + 16)) 8 x \<or>
     (\<exists>i<load64 m (r + 8). \<exists>k\<in>{0, 8, 16}. in_region (load64 m (load64 m (r + 16)) + i * 24 + k) 8 x)"

lemma read_memmap_cong:
  assumes "\<And>x. memmap_bytes m r x \<Longrightarrow> m' x = m x"
  shows "read_memmap m' r = read_memmap m r"
proof -
  have l: "load64 m' a = load64 m a" if "\<And>x. in_region a 8 x \<Longrightarrow> memmap_bytes m r x" for a
    using that assms by (intro c64.load_cong) blast
  have f: "load64 m' (r + 8) = load64 m (r + 8)" "load64 m' (r + 16) = load64 m (r + 16)"
    "load64 m' (load64 m (r + 16)) = load64 m (load64 m (r + 16))"
    by (rule l; simp add: memmap_bytes_def)+
  have "read_entry m' (load64 m (load64 m (r + 16)) + i * 24) = read_entry m (load64 m (load64 m (r + 16)) + i * 24)"
    if "i < load64 m (r + 8)" for i
  proof -
    let ?a = "load64 m (load64 m (r + 16)) + i * 24"
    have "load64 m' (?a + k) = load64 m (?a + k)" if "k \<in> {0, 8, 16}" for k
      using that \<open>i < load64 m (r + 8)\<close> by (intro l) (auto simp: memmap_bytes_def)
    from this [of 0] this [of 8] this [of 16] show ?thesis by (simp add: read_entry_eq)
  qed
  then show ?thesis unfolding read_memmap_eq f by (intro map_cong) auto
qed

text \<open>C11: the kernel reads the memory map that the boot protocol describes when the entries lie behind each other in
  memory in the order of the array. It relies on that: of the array of pointers only the first is ever looked at, so that
  whatever the others point to, the map that is read does not change.\<close>

theorem read_memmap_contiguous:
  assumes "\<forall>i<load64 m (r + 8). load64 m (load64 m (r + 16) + 8 * i) = load64 m (load64 m (r + 16)) + i * 24"
    and "\<forall>x. memmap_bytes m r x \<longrightarrow> m' x = m x"
  shows "read_memmap m r = protocol_memmap m r \<and> read_memmap m' r = protocol_memmap m r"
proof -
  have "read_memmap m r = protocol_memmap m r"
    unfolding read_memmap_eq protocol_memmap_def using assms(1) by (intro map_cong) auto
  moreover have "read_memmap m' r = read_memmap m r" using assms(2) by (intro read_memmap_cong) blast
  ultimately show ?thesis by simp
qed

text \<open>A response at 0x1000 with two entries at 0x2000; in the second memory the second pointer leads elsewhere.\<close>

definition limine_example :: "u64 \<Rightarrow> mem" where
  "limine_example p = foldr (\<lambda>(a, v) m. store64 m a v)
     [(0x1028, p), (0x1008, 2), (0x1010, 0x1020), (0x1020, 0x2000), (0x2000, 0x1000), (0x2008, 0x9e000), (0x2010, 0),
      (0x2018, 0x100000), (0x2020, 0x700000), (0x2028, 5)] (\<lambda>_. 0)"

lemma limine_example_loads:
  "load64 (limine_example p) 0x1008 = 2" "load64 (limine_example p) 0x1010 = 0x1020" "load64 (limine_example p) 0x1020 = 0x2000"
  "load64 (limine_example p) 0x1028 = p" "load64 (limine_example p) 0x2000 = 0x1000" "load64 (limine_example p) 0x2008 = 0x9e000"
  "load64 (limine_example p) 0x2010 = 0" "load64 (limine_example p) 0x2018 = 0x100000" "load64 (limine_example p) 0x2020 = 0x700000"
  "load64 (limine_example p) 0x2028 = 5"
  by (simp_all add: limine_example_def c64.load_store c64.load_store_other region_disjoint_no_wrap)

theorem read_memmap_contiguous_witness:
  "read_memmap (limine_example 0x2018) 0x1000 = protocol_memmap (limine_example 0x2018) 0x1000 \<and>
   read_memmap (limine_example 0) 0x1000 = protocol_memmap (limine_example 0x2018) 0x1000 \<and>
   map entry_base (protocol_memmap (limine_example 0x2018) 0x1000) = [0x1000, 0x100000]"
proof -
  have two: "i = 0 \<or> i = 1" if "i < 2" for i :: u64 using that by (auto simp: word_less_nat_alt word_unat_eq_iff)
  have same: "limine_example 0 x = limine_example 0x2018 x" if "memmap_bytes (limine_example 0x2018) 0x1000 x" for x
  proof -
    have "\<not> in_region 0x1028 8 x"
      using that by (auto simp: memmap_bytes_def limine_example_loads in_region_no_wrap dest!: two)
    then show ?thesis by (simp add: limine_example_def c64.store_frame fun_eq_iff)
  qed
  have "count_upto 2 = [0, 1 :: u64]" by (simp add: count_upto_def upt_rec)
  then have "map entry_base (protocol_memmap (limine_example 0x2018) 0x1000) = [0x1000, 0x100000]"
    by (simp add: protocol_memmap_def limine_example_loads read_entry_eq)
  moreover have "load64 (limine_example 0x2018) (0x1020 + 8 * i) = 0x2000 + i * 24" if "i < 2" for i
    using two [OF that] by (auto simp: limine_example_loads)
  ultimately show ?thesis
    using read_memmap_contiguous [of "limine_example 0x2018" "0x1000" "limine_example 0"] same
    by (simp add: limine_example_loads)
qed

end
