(* ===== verification/Kernel.thy ===== *)
theory Kernel
  imports Start Limine
begin

text \<open>
  The whole of \<open>_start\<close>, \<^verbatim>\<open>kernel/kernel.cpp\<close>, as one run: its stages in the order of the code, on one state, with the
  responses of the boot loader read from memory. The addresses that the linker chooses are arguments.
\<close>

record kernel_env =
  framebuffer_req :: u64
  memmap_req :: u64
  hhdm_req :: u64
  kaddr_req :: u64
  rsdp_req :: u64
  tss_at :: u64
  gdt_at :: u64
  gdtDescriptor_at :: u64
  vector_0_handler :: u64
  lit_copyable :: u64
  log_lits :: log_literals
  acpi_lits :: acpi_literals
  boot_lits :: boot_literals

record kernel =
  cpu :: cpu_tables
  idt_table :: idt
  memory :: boot
  con :: console

section \<open>Messages of the memory code\<close>

text \<open>
  The memory code records its \<open>kprintf\<close> calls. Printing reads no memory that this code writes, and the code reads
  nothing of the console, so the calls of a stage are printed, in their order, when the stage has been run. A stage that halts
  halts with its error.
\<close>

fun varg_of :: "karg \<Rightarrow> varg" where
  "varg_of (Num v) = VNum v"
| "varg_of (Str str) = VStr (chars str)"

definition print_call :: "kcall \<Rightarrow> 'c console_scheme \<Rightarrow> 'c console_scheme res option" where
  "print_call k c = (case chan k of
       Terminal_only \<Rightarrow> kprintf (chars (format k)) (map varg_of (args k)) c
     | Serial_only \<Rightarrow> kprintf_serial (chars (format k)) (map varg_of (args k)) c
     | Both_channels \<Rightarrow> kprintf_both (chars (format k)) (map varg_of (args k)) c)"

primrec print_calls :: "kcall list \<Rightarrow> 'c console_scheme \<Rightarrow> 'c console_scheme res option" where
  "print_calls [] c = Some (Inr c)"
| "print_calls (k # ks) c = bind_ro (print_call k c) (print_calls ks)"

definition in_stage :: "(boot \<Rightarrow> boot res option) \<Rightarrow> kernel \<Rightarrow> kernel res option" where
  "in_stage f k =
     bind_ro (f ((memory k)\<lparr>klog := []\<rparr>)) (\<lambda>s.
     bind_ro (print_calls (klog s) (con k)) (\<lambda>c.
     Some (Inr (k\<lparr>memory := s, con := c\<rparr>))))"

section \<open>Stages\<close>

text \<open>The console and the segment table.\<close>

definition start_devices :: "kernel_env \<Rightarrow> kernel \<Rightarrow> kernel res option" where
  "start_devices env k =
     bind_ro (start_console (framebuffers_of (ram (memory k)) (framebuffer_req env)) (con k)) (\<lambda>c.
     bind_ro (start_gdt (tss_at env) (gdt_at env) (gdtDescriptor_at env) (cpu k, c)) (\<lambda>(g, c).
     Some (Inr (k\<lparr>cpu := g, con := c\<rparr>))))"

text \<open>
  The memory map, the page frame allocator, the interrupt table, the address space and the heap. The entries of the map
  are read where the response is copied.
\<close>

definition start_memory :: "kernel_env \<Rightarrow> kernel \<Rightarrow> kernel res option" where
  "start_memory env k =
     (let m = ram (memory k); r = request_response m (memmap_req env) in
      if r = 0 then Some (Inl (Panic ''No memory map!''))
      else
        let mm = read_memmap m r;
            kaddr = request_response m (kaddr_req env);
            hhdm = request_response m (hhdm_req env)
        in bind_ro (in_stage (\<lambda>s. Some (init_frames (field64 m limine_kernel_address_response kaddr ''physical_base'')
                 (field64 m limine_kernel_address_response kaddr ''virtual_base'')
                 (field64 m limine_hhdm_response hhdm ''offset'') mm s)) k) (\<lambda>k.
           let k = k\<lparr>idt_table := initInts (vector_0_handler env) (idt_table k)\<rparr> in
           bind_ro (in_stage (\<lambda>s. Some (init_paging mm (idt_done s))) k) (\<lambda>k.
           in_stage (\<lambda>s. Some (init_heap s)) k)))"

text \<open>The self-test of the heap, and ACPI.\<close>

definition start_services :: "kernel_env \<Rightarrow> kernel \<Rightarrow> (u64 \<times> kernel) res option" where
  "start_services env k =
     bind_ro (in_stage (heap_test (lit_copyable env)) k) (\<lambda>k.
     let m = ram (memory k);
         rsdp = field64 m limine_rsdp_response (request_response m (rsdp_req env)) ''address'' in
     bind_ro (init_acpi (log_lits env) (acpi_lits env) (boot_lits env) rsdp (memory k, con k)) (\<lambda>(facp, s, c).
     Some (Inr (facp, k\<lparr>memory := s, con := c\<rparr>))))"

section \<open>The entry point\<close>

text \<open>The state in front of the last call, which halts the machine.\<close>

definition start_stages :: "kernel_env \<Rightarrow> kernel \<Rightarrow> (u64 \<times> kernel) res option" where
  "start_stages env k = bind_ro (start_devices env k) (\<lambda>k. bind_ro (start_memory env k) (start_services env))"

definition kernel_start :: "kernel_env \<Rightarrow> kernel \<Rightarrow> unit res option" where
  "kernel_start env k = bind_ro (start_stages env k) (\<lambda>_. hcf)"

end
