(* ===== verification/Start_Props.thy ===== *)
theory Start_Props
  imports Start Logger_Props Tables_Props
begin

text \<open>The stages of \<open>_start\<close> around the memory set-up: the console comes up and the self-test leaves the heap as it was.\<close>

section \<open>Messages do not touch the heap\<close>

lemma klog_paging [simp]:
  "paging_inv P (s\<lparr>klog := l\<rparr>) = paging_inv P s" "paging_area P (s\<lparr>klog := l\<rparr>) = paging_area P s"
  by (auto simp: paging_inv_def paging_area_def pfa_inv_def free_frames_def free_pages_def managed_frames_def)

lemma klog_heap [simp]:
  fixes s :: "'z heap_scheme"
  shows "heap_holds lim (s\<lparr>klog := l\<rparr>) B = heap_holds lim s B" and "hp.stable lim (s\<lparr>klog := l\<rparr>) B = hp.stable lim s B"
  by (simp_all add: heap_holds_def heap_sys_def heap_inv_def heap_ok_def heap_env_def hp.stable_def outer_def fun_eq_iff)

lemma combine_klog [simp]: "klog (combineForward p s) = klog s" "klog (combineBackward p s) = klog s"
  by (simp_all add: combineBackward_def combineForward_def Let_def)

lemma sfree_klog [simp]: "klog (sfree p sz s) = klog s"
  by (simp add: sfree_def Let_def)

section \<open>The self-test\<close>

lemma heap_test_effect:
  fixes s :: "'z boot_scheme"
  assumes "heap_holds lim s B" and "heap_room lim 16 s" and "text_at lim s B copyable (chars ''Hello World!'')"
  shows "heap_test copyable s = Some (Inl (Panic ''Out of memory'')) \<or>
    (\<exists>t junk. heap_test copyable s = Some (Inr t) \<and> heap_holds lim t B \<and> unat (heapEnd t) \<le> unat (heapEnd s) + 8192 \<and>
      (\<forall>x. hp.stable lim s B x \<longrightarrow> ram t x = ram s x \<and> hp.stable lim t B x) \<and>
      \<lparr>chan = Both_channels, format = prelog ''Heap Test: %s'', args = [Str (''Hello World!'' @ junk)]\<rparr> \<in> set (klog t))"
proof -
  define hw where "hw = chars ''Hello World!''"
  have n: "length hw = 12" "0 \<notin> set hw" by (simp_all add: hw_def chars_def)
  have str: "map (char_of \<circ> unat) hw = ''Hello World!''" unfolding hw_def by (rule chars_string)
  show ?thesis
  proof (cases rule: malloc_cases [OF assms(1,2)])
    case 1
    then show ?thesis by (simp add: heap_test_def)
  next
    case (2 p t len)
    let ?k = "log_serial (prelog ''Address of newString: 0x%x'') [Num p] (klog t)"
    let ?t = "t\<lparr>klog := ?k\<rparr>"
    have len: "16 \<le> unat len" using 2(3) by simp
    have h: "heap_holds lim ?t (insert (p, len) B)" using 2(5) by simp
    have tx: "text_at lim ?t B copyable hw"
      using text_at_kept [OF assms(3) [folded hw_def], of ?t B] 2(6,7) by simp
    then have st: "string_at (ram ?t) copyable hw" and sb: "\<forall>x. in_region copyable (Suc (length hw)) x \<longrightarrow> hp.stable lim ?t B x"
      by (simp_all add: text_in_def)
    have ap: "\<not> in_region p (unat len) x" if "in_region copyable (Suc (length hw)) x" for x
      using stable_apart [OF h 2(4)] sb that by blast
    have sl: "strlen (ram ?t) copyable = Some (of_nat (length hw))"
      using strlen_loop_cstring [OF string_at_cstring [OF st], of 0] by (simp add: strlen_def)
    have mc: "memcpy (ram ?t) p copyable (of_nat (length hw)) = put_bytes (ram ?t) p hw"
    proof (rule memcpy_string [OF st])
      fix x assume "in_region p (length hw) x"
      then have "in_region p (unat len) x" using in_region_mono len n(1) by auto
      then show "\<not> in_region copyable (Suc (length hw)) x" using ap by blast
    qed (simp add: n(1))
    define m where "m = put_bytes (ram ?t) p hw"
    have mt: "\<forall>x. \<not> in_region p (unat len) x \<longrightarrow> m x = ram ?t x"
      using put_bytes_frame [of hw 0 12 p] n(1) len in_region_mono [of p 12 _ "unat len"] unfolding m_def by auto
    have b: "bytes_at m p (length hw) = hw" unfolding m_def using n(1) by (intro bytes_at_put_bytes) simp
    have "ram ?t (copyable + of_nat (length hw)) = 0" using st by (simp add: string_at_def)
    then have "m (copyable + of_nat (length hw)) = 0"
      using mt ap in_region_offset [of "length hw" "Suc (length hw)" copyable] n(1) by auto
    then obtain junk where "read_string m (p + of_nat (length hw)) = Some junk" using read_string_returns by blast
    then have rs: "read_string m p = Some (hw @ junk)" using read_string_prefix [OF b n(2)] by simp
    have uc: "ucast (of_nat (length hw) :: u32) = (of_nat (length hw) :: u64)" by (rule ucast_length) (simp add: n(1))
    define l where "l = log_both (prelog ''Funny fun fact: The HeapSegHdr is %d bytes long'') [Num HeapSegHdr_size]
      (log_both (prelog ''Heap successfully initiliazed!'') []
      (log_both (prelog ''Heap Test: %s'') [Str (''Hello World!'' @ map (char_of \<circ> unat) junk)] ?k))"
    let ?u = "t\<lparr>ram := m, klog := l\<rparr>"
    have "heap_test copyable s = bind_ro (Some (Inr (p, t))) (\<lambda>(newString, s).
      let s = s\<lparr>klog := log_serial (prelog ''Address of newString: 0x%x'') [Num newString] (klog s)\<rparr> in
      Option.bind (strlen (ram s) copyable) (\<lambda>len.
      let s = s\<lparr>ram := memcpy (ram s) newString copyable (ucast len)\<rparr> in
      Option.bind (read_string (ram s) newString) (\<lambda>str.
      let s = s\<lparr>klog := log_both (prelog ''Heap Test: %s'') [Str (map (char_of \<circ> unat) str)] (klog s)\<rparr>;
         s = s\<lparr>klog := log_both (prelog ''Heap successfully initiliazed!'') [] (klog s)\<rparr>;
         s = s\<lparr>klog := log_both (prelog ''Funny fun fact: The HeapSegHdr is %d bytes long'') [Num HeapSegHdr_size] (klog s)\<rparr>
      in Some (Inr (sfree newString 16 s)))))"
      unfolding heap_test_def 2(1) ..
    also have "\<dots> = Some (Inr (sfree p 16 ?u))"
      using sl mc [folded m_def] rs uc str by (simp add: l_def)
    finally have ht: "heap_test copyable s = Some (Inr (sfree p 16 ?u))" .
    have mt': "\<forall>x. \<not> in_region p (unat len) x \<longrightarrow> m x = ram t x" using mt by simp
    have hu: "heap_holds lim ?u (insert (p, len) B)" "hp.stable lim ?u B = hp.stable lim t B"
      using payload_stable [OF 2(5) insertI1 mt'] by simp_all
    note f = sfree_stable [OF hu(1) 2(4), of 16]
    have he: "unat (heapEnd (sfree p 16 ?u)) \<le> unat (heapEnd s) + 8192" using 2(8) by (simp add: align16_def round_page_def)
    have "ram (sfree p 16 ?u) x = ram s x \<and> hp.stable lim (sfree p 16 ?u) B x" if "hp.stable lim s B x" for x
    proof -
      have "hp.stable lim t B x" "ram t x = ram s x" using 2(6,7) that by blast+
      moreover from this(1) have "m x = ram t x" using mt stable_apart [OF 2(5,4)] by simp
      ultimately show ?thesis using f(2,3) len hu(2) by simp
    qed
    moreover have "\<lparr>chan = Both_channels, format = prelog ''Heap Test: %s'',
        args = [Str (''Hello World!'' @ map (char_of \<circ> unat) junk)]\<rparr> \<in> set (klog (sfree p 16 ?u))"
      by (simp add: l_def log_both_def)
    ultimately show ?thesis using ht f(1) len he by auto
  qed
qed

text \<open>C13: the self-test of the heap returns unless page frames run out, prints \<open>Hello World!\<close> followed by whatever lies
  behind it in the block, since no terminator is copied, and leaves the heap with exactly the blocks it had before and
  all other memory the kernel relies on unchanged.\<close>

theorem heap_test_restores:
  fixes s :: "'z boot_scheme"
  assumes "heap_holds lim s B" and "heap_room lim 16 s" and "text_at lim s B copyable (chars ''Hello World!'')"
  shows "heap_test copyable s = Some (Inl (Panic ''Out of memory'')) \<or>
    (\<exists>t junk. heap_test copyable s = Some (Inr t) \<and> heap_holds lim t B \<and>
      (\<forall>x. hp.stable lim s B x \<longrightarrow> ram t x = ram s x) \<and>
      \<lparr>chan = Both_channels, format = prelog ''Heap Test: %s'', args = [Str (''Hello World!'' @ junk)]\<rparr> \<in> set (klog t))"
  using heap_test_effect [OF assms] by blast

text \<open>The example heap as a state of the entry point.\<close>

definition boot_with :: "heap \<Rightarrow> boot" where
  "boot_with h = heap.extend h (boot.fields 0)"

lemma boot_with_fields:
  "ram (boot_with h) = ram h" "mem_pfaBitmap (boot_with h) = mem_pfaBitmap h" "bitmapIdx (boot_with h) = bitmapIdx h"
  "globalPageTable (boot_with h) = globalPageTable h" "heapStart (boot_with h) = heapStart h" "heapEnd (boot_with h) = heapEnd h"
  "LastHdr (boot_with h) = LastHdr h" "mem_freeMemory (boot_with h) = mem_freeMemory h"
  by (simp_all add: boot_with_def heap.defs boot.defs)

lemma boot_with_heap:
  "heap_holds lim (boot_with h) B = heap_holds lim h B" "hp.stable lim (boot_with h) B = hp.stable lim h B"
proof -
  have f: "free_pages (boot_with h) = free_pages h" by (simp add: free_pages_def boot_with_fields)
  then have p: "paging_inv P (boot_with h) = paging_inv P h" "paging_area P (boot_with h) = paging_area P h" for P
    by (simp_all add: paging_inv_def pfa_inv_def paging_area_def free_frames_def managed_frames_def boot_with_fields fun_eq_iff)
  then show "heap_holds lim (boot_with h) B = heap_holds lim h B"
    by (simp add: heap_holds_def heap_sys_def heap_inv_def heap_ok_def heap_env_def boot_with_fields)
  show "hp.stable lim (boot_with h) B = hp.stable lim h B"
    by (simp add: hp.stable_def outer_def p boot_with_fields fun_eq_iff)
qed

theorem heap_test_restores_witness:
  "\<exists>s :: boot. heap_test 0x80001d s = Some (Inl (Panic ''Out of memory'')) \<or>
     (\<exists>t. heap_test 0x80001d s = Some (Inr t) \<and> heap_holds 0x900000 t {(0x80001d, 112)})"
proof -
  let ?ss = "[Seg 0x800000 112 False, Seg 0x80008d 3926 True]" and ?B = "{(0x80001d, 112)} :: (u64 \<times> u64) set"
  obtain t u where "initHeap 0x800000 1 heap_example = Inr t" "malloc 100 t = Some (Inr (0x80001d, u))"
    and u: "heap_sys 0x900000 u ?ss" by (rule heap_example_malloc)
  define bs where "bs = chars ''Hello World!'' @ [0]"
  have bl: "length bs = 13" "length (chars ''Hello World!'') = 12" by (simp_all add: bs_def chars_def)
  let ?h = "u\<lparr>ram := put_bytes (ram u) 0x80001d bs\<rparr>" and ?s = "boot_with (u\<lparr>ram := put_bytes (ram u) 0x80001d bs\<rparr>)"
  have "blocks ?ss = ?B" by simp
  then have hu: "heap_holds 0x900000 u ?B" using u unfolding heap_holds_def by blast
  have hh: "heap_holds 0x900000 ?h ?B"
  proof (rule payload_update [OF hu, of "0x80001d" 112])
    fix x :: u64 assume "\<not> in_region 0x80001d (unat (112 :: u64)) x"
    then show "put_bytes (ram u) 0x80001d bs x = ram u x"
      using put_bytes_frame [of bs 0 13 "0x80001d" x "ram u"] bl in_region_mono [of "0x80001d" 13 x 112] by auto
  qed simp
  have "string_at (ram ?h) 0x80001d (chars ''Hello World!'')"
    unfolding bs_def using put_bytes_string [of "chars ''Hello World!''" "ram u" "0x80001d"] bl(2) by (simp add: chars_def)
  moreover have "hp.stable 0x900000 ?h ?B x" if "in_region 0x80001d 13 x" for x
    using in_region_mono [OF that, of 112] by (simp add: hp.stable_def)
  ultimately have "text_at 0x900000 ?s ?B 0x80001d (chars ''Hello World!'')"
    by (simp add: text_in_def bl(2) boot_with_fields boot_with_heap)
  moreover have "heap_ok u ?ss" using u by (simp add: heap_sys_def heap_inv_def)
  then have "unat (heapEnd u) = 0x801000" using last_seg_end [of u ?ss] by simp
  then have "heap_room 0x900000 16 ?s" by (simp add: heap_room_def align16_def round_page_def boot_with_fields)
  ultimately show ?thesis
    using heap_test_restores [of "0x900000" ?s ?B "0x80001d"] hh by (intro exI [of _ ?s]) (auto simp: boot_with_heap)
qed

section \<open>The console comes up\<close>

definition serial_setup :: "bool \<Rightarrow> (u16 \<times> u8) list" where
  "serial_setup works = [(0x3f9, 0), (0x3fb, 0x80), (0x3f8, 3), (0x3f9, 0), (0x3fb, 3), (0x3fa, 0xC7), (0x3fc, 0x0B), (0x3fc, 0x1E), (0x3f8, 0xAE)] @
     (if works then [(0x3fc, 0x0F)] else [])"

lemma serial_init_eq:
  "serial_init s = (let works = (ucast (device s (reads s) 0x3f8) = (0xAE :: u8))
     in (if works then 0 else 1, s\<lparr>port_out := port_out s @ serial_setup works, reads := Suc (reads s)\<rparr>))"
  by (simp add: serial_init_def outb_def inb_def serial_setup_def Let_def)

lemma itoa_no_dollar: "of_char CHR ''$'' \<notin> set (itoa_text v 10)"
  using digits_no_dollar [of 10 "nat \<bar>sint v\<bar>"] by (auto simp: itoa_text_def)

text \<open>No escape sequence is open.\<close>

definition quiet :: "'c console_scheme \<Rightarrow> bool" where
  "quiet s \<longleftrightarrow> \<not> currentlyReadingAnything s \<and> \<not> currentlyReadingColor s"

lemma message_prints:
  fixes s :: "'c console_scheme"
  assumes "transmits (device s)" and "quiet s" and "render False False False fmt vargs = Some (out, False, False)"
  obtains t where "kprintf_loop serial terminal False fmt vargs s = Some (Inr t)" and "printed serial terminal out s t" and "quiet t"
proof -
  have "render (currentlyReadingAnything s) (currentlyReadingColor s) False fmt vargs = Some (out, False, False)"
    using assms(2,3) by (simp add: quiet_def)
  from kprintf_loop_renders [OF assms(1) this] obtain t where "kprintf_loop serial terminal False fmt vargs s = Some (Inr t)"
    "printed serial terminal out s t" "\<not> currentlyReadingAnything t" "\<not> currentlyReadingColor t" by metis
  then show thesis by (intro that) (simp_all add: quiet_def)
qed

text \<open>The texts that reach the screen and the port, on a grid with the given largest column and line.\<close>

definition prelogged :: "u8 list \<Rightarrow> u8 list" where
  "prelogged txt = chars ''[Kernel/PreLogger] [???] '' @ txt @ chars ''\<newline>''"

definition terminal_text :: "u32 \<times> u32 \<Rightarrow> u8 list" where
  "terminal_text grid = prelogged (chars ''Initiliazed terminal! Test: 30 | Test 2: 0x0000000000ff00ff | chars/line: '' @
     uitoa_text (ucast (fst grid)) 10 @ chars '' | lines/screen: '' @ uitoa_text (ucast (snd grid)) 10)"

definition serial_text :: "bool \<Rightarrow> u8 list" where
  "serial_text works = prelogged (chars (''Initiliazing serial port: '' @ (if works then ''0'' else ''1'')))"

definition ready_text :: "u8 list" where
  "ready_text = prelogged (chars ''Initialized serial port!'')"

lemma start_numbers:
  "itoa_text 30 10 = chars ''30''" "hex16 0xFF00FF = chars ''0000000000ff00ff''" "itoa_text 0 10 = chars ''0''" "itoa_text 1 10 = chars ''1''"
proof -
  have "replicate 10 x = [x, x, x, x, x, x, x, x, x, x]" for x :: u8 by (simp add: numeral_eq_Suc)
  then show "hex16 0xFF00FF = chars ''0000000000ff00ff''"
    by (simp add: hex16_def uitoa_text_def chars_def digits_of.simps digit_char_def digit_table_def)
qed (simp_all add: itoa_text_def chars_def digits_of.simps digit_char_def digit_table_def sint_uint
      signed_take_bit_eq_take_bit_shift take_bit_eq_mod)

lemma start_renders:
  "render False False False (chars (prelog
     ''Initiliazed terminal! Test: %d | Test 2: 0x%x | chars/line: %u | lines/screen: %u''))
     [VNum 30, VNum 0xFF00FF, VNum (ucast (fst grid)), VNum (ucast (snd grid))] = Some (terminal_text grid, False, False)"
  "render False False False (chars (prelog ''Initiliazing serial port: %d'')) [VNum (of_int (if works then 0 else 1))] =
     Some (serial_text works, False, False)"
  "render False False False (chars (prelog ''Initialized serial port!'')) [] = Some (ready_text, False, False)"
  using start_numbers uitoa_text_facts(5) unfolding terminal_text_def serial_text_def ready_text_def prelogged_def
  by (simp_all add: chars_def prelog_def convert_def num_arg_def) (rule exI [of _ False], simp)

text \<open>All that is sent to the ports while the console comes up, and the cursor at the end.\<close>

definition console_output :: "u32 \<times> u32 \<Rightarrow> bool \<Rightarrow> u32 \<times> u32 \<Rightarrow> (u16 \<times> u8) list \<times> u32 \<times> u32" where
  "console_output grid works p =
     (let (out1, p) = sent True True grid (terminal_text grid) p;
          (out2, p) = sent False True grid (serial_text works) p;
          (out3, p) = sent True True grid ready_text p
      in (map (Pair 0x3f8) out1 @ serial_setup works @ map (Pair 0x3f8) (out2 @ out3), p))"

lemma console_output_parts: "\<exists>a b. fst (console_output grid works p) = map (Pair 0x3f8) a @ serial_setup works @ map (Pair 0x3f8) b"
  unfolding console_output_def Let_def case_prod_unfold fst_conv by blast

lemma start_console_returns:
  fixes c :: "'c console_scheme" and fb :: limine_framebuffer
  assumes "transmits (device c)" and "quiet c" and "charX c = 0" and "charY c = 0"
  defines "grid \<equiv> (charsPerLine (Terminal_init (c\<lparr>gFramebuffer := fb\<rparr>)), maxLines (Terminal_init (c\<lparr>gFramebuffer := fb\<rparr>)))"
  obtains t works out where "start_console (Some (fb # fbs)) c = Some (Inr t)" and "cursor_ok t" and "quiet t" and "device t = device c"
    and "console_output grid works (0, 0) = (out, charX t, charY t)" and "port_out t = port_out c @ out"
    and "\<exists>n. works = (ucast (device c n 0x3f8) = (0xAE :: u8))"
proof -
  define c0 where "c0 = Terminal_init (c\<lparr>gFramebuffer := fb\<rparr>)"
  have c0: "transmits (device c0)" "quiet c0" "cursor_ok c0" "port_out c0 = port_out c" "device c0 = device c" "charX c0 = 0" "charY c0 = 0"
    using assms(1-4) by (simp_all add: c0_def Terminal_init_def quiet_def cursor_ok_def Let_def not_less)
  have g: "charsPerLine c0 = fst grid" "maxLines c0 = snd grid" by (simp_all add: grid_def c0_def)
  obtain c1 where c1: "kprintf_both (chars (prelog
     ''Initiliazed terminal! Test: %d | Test 2: 0x%x | chars/line: %u | lines/screen: %u''))
     [VNum 30, VNum 0xFF00FF, VNum (ucast (charsPerLine c0)), VNum (ucast (maxLines c0))] c0 = Some (Inr c1)"
    "printed True True (terminal_text grid) c0 c1" "quiet c1"
    using message_prints [OF c0(1,2) start_renders(1), of True True] unfolding kprintf_both_def g by blast
  obtain works c2 where s: "serial_init c1 = (if works then 0 else 1, c2)"
    "c2 = c1\<lparr>port_out := port_out c1 @ serial_setup works, reads := Suc (reads c1)\<rparr>"
    "works = (ucast (device c1 (reads c1) 0x3f8) = (0xAE :: u8))"
    unfolding serial_init_eq Let_def by blast
  have "cursor_ok c1" "device c1 = device c" using c0(3,5) printed_facts(1,2) [OF c1(2)] by simp_all
  then have c2: "transmits (device c2)" "quiet c2" "cursor_ok c2"
    using assms(1) c1(3) by (simp_all add: s(2) quiet_def cursor_ok_def)
  obtain c3 where c3: "kprintf (chars (prelog ''Initiliazing serial port: %d'')) [VNum (of_int (if works then 0 else 1))] c2 = Some (Inr c3)"
    "printed False True (serial_text works) c2 c3" "quiet c3"
    using message_prints [OF c2(1,2) start_renders(2), of False True] unfolding kprintf_def by blast
  have d3: "transmits (device c3)" "cursor_ok c3" using c2 c3(2) by (simp_all add: printed_def)
  obtain t where t: "kprintf_both (chars (prelog ''Initialized serial port!'')) [] c3 = Some (Inr t)"
    "printed True True ready_text c3 t" "quiet t"
    using message_prints [OF d3(1) c3(3) start_renders(3), of True True] unfolding kprintf_both_def by blast
  have "start_console (Some (fb # fbs)) c = Some (Inr t)"
    unfolding start_console_def using c1(1) s(1) c3(1) t(1) by (simp add: c0_def [symmetric] Let_def)
  moreover obtain out1 out2 out3 where "sent True True grid (terminal_text grid) (0, 0) = (out1, charX c2, charY c2)"
      "port_out c2 = port_out c @ map (Pair 0x3f8) out1 @ serial_setup works"
      "sent False True grid (serial_text works) (charX c2, charY c2) = (out2, charX c3, charY c3)" "port_out c3 = port_out c2 @ map (Pair 0x3f8) out2"
      "sent True True grid ready_text (charX c3, charY c3) = (out3, charX t, charY t)" "port_out t = port_out c3 @ map (Pair 0x3f8) out3"
    using c1(2) c3(2) t(2) by (auto simp: printed_def emits_def g c0(4,6,7) s(2))
  then have "\<exists>out. console_output grid works (0, 0) = (out, charX t, charY t) \<and> port_out t = port_out c @ out"
    by (simp add: console_output_def)
  moreover have "cursor_ok t" using t(2) d3(2) by (simp add: printed_def)
  moreover have "device t = device c" using t(2) c3(2) c1(2) c0(5) by (simp add: printed_def s(2))
  moreover have "\<exists>n. works = (ucast (device c n 0x3f8) = (0xAE :: u8))" using s(3) \<open>device c1 = device c\<close> by auto
  ultimately show thesis using t(3) that by blast
qed

text \<open>C12: \<open>_start\<close> halts for good without a framebuffer; with one, the console comes up when the serial port transmits. The ports then have
  received exactly this: the first message, the set-up sequence of the serial port, and the last message, with a report
  for each time the screen was full. The cursor is where the three messages put it on the grid of the first framebuffer,
  the second of them, which goes to the screen only, included; it is inside the grid, and no escape sequence is left open. The second message
  says whether the loop-back test of the port worked, on which the last byte of the set-up depends: it works when the device
  answers the read with 0xAE.\<close>

theorem start_console_ready:
  fixes c :: "'c console_scheme"
  assumes "transmits (device c)" and "quiet c" and "charX c = 0" and "charY c = 0"
  shows "case response of None \<Rightarrow> start_console response c = None | Some [] \<Rightarrow> start_console response c = None
    | Some (fb # fbs) \<Rightarrow> \<exists>t works out.
        let grid = (charsPerLine (Terminal_init (c\<lparr>gFramebuffer := fb\<rparr>)), maxLines (Terminal_init (c\<lparr>gFramebuffer := fb\<rparr>))) in
        start_console response c = Some (Inr t) \<and> cursor_ok t \<and> quiet t \<and>
        console_output grid works (0, 0) = (out, charX t, charY t) \<and> port_out t = port_out c @ out \<and>
        (\<exists>n. works = (ucast (device c n 0x3f8) = (0xAE :: u8)))"
proof -
  have "\<exists>t works out.
        let grid = (charsPerLine (Terminal_init (c\<lparr>gFramebuffer := fb\<rparr>)), maxLines (Terminal_init (c\<lparr>gFramebuffer := fb\<rparr>))) in
        start_console (Some (fb # fbs)) c = Some (Inr t) \<and> cursor_ok t \<and> quiet t \<and>
        console_output grid works (0, 0) = (out, charX t, charY t) \<and> port_out t = port_out c @ out \<and>
        (\<exists>n. works = (ucast (device c n 0x3f8) = (0xAE :: u8)))" for fb fbs
    by (rule start_console_returns [OF assms, of fb fbs]) (auto simp: Let_def)
  then show ?thesis by (simp add: start_console_def hcf_def split: option.split list.split)
qed

theorem start_console_ready_witness:
  "\<exists>t. start_console (Some [gFramebuffer console_example]) console_example = Some (Inr t) \<and> cursor_ok t \<and>
     filter (\<lambda>(p, v). p = 0x3f9 \<or> p = 0x3fc) (port_out t) = [(0x3f9, 0), (0x3f9, 0), (0x3fc, 0x0B), (0x3fc, 0x1E)]"
proof -
  have "transmits (device console_example)" "quiet console_example" "charX console_example = 0" "charY console_example = 0"
    by (simp_all add: quiet_def)
  from start_console_ready [OF this, of "Some [gFramebuffer console_example]"]
  obtain t works out grid where "start_console (Some [gFramebuffer console_example]) console_example = Some (Inr t)" "cursor_ok t"
    "console_output grid works (0, 0) = (out, charX t, charY t)" "port_out t = port_out console_example @ out"
    "\<exists>n. works = (ucast (device console_example n 0x3f8) = (0xAE :: u8))"
    unfolding Let_def option.case list.case by blast
  moreover obtain a b where "fst (console_output grid works (0, 0)) = map (Pair 0x3f8) a @ serial_setup works @ map (Pair 0x3f8) b"
    using console_output_parts by blast
  moreover have "filter (\<lambda>(p, v). p = 0x3f9 \<or> p = 0x3fc) (map (Pair (0x3f8 :: u16)) xs) = []" for xs :: "u8 list" by (induction xs) simp_all
  moreover have "\<not> works" using calculation(5) by (simp add: console_example_def)
  ultimately show ?thesis by (intro exI [of _ t] conjI) (simp_all add: serial_setup_def)
qed

end
