(* ===== verification/Kernel_Log.thy ===== *)
theory Kernel_Log
  imports Kernel Boot_Props Start_Props Console_Trace
begin

text \<open>
  Every message that the memory code records can be printed: its format has the arguments that its conversions
  take, and neither format nor arguments run into an endless loop. So printing the messages of a stage returns. The messages of
  \<open>_start\<close> itself, which have a prefix of their own, are followed through the stages.
\<close>

section \<open>Printable calls\<close>

definition can_print :: "string \<Rightarrow> karg list \<Rightarrow> bool" where
  "can_print fmt as \<longleftrightarrow> (\<exists>out. render False False False (chars fmt) (map varg_of as) = Some (out, False, False))"

definition can_print_all :: "kcall list \<Rightarrow> bool" where
  "can_print_all ks \<longleftrightarrow> (\<forall>k\<in>set ks. can_print (format k) (args k))"

text \<open>The messages that \<open>_start\<close> itself prints, apart from those of the functions it calls.\<close>

definition by_start :: "string \<Rightarrow> bool" where
  "by_start fmt \<longleftrightarrow> take 21 fmt = ''$c8[Kernel/PreLogger]''"

definition heard :: "kcall list \<Rightarrow> (channel \<times> string) list" where
  "heard ks = map (\<lambda>k. (chan k, format k)) (filter (\<lambda>k. by_start (format k)) ks)"

definition said_calls :: "(channel \<times> string) list \<Rightarrow> kcall list \<Rightarrow> bool" where
  "said_calls H ks \<longleftrightarrow> can_print_all ks \<and> heard ks = H"

abbreviation said :: "(channel \<times> string) list \<Rightarrow> 'z pfa_scheme \<Rightarrow> bool" where
  "said H s \<equiv> said_calls H (klog s)"

lemma heard_log:
  "heard (log_terminal fmt as l) = heard l @ (if by_start fmt then [(Terminal_only, fmt)] else [])"
  "heard (log_serial fmt as l) = heard l @ (if by_start fmt then [(Serial_only, fmt)] else [])"
  "heard (log_both fmt as l) = heard l @ (if by_start fmt then [(Both_channels, fmt)] else [])"
  by (simp_all add: heard_def log_terminal_def log_serial_def log_both_def)

lemma by_start_prelog: "by_start (prelog str)"
  by (simp add: by_start_def prelog_def)

lemma by_others:
  "\<not> by_start ''WARN Failed to lock page at address %x (idx: %x, bitmap size: %x)\<newline>''"
  "\<not> by_start ''WARN Failed to free page at address %x (idx: %x, bitmap size: %x)\<newline>''"
  "\<not> by_start ''%d ''" "\<not> by_start ''Largest Free Segment: 0x%x (virt: 0x%x) (with size 0x%x)\<newline>''"
  "\<not> by_start ''PageFrameAllocator Bitmap will need %d bytes of RAM or %d pages\<newline>''"
  "\<not> by_start ''Total memory space is %d bytes in size, or %d pages\<newline>''" "\<not> by_start ''Initiliazed page frame allocator!\<newline>''"
  "\<not> by_start ''Mapped PDP %d to %x''" "\<not> by_start ''Mapped to %x\<newline>''"
  "\<not> by_start ''Mapping virt %x to phys %x (or %x). Indexer: PDP %u | PD %u | PT %u | P %u\<newline>''"
  by (simp_all add: by_start_def)

lemma can_print_all_log:
  "can_print_all (log_terminal fmt as l) \<longleftrightarrow> can_print_all l \<and> can_print fmt as"
  "can_print_all (log_serial fmt as l) \<longleftrightarrow> can_print_all l \<and> can_print fmt as"
  "can_print_all (log_both fmt as l) \<longleftrightarrow> can_print_all l \<and> can_print fmt as"
  by (auto simp: can_print_all_def log_terminal_def log_serial_def log_both_def)

lemma print_call_prints:
  fixes c :: "'c console_scheme"
  assumes "transmits (device c)" and "quiet c" and "can_print (format k) (args k)"
  obtains t where "print_call k c = Some (Inr t)" and "quiet t" and "device t = device c" and "cursor_ok c \<longrightarrow> cursor_ok t"
    and "trace_grows c t"
proof -
  obtain out where out: "render False False False (chars (format k)) (map varg_of (args k)) = Some (out, False, False)"
    using assms(3) by (auto simp: can_print_def)
  obtain serial terminal where p: "print_call k c = kprintf_loop serial terminal False (chars (format k)) (map varg_of (args k)) c"
    by (cases "chan k") (auto simp: print_call_def kprintf_def kprintf_serial_def kprintf_both_def)
  obtain t where "kprintf_loop serial terminal False (chars (format k)) (map varg_of (args k)) c = Some (Inr t)"
    and "printed serial terminal out c t" and "quiet t"
    by (rule message_prints [OF assms(1,2) out])
  then show thesis using p by (intro that [of t]) (use printed_facts [of serial terminal out c t] in \<open>auto simp: trace_grows_def\<close>)
qed

lemma print_calls_print:
  fixes c :: "'c console_scheme"
  assumes "transmits (device c)" and "quiet c" and "can_print_all ks"
  shows "\<exists>t. print_calls ks c = Some (Inr t) \<and> quiet t \<and> device t = device c \<and> (cursor_ok c \<longrightarrow> cursor_ok t) \<and> trace_grows c t"
  using assms
proof (induction ks arbitrary: c)
  case Nil
  then show ?case by (simp add: trace_grows_refl)
next
  case (Cons k ks)
  then have k: "can_print (format k) (args k)" "can_print_all ks" by (simp_all add: can_print_all_def)
  with Cons.prems obtain u where u: "print_call k c = Some (Inr u)" "quiet u" "device u = device c" "cursor_ok c \<longrightarrow> cursor_ok u" "trace_grows c u"
    using print_call_prints [of c k] by blast
  with Cons.prems obtain t where "print_calls ks u = Some (Inr t)" "quiet t" "device t = device u" "cursor_ok u \<longrightarrow> cursor_ok t" "trace_grows u t"
    using Cons.IH [of u] k(2) by auto
  with u show ?case using trace_grows_trans [of c u t] by auto
qed

section \<open>The formats of the memory code\<close>

lemma frame_formats:
  "can_print ''WARN Failed to lock page at address %x (idx: %x, bitmap size: %x)\<newline>'' [Num a, Num b, Num c]"
  "can_print ''WARN Failed to free page at address %x (idx: %x, bitmap size: %x)\<newline>'' [Num a, Num b, Num c]"
  "can_print ''%d '' [Num a]" "can_print ''Largest Free Segment: 0x%x (virt: 0x%x) (with size 0x%x)\<newline>'' [Num a, Num b, Num c]"
  "can_print ''PageFrameAllocator Bitmap will need %d bytes of RAM or %d pages\<newline>'' [Num a, Num b]"
  "can_print ''Total memory space is %d bytes in size, or %d pages\<newline>'' [Num a, Num b]"
  "can_print ''Initiliazed page frame allocator!\<newline>'' []"
  using itoa_no_dollar hex16_no_dollar uitoa_text_facts(5)
  by (simp_all add: can_print_def chars_def convert_def num_arg_def)

lemma map_formats:
  "can_print ''Mapped PDP %d to %x'' [Num a, Num b]" "can_print ''Mapped to %x\<newline>'' [Num a]"
  "can_print ''Mapping virt %x to phys %x (or %x). Indexer: PDP %u | PD %u | PT %u | P %u\<newline>''
     [Num a, Num b, Num c, Num d, Num e, Num f, Num g]"
  using itoa_no_dollar hex16_no_dollar uitoa_text_facts(5)
  by (simp_all add: can_print_def chars_def convert_def num_arg_def)

lemma boot_formats:
  "can_print (prelog ''Initialize paging...'') []" "can_print (prelog ''PagingTable Address is %x'') [Num a]"
  "can_print (prelog ''Mapped memory'') []" "can_print (prelog ''Loading PML4 into CR3'') []"
  "can_print (prelog ''Done initiliazing paging!'') []"
  "can_print (prelog ''Physical Base of Kernel: %x\<newline>Virtual Base of Kernel: %x\<newline>HHDM Offset: %x'') [Num a, Num b, Num c]"
  "can_print (prelog ''Initialize page frame allocator...'') []"
  "can_print (prelog ''Ram -> Total: %x, Free: %x, Used: %x'') [Num a, Num b, Num c]"
  "can_print (prelog ''Ram -> Total: %u, Free: %u, Used: %u'') [Num a, Num b, Num c]"
  "can_print (prelog ''Initiliaze IDT & Interrupts...'') []" "can_print (prelog ''Initiliazed IDT & Interrupts!'') []"
  "can_print (prelog ''Initiliazing heap with starting size 1mb, CurrentFreeMemory: %u'') [Num a]"
  "can_print (prelog ''initHeap() done'') []"
  using itoa_no_dollar hex16_no_dollar uitoa_text_facts(5)
  by (simp_all add: can_print_def chars_def prelog_def convert_def num_arg_def)

lemma said_calls_log:
  assumes "\<not> by_start fmt" and "can_print fmt as"
  shows "said_calls H (log_terminal fmt as l) = said_calls H l" "said_calls H (log_serial fmt as l) = said_calls H l"
    "said_calls H (log_both fmt as l) = said_calls H l"
  using assms by (auto simp: said_calls_def can_print_all_log heard_log)

lemmas said_simps = said_calls_log by_others frame_formats map_formats boot_formats

section \<open>The memory code says only such messages\<close>

lemma said_lockPage: "said H s \<Longrightarrow> said H (mem_pageframeallocator_lockPage a s)"
  by (simp add: mem_pageframeallocator_lockPage_def Let_def said_simps split: prod.split bool.split)

lemma said_freePage: "said H s \<Longrightarrow> said H (mem_pageframeallocator_freePage a s)"
  by (simp add: mem_pageframeallocator_freePage_def Let_def said_simps split: prod.split bool.split)

lemma said_lockPages:
  "mem_pageframeallocator_lockPages a n s = Inr t \<Longrightarrow> said H s \<Longrightarrow> said H t"
  unfolding mem_pageframeallocator_lockPages_def
  by (erule for_each_inv [where P = "said H"]) (auto simp: said_lockPage split: if_splits)

lemma said_free_usable: "said H s \<Longrightarrow> said H (fold free_usable mm s)"
proof (rule fold_inv [where P = "said H"])
  fix x and s :: "'a pfa_scheme" assume "said H s"
  then show "said H (free_usable x s)"
    unfolding free_usable_def mem_pageframeallocator_freePages_def Let_def
    by (auto intro!: fold_inv [where P = "said H"] simp: said_freePage said_simps)
qed

lemma said_initBitmap:
  assumes "mem_pageframeallocator_initBitmap n a s = Inr t" and "said H s"
  shows "said H t"
proof -
  obtain x where x: "for_each (\<lambda>i s. if i = INT_MAX then Inl (Undefined ''signed overflow of i'')
      else Inr (s\<lparr>ram := (ram s)(Buffer (mem_pfaBitmap s) + of_nat i := 0)\<rparr>)) [0..<unat n]
      (s\<lparr>mem_pfaBitmap := \<lparr>Size = n, Buffer = a\<rparr>\<rparr>) = Inr x" "t = x\<lparr>bitmapIdx := 0\<rparr>"
    using assms(1) by (auto simp: mem_pageframeallocator_initBitmap_def Let_def bind_r_eq_Inr)
  have "said H x" by (rule for_each_inv [OF x(1), where P = "said H"]) (use assms(2) in \<open>auto split: if_splits\<close>)
  then show ?thesis by (simp add: x(2))
qed

lemma said_init: "mem_pageframeallocator_init mm s = Inr t \<Longrightarrow> said H s \<Longrightarrow> said H t"
  unfolding mem_pageframeallocator_init_def Let_def
  by (auto simp: bind_r_eq_Inr said_simps split: prod.splits if_splits
      dest!: said_lockPages said_initBitmap intro!: said_free_usable)

lemma said_requestPage:
  fixes s t :: "'z pfa_scheme"
  assumes "mem_pageframeallocator_requestPage s = Inr (p, t)" and "said H s"
  shows "said H t"
proof -
  have "requestPage_loop s = Inr (p, t) \<Longrightarrow> said H s \<Longrightarrow> said H t" for s :: "'z pfa_scheme"
  proof (induction s rule: requestPage_loop.induct)
    case (1 s)
    from 1(2,3) show ?case
      by (subst (asm) requestPage_loop.simps) (auto simp: Let_def said_lockPage dest: 1(1) split: if_splits)
  qed
  with assms show ?thesis by (simp add: mem_pageframeallocator_requestPage_def split: if_splits)
qed

lemma said_descend: "descend r u i s = Inr (v, t) \<Longrightarrow> said H s \<Longrightarrow> said H t"
  by (auto simp: descend_def Let_def bind_r_eq_Inr said_simps dest!: said_requestPage split: if_splits)

lemma said_map_page: "map_page debug PT i phys s = Inr t \<Longrightarrow> said H s \<Longrightarrow> said H t"
  by (auto simp: map_page_def Let_def said_simps split: if_splits)

lemma said_MapMemory: "PageTable_MapMemory P virt phys debug s = Inr t \<Longrightarrow> said H s \<Longrightarrow> said H t"
  by (auto simp: PageTable_MapMemory_def Let_def bind_r_eq_Inr said_simps dest!: said_descend said_map_page split: if_splits)

lemma said_map_all: "map_all P ms s = Inr t \<Longrightarrow> said H s \<Longrightarrow> said H t"
  unfolding map_all_def by (erule for_each_inv [where P = "said H"]) (auto dest: said_MapMemory)

lemma said_map_heap_page: "map_heap_page debug v s = Inr t \<Longrightarrow> said H s \<Longrightarrow> said H t"
  by (auto simp: map_heap_page_def bind_r_eq_Inr dest: said_requestPage said_MapMemory)

section \<open>The stages\<close>

definition gdt_messages :: "(channel \<times> string) list" where
  "gdt_messages = [(Terminal_only, prelog ''Loading GDT...''),
     (Terminal_only, prelog ''If you are reading this, we did load the GDT! hooray! GDTDescriptor Address: 0x%x'')]"

definition frames_messages :: "(channel \<times> string) list" where
  "frames_messages = [(Serial_only, prelog ''Physical Base of Kernel: %x\<newline>Virtual Base of Kernel: %x\<newline>HHDM Offset: %x''),
     (Terminal_only, prelog ''Initialize page frame allocator...''), (Terminal_only, prelog ''Ram -> Total: %x, Free: %x, Used: %x''),
     (Terminal_only, prelog ''Ram -> Total: %u, Free: %u, Used: %u''), (Terminal_only, prelog ''Initiliaze IDT & Interrupts...'')]"

definition paging_messages :: "(channel \<times> string) list" where
  "paging_messages = [(Both_channels, prelog ''Initialize paging...''), (Both_channels, prelog ''PagingTable Address is %x''),
     (Both_channels, prelog ''Mapped memory''), (Both_channels, prelog ''Loading PML4 into CR3''), (Both_channels, prelog ''Done initiliazing paging!'')]"

definition heap_messages :: "(channel \<times> string) list" where
  "heap_messages = [(Both_channels, prelog ''Initiliazing heap with starting size 1mb, CurrentFreeMemory: %u''),
     (Serial_only, prelog ''initHeap() done'')]"

text \<open>The messages of a stage, with what the functions it calls add in between.\<close>

lemmas kept_init = said_init [where H = "heard (klog s)" and s = s for s, unfolded said_calls_def, simplified]
  and kept_requestPage = said_requestPage [where H = "heard (klog s)" and s = s for s, unfolded said_calls_def, simplified]
  and kept_map_all = said_map_all [where H = "heard (klog s)" and s = s for s, unfolded said_calls_def, simplified]

lemmas stage_simps = said_calls_def can_print_all_log heard_log by_start_prelog boot_formats Let_def bind_r_eq_Inr

lemma said_init_frames: "init_frames base k h mm s = Inr t \<Longrightarrow> said H s \<Longrightarrow> said (H @ frames_messages) t"
  by (auto simp: init_frames_def frames_messages_def stage_simps dest!: kept_init)

lemma said_init_paging:
  assumes "init_paging mm s = Inr t" and "said H s"
  shows "said (H @ paging_messages) t"
proof -
  obtain h k where "offsets s = (h, k)" by (cases "offsets s")
  from assms show ?thesis unfolding init_paging_eq [OF \<open>offsets s = (h, k)\<close>]
    by (auto simp: paging_messages_def stage_simps dest!: kept_requestPage kept_map_all)
qed

lemma said_initHeap:
  assumes "initHeap a n s = Inr t" and "said H s"
  shows "said H t"
proof -
  obtain pos u where u: "for_each init_step (count_upto n) (a, s) = Inr (pos, u)" and t: "klog t = klog u"
    using assms(1) unfolding initHeap_def init_step_def [abs_def, symmetric] by (auto simp: bind_r_eq_Inr Let_def)
  have "said H (snd (pos, u))"
    by (rule for_each_inv [OF u, where P = "\<lambda>x. said H (snd x)"])
      (use assms(2) in \<open>auto simp: init_step_def bind_r_eq_Inr dest: said_map_heap_page\<close>)
  with t show ?thesis by simp
qed

lemma said_init_heap:
  assumes "init_heap s = Inr t" and "said H s"
  shows "said (H @ heap_messages) t"
proof -
  note kept = said_initHeap [where H = "heard (klog u)" and s = u for u, unfolded said_calls_def, simplified]
  from assms show ?thesis by (auto simp: init_heap_def heap_messages_def stage_simps dest!: kept)
qed

end
