(* ===== verification/Kernel_Props.thy ===== *)
theory Kernel_Props
  imports Kernel_Log Acpi_Init
begin

text \<open>
  The stages of \<open>_start\<close> composed: on a machine whose memory map the code can handle, console, segment table, frame allocator,
  interrupt table, address space and heap come up without an error, and what follows keeps the memory that the boot loader filled.
\<close>

section \<open>What the boot loader provides\<close>

definition console_ready :: "'c console_scheme \<Rightarrow> bool" where
  "console_ready c \<longleftrightarrow> transmits (device c) \<and> quiet c \<and> charX c = 0 \<and> charY c = 0"

definition loader_memmap :: "kernel_env \<Rightarrow> mem \<Rightarrow> memmap" where
  "loader_memmap env m = read_memmap m (request_response m (memmap_req env))"

definition loader_hhdm :: "kernel_env \<Rightarrow> mem \<Rightarrow> u64" where
  "loader_hhdm env m = field64 m limine_hhdm_response (request_response m (hhdm_req env)) ''offset''"

definition loader_base :: "kernel_env \<Rightarrow> mem \<Rightarrow> u64" where
  "loader_base env m = field64 m limine_kernel_address_response (request_response m (kaddr_req env)) ''virtual_base''"

definition loader_rsdp :: "kernel_env \<Rightarrow> mem \<Rightarrow> u64" where
  "loader_rsdp env m = field64 m limine_rsdp_response (request_response m (rsdp_req env)) ''address''"

text \<open>
  A framebuffer, and a memory map that the code can handle. The boot protocol promises that usable entries are page-aligned, that they do not
  wrap and where the direct map and the kernel lie. The other conditions are the limits of the code: all entries end at or below 2 GiB
  (\<open>boot_layout\<close>), the largest usable entry does not start at 0 and has room for the bitmap, the tables and the first heap
  pages, and no usable entry reaches into the heap window between 0x800000 and \<open>lim\<close>, up to which the heap may grow.
\<close>

definition loader_ok :: "kernel_env \<Rightarrow> nat \<Rightarrow> kernel \<Rightarrow> bool" where
  "loader_ok env lim k \<longleftrightarrow> (let m = ram (memory k); mm = loader_memmap env m in
     (\<exists>fb fbs. framebuffers_of m (framebuffer_req env) = Some (fb # fbs)) \<and> request_response m (memmap_req env) \<noteq> 0 \<and>
     limine_map_ok mm \<and> boot_layout (loader_hhdm env m) (loader_base env m) mm \<and>
     (\<exists>x. largest_segment mm = Some x \<and> entry_base x \<noteq> 0 \<and>
        (1024 + boot_frames mm + unat (bitmap_pages mm) + 3) * 4096 \<le> unat (entry_length x)) \<and>
     outside_window lim mm \<and> 0x900000 \<le> lim \<and> lim \<le> unat (map_pages mm) * 4096)"

text \<open>The memory that is neither handed to the allocator nor part of the heap window, nor the header of a null pointer.\<close>

definition loader_keeps :: "kernel_env \<Rightarrow> nat \<Rightarrow> mem \<Rightarrow> u64 \<Rightarrow> bool" where
  "loader_keeps env lim m x \<longleftrightarrow> \<not> boot_area (loader_hhdm env m) (loader_memmap env m) x \<and> \<not> in_region 20 8 x \<and>
     (unat x < 0x800000 \<or> lim \<le> unat x)"

section \<open>Stages\<close>

text \<open>The console went from one state to the other by printing messages, those of \<open>_start\<close> among them being \<open>H\<close>.\<close>

definition tells :: "(channel \<times> string) list \<Rightarrow> 'c console_scheme \<Rightarrow> 'c console_scheme \<Rightarrow> bool" where
  "tells H c t \<longleftrightarrow> (\<exists>ks. print_calls ks c = Some (Inr t) \<and> heard ks = H)"

lemma print_calls_append:
  fixes c :: "'c console_scheme"
  shows "print_calls (ks @ ls) c = bind_ro (print_calls ks c) (print_calls ls)"
proof (induction ks arbitrary: c)
  case (Cons k ks)
  then have "print_calls (ks @ ls) = (\<lambda>x :: 'c console_scheme. bind_ro (print_calls ks x) (print_calls ls))" by (simp add: fun_eq_iff)
  then show ?case by (simp add: bind_ro_assoc)
qed simp

lemma tells_trans:
  assumes "tells G c d" and "tells H d t"
  shows "tells (G @ H) c t"
proof -
  obtain ks ls where "print_calls ks c = Some (Inr d)" "heard ks = G" "print_calls ls d = Some (Inr t)" "heard ls = H"
    using assms by (auto simp: tells_def)
  then show ?thesis unfolding tells_def by (intro exI [of _ "ks @ ls"]) (simp add: print_calls_append heard_def)
qed

lemma in_stage_returns:
  assumes "f ((memory k)\<lparr>klog := []\<rparr>) = Some (Inr s)" and "said H s" and "transmits (device (con k))" and "quiet (con k)"
  obtains c where "in_stage f k = Some (Inr (k\<lparr>memory := s, con := c\<rparr>))" and "quiet c" and "device c = device (con k)"
    and "cursor_ok (con k) \<longrightarrow> cursor_ok c" and "trace_grows (con k) c" and "tells H (con k) c"
proof -
  have H: "can_print_all (klog s)" "heard (klog s) = H" using assms(2) by (simp_all add: said_calls_def)
  obtain c where "print_calls (klog s) (con k) = Some (Inr c)" "quiet c" "device c = device (con k)"
    "cursor_ok (con k) \<longrightarrow> cursor_ok c" "trace_grows (con k) c"
    using print_calls_print [OF assms(3,4) H(1)] by blast
  then show thesis using assms(1) H(2) by (intro that [of c]) (auto simp: in_stage_def tells_def)
qed

lemma can_print_none [simp]: "can_print_all []"
  by (simp add: can_print_all_def)

lemma start_gdt_returns:
  fixes c :: "'c console_scheme"
  assumes "transmits (device c)" and "quiet c"
  obtains t where "start_gdt a b gd (g, c) = Some (Inr (gdt_init a b g, t))" and "quiet t" and "device t = device c"
    and "cursor_ok c \<longrightarrow> cursor_ok t" and "trace_grows c t" and "tells gdt_messages c t"
proof -
  define f1 f2 where "f1 = prelog ''Loading GDT...''"
    and "f2 = prelog ''If you are reading this, we did load the GDT! hooray! GDTDescriptor Address: 0x%x''"
  define ks where "ks = [\<lparr>chan = Terminal_only, format = f1, args = []\<rparr>, \<lparr>chan = Terminal_only, format = f2, args = [Num gd]\<rparr>]"
  have "can_print f1 []" "can_print f2 [Num gd]"
    using hex16_no_dollar [of gd] by (simp_all add: f1_def f2_def can_print_def chars_def prelog_def convert_def num_arg_def)
  then have "can_print_all ks" by (simp add: ks_def can_print_all_def)
  from print_calls_print [OF assms this] obtain t where t: "print_calls ks c = Some (Inr t)" "quiet t" "device t = device c"
    "cursor_ok c \<longrightarrow> cursor_ok t" "trace_grows c t" by blast
  have "start_gdt a b gd (g, c) = bind_ro (print_calls ks c) (\<lambda>c. Some (Inr (gdt_init a b g, c)))"
    unfolding start_gdt_def f1_def [symmetric] f2_def [symmetric] Let_def prod.case ks_def print_calls.simps
    by (auto simp: print_call_def bind_ro_def split: Option.bind_split sum.split)
  moreover have "heard ks = gdt_messages"
    by (simp add: heard_def ks_def gdt_messages_def f1_def f2_def by_start_prelog)
  ultimately show thesis using t by (intro that [of t]) (auto simp: tells_def)
qed

lemma start_devices_returns:
  assumes "console_ready (con k)" and "framebuffers_of (ram (memory k)) (framebuffer_req env) = Some (fb # fbs)"
  obtains c where "start_devices env k = Some (Inr (k\<lparr>cpu := gdt_init (tss_at env) (gdt_at env) (cpu k), con := c\<rparr>))"
    and "quiet c" and "device c = device (con k)" and "cursor_ok c" and "trace_grows (con k) c"
    and "\<exists>d. start_console (Some (fb # fbs)) (con k) = Some (Inr d) \<and> tells gdt_messages d c"
proof -
  have "transmits (device (con k))" "quiet (con k)" "charX (con k) = 0" "charY (con k) = 0"
    using assms(1) by (simp_all add: console_ready_def)
  note start_console_returns [OF this, of fb fbs]
  then obtain d where d: "start_console (Some (fb # fbs)) (con k) = Some (Inr d)" "cursor_ok d" "quiet d" "device d = device (con k)"
    "trace_grows (con k) d" unfolding trace_grows_def by metis
  have "transmits (device d)" using assms(1) d(4) by (simp add: console_ready_def)
  then obtain c where c: "start_gdt (tss_at env) (gdt_at env) (gdtDescriptor_at env) (cpu k, d) =
      Some (Inr (gdt_init (tss_at env) (gdt_at env) (cpu k), c))" "quiet c" "device c = device d" "cursor_ok d \<longrightarrow> cursor_ok c" "trace_grows d c"
    "tells gdt_messages d c"
    using start_gdt_returns [OF _ d(3)] by metis
  show thesis
    using c d trace_grows_trans [of "con k" d c] by (intro that [of c]) (auto simp: start_devices_def assms(2))
qed

text \<open>The three stages of the memory code.\<close>

definition idt_messages :: "(channel \<times> string) list" where
  "idt_messages = [(Terminal_only, prelog ''Initiliazed IDT & Interrupts!'')]"

definition memory_messages :: "(channel \<times> string) list" where
  "memory_messages = frames_messages @ idt_messages @ paging_messages @ heap_messages"

lemma memory_stages:
  fixes s :: "'z boot_scheme"
  assumes l: "limine_map_ok mm" "boot_layout h kv mm"
    and scan: "fold scan_entry mm (0, 0, memEnd s) = (seg, sz, e)" "seg \<noteq> 0"
    and n: "(1024 + boot_frames mm + unat (bitmap_pages mm) + 3) * 4096 \<le> unat sz"
    and low: "outside_window lim mm"
    and lim: "0x900000 \<le> lim" "lim \<le> unat (map_pages mm) * 4096"
  obtains t p u where "init_frames base kv h mm (s\<lparr>klog := []\<rparr>) = Inr t" and "said frames_messages t"
    and "init_paging mm (idt_done (t\<lparr>klog := []\<rparr>)) = Inr p" and "said (idt_messages @ paging_messages) p"
    and "init_heap (p\<lparr>klog := []\<rparr>) = Inr u" and "said heap_messages u"
    and "heap_sys lim u [Seg 0x800000 (0x100000 - 29) True]" and "globalPageTable u = cr3 u" and "heapStart u = 0x800000" and "heapEnd u = 0x900000"
    and "\<forall>x. \<not> boot_area h mm x \<longrightarrow> unat x < 0x800000 \<or> lim \<le> unat x \<longrightarrow> ram u x = ram s x \<and> \<not> paging_area (cr3 u) u x"
proof -
  have scan0: "fold scan_entry mm (0, 0, memEnd (s\<lparr>klog := []\<rparr>)) = (seg, sz, e)" using scan(1) by simp
  obtain t where t: "init_frames base kv h mm (s\<lparr>klog := []\<rparr>) = Inr t" "frames_apart t" "offsets t = (h, kv)" "reserve (1024 + boot_frames mm) t"
    and tx: "\<forall>x. (allocator_area t x \<longrightarrow> boot_area h mm x) \<and> (\<not> boot_area h mm x \<longrightarrow> ram t x = ram (s\<lparr>klog := []\<rparr>) x)"
    by (rule init_frames_result [OF l scan0 scan(2) n])
  define t1 where "t1 = idt_done (t\<lparr>klog := []\<rparr>)"
  have d: "frames_apart t1" "offsets t1 = (h, kv)" "reserve (1024 + boot_frames mm) t1" "allocator_area t1 = allocator_area t" "ram t1 = ram t"
    using t by (simp_all add: t1_def idt_done_def)
  have st1: "said idt_messages t1" by (simp add: t1_def idt_done_def idt_messages_def heard_def by_start_prelog said_calls_def
      can_print_all_log boot_formats log_terminal_def can_print_all_def)
  obtain p where p: "init_paging mm t1 = Inr p" "paging_inv (cr3 p) p" "globalPageTable p = cr3 p" and res: "reserve 1024 p"
    and px: "\<forall>x. (paging_area (cr3 p) p x \<longrightarrow> allocator_area t x) \<and> (\<not> allocator_area t x \<longrightarrow> ram p x = ram t x)"
    by (rule init_paging_stage [OF d(1,2) l(2) d(3), unfolded d(4,5)])
  have area: "\<forall>x. paging_area (cr3 p) (p\<lparr>klog := []\<rparr>) x \<longrightarrow> boot_area h mm x" using px tx by simp
  obtain u where u: "init_heap (p\<lparr>klog := []\<rparr>) = Inr u" "heap_sys lim u [Seg 0x800000 (0x100000 - 29) True]"
    "globalPageTable u = cr3 u" "heapStart u = 0x800000" "heapEnd u = 0x900000"
    and ux: "\<forall>x. \<not> paging_area (cr3 p) p x \<longrightarrow> unat x < 0x800000 \<or> lim \<le> unat x \<longrightarrow> ram u x = ram p x \<and> \<not> paging_area (cr3 u) u x"
    by (rule init_heap_result [OF l low lim, of "p\<lparr>klog := []\<rparr>"]) (simp_all add: p(2,3) res area)
  have frame: "\<forall>x. \<not> boot_area h mm x \<longrightarrow> unat x < 0x800000 \<or> lim \<le> unat x \<longrightarrow> ram u x = ram s x \<and> \<not> paging_area (cr3 u) u x"
    using tx px ux by simp metis
  have "said frames_messages t" using said_init_frames [OF t(1), of "[]"] by (simp add: said_calls_def heard_def)
  moreover have "said (idt_messages @ paging_messages) p" by (rule said_init_paging [OF p(1) st1])
  moreover have "said heap_messages u" using said_init_heap [OF u(1), of "[]"] by (simp add: said_calls_def heard_def)
  ultimately show thesis using t(1) p(1) u frame by (intro that) (simp_all add: t1_def)
qed

lemma start_memory_returns:
  assumes ok: "loader_ok env lim k" and c: "transmits (device (con k))" "quiet (con k)"
  obtains u c where "start_memory env k = Some (Inr (k\<lparr>idt_table := initInts (vector_0_handler env) (idt_table k), memory := u, con := c\<rparr>))"
    and "heap_sys lim u [Seg 0x800000 (0x100000 - 29) True]" and "globalPageTable u = cr3 u" and "heapStart u = 0x800000" and "heapEnd u = 0x900000"
    and "\<forall>x. loader_keeps env lim (ram (memory k)) x \<longrightarrow> ram u x = ram (memory k) x \<and> \<not> paging_area (cr3 u) u x"
    and "quiet c" and "device c = device (con k)" and "cursor_ok (con k) \<longrightarrow> cursor_ok c" and "trace_grows (con k) c"
    and "tells memory_messages (con k) c"
proof -
  define m mm h kv where "m = ram (memory k)" and "mm = loader_memmap env m" and "h = loader_hhdm env m" and "kv = loader_base env m"
  define base where "base = field64 m limine_kernel_address_response (request_response m (kaddr_req env)) ''physical_base''"
  obtain x where l: "request_response m (memmap_req env) \<noteq> 0" "limine_map_ok mm" "boot_layout h kv mm" "entry_base x \<noteq> 0"
    "(1024 + boot_frames mm + unat (bitmap_pages mm) + 3) * 4096 \<le> unat (entry_length x)" "0x900000 \<le> lim" "lim \<le> unat (map_pages mm) * 4096"
    "outside_window lim mm" and seg: "largest_segment mm = Some x"
    using ok by (auto simp: loader_ok_def Let_def m_def mm_def h_def kv_def)
  obtain e where scan: "fold scan_entry mm (0, 0, memEnd (memory k)) = (entry_base x, entry_length x, e)"
    using scan_largest_segment [OF seg] by blast
  obtain t p u where r: "init_frames base kv h mm ((memory k)\<lparr>klog := []\<rparr>) = Inr t" "said frames_messages t"
    "init_paging mm (idt_done (t\<lparr>klog := []\<rparr>)) = Inr p" "said (idt_messages @ paging_messages) p" "init_heap (p\<lparr>klog := []\<rparr>) = Inr u"
    "said heap_messages u"
    and u: "heap_sys lim u [Seg 0x800000 (0x100000 - 29) True]" "globalPageTable u = cr3 u" "heapStart u = 0x800000" "heapEnd u = 0x900000"
    and frame: "\<forall>x. \<not> boot_area h mm x \<longrightarrow> unat x < 0x800000 \<or> lim \<le> unat x \<longrightarrow> ram u x = ram (memory k) x \<and> \<not> paging_area (cr3 u) u x"
    by (rule memory_stages [OF l(2,3) scan l(4,5,8,6,7)])
  obtain c1 where c1: "in_stage (\<lambda>s. Some (init_frames base kv h mm s)) k = Some (Inr (k\<lparr>memory := t, con := c1\<rparr>))" "quiet c1"
    "device c1 = device (con k)" "cursor_ok (con k) \<longrightarrow> cursor_ok c1" "trace_grows (con k) c1"
    "tells frames_messages (con k) c1"
    by (rule in_stage_returns [of "\<lambda>s. Some (init_frames base kv h mm s)" k t, OF _ r(2) c]) (simp add: r(1))
  define k1 where "k1 = k\<lparr>memory := t, con := c1, idt_table := initInts (vector_0_handler env) (idt_table k)\<rparr>"
  obtain c2 where c2: "in_stage (\<lambda>s. Some (init_paging mm (idt_done s))) k1 = Some (Inr (k1\<lparr>memory := p, con := c2\<rparr>))" "quiet c2"
    "device c2 = device c1" "cursor_ok c1 \<longrightarrow> cursor_ok c2" "trace_grows c1 c2"
    "tells (idt_messages @ paging_messages) c1 c2"
    by (rule in_stage_returns [of "\<lambda>s. Some (init_paging mm (idt_done s))" k1 p, OF _ r(4)]) (simp_all add: k1_def r(3) c c1(2,3))
  define k2 where "k2 = k1\<lparr>memory := p, con := c2\<rparr>"
  obtain c3 where c3: "in_stage (\<lambda>s. Some (init_heap s)) k2 = Some (Inr (k2\<lparr>memory := u, con := c3\<rparr>))" "quiet c3"
    "device c3 = device c2" "cursor_ok c2 \<longrightarrow> cursor_ok c3" "trace_grows c2 c3" "tells heap_messages c2 c3"
    by (rule in_stage_returns [of "\<lambda>s. Some (init_heap s)" k2 u, OF _ r(6)]) (simp_all add: k2_def r(5) c c1(3) c2(2,3))
  have "start_memory env k = bind_ro (in_stage (\<lambda>s. Some (init_frames base kv h mm s)) k) (\<lambda>k.
         let k = k\<lparr>idt_table := initInts (vector_0_handler env) (idt_table k)\<rparr> in
         bind_ro (in_stage (\<lambda>s. Some (init_paging mm (idt_done s))) k) (\<lambda>k. in_stage (\<lambda>s. Some (init_heap s)) k))"
    using l(1) by (simp add: start_memory_def Let_def m_def mm_def h_def kv_def base_def loader_memmap_def loader_hhdm_def loader_base_def)
  also have "\<dots> = Some (Inr (k2\<lparr>memory := u, con := c3\<rparr>))"
    using c1(1) c2(1) c3(1) by (simp add: k1_def k2_def)
  finally have eq: "start_memory env k = Some (Inr (k\<lparr>idt_table := initInts (vector_0_handler env) (idt_table k), memory := u, con := c3\<rparr>))"
    by (simp add: k1_def k2_def)
  have "\<forall>x. loader_keeps env lim (ram (memory k)) x \<longrightarrow> ram u x = ram (memory k) x \<and> \<not> paging_area (cr3 u) u x"
    using frame unfolding loader_keeps_def m_def mm_def h_def by blast
  moreover have "trace_grows (con k) c3" using c1(5) c2(5) c3(5) trace_grows_trans by blast
  moreover have "tells memory_messages (con k) c3"
    using tells_trans [OF tells_trans [OF c1(6) c2(6)] c3(6)] by (simp add: memory_messages_def)
  ultimately show thesis using eq u c1 c2 c3 by (intro that [of c3 u]) simp_all
qed

section \<open>Up to the heap\<close>

lemma kernel_to_heap:
  assumes "console_ready (con k)" and "loader_ok env lim k"
  obtains k' where "bind_ro (start_devices env k) (start_memory env) = Some (Inr k')"
    and "cpu k' = gdt_init (tss_at env) (gdt_at env) (cpu k)" and "idt_table k' = initInts (vector_0_handler env) (idt_table k)"
    and "heap_sys lim (memory k') [Seg 0x800000 (0x100000 - 29) True]" and "globalPageTable (memory k') = cr3 (memory k')"
    and "heapStart (memory k') = 0x800000" and "heapEnd (memory k') = 0x900000"
    and "keeps (loader_keeps env lim (ram (memory k))) (ram (memory k)) (hp.stable lim (memory k') {}) (ram (memory k'))"
    and "quiet (con k')" and "cursor_ok (con k')" and "device (con k') = device (con k)" and "trace_grows (con k) (con k')"
    and "\<exists>c. start_console (framebuffers_of (ram (memory k)) (framebuffer_req env)) (con k) = Some (Inr c) \<and>
      tells (gdt_messages @ memory_messages) c (con k')"
proof -
  obtain fb fbs where fb: "framebuffers_of (ram (memory k)) (framebuffer_req env) = Some (fb # fbs)"
    using assms(2) unfolding loader_ok_def Let_def by blast
  with assms(1) obtain c where c: "start_devices env k = Some (Inr (k\<lparr>cpu := gdt_init (tss_at env) (gdt_at env) (cpu k), con := c\<rparr>))"
    "quiet c" "device c = device (con k)" "cursor_ok c" "trace_grows (con k) c"
    and say: "\<exists>d. start_console (Some (fb # fbs)) (con k) = Some (Inr d) \<and> tells gdt_messages d c" by (rule start_devices_returns)
  let ?k = "k\<lparr>cpu := gdt_init (tss_at env) (gdt_at env) (cpu k), con := c\<rparr>"
  have k: "loader_ok env lim ?k" "transmits (device (con ?k))" "quiet (con ?k)"
    using assms c by (simp_all add: loader_ok_def console_ready_def)
  obtain u d where d: "start_memory env ?k = Some (Inr (?k\<lparr>idt_table := initInts (vector_0_handler env) (idt_table ?k), memory := u, con := d\<rparr>))"
    and u: "heap_sys lim u [Seg 0x800000 (0x100000 - 29) True]" "globalPageTable u = cr3 u" "heapStart u = 0x800000" "heapEnd u = 0x900000"
    and frame: "\<forall>x. loader_keeps env lim (ram (memory ?k)) x \<longrightarrow> ram u x = ram (memory ?k) x \<and> \<not> paging_area (cr3 u) u x"
    and e: "quiet d" "device d = device (con ?k)" "cursor_ok (con ?k) \<longrightarrow> cursor_ok d" "trace_grows (con ?k) d"
    "tells memory_messages (con ?k) d"
    by (rule start_memory_returns [OF k])
  have "keeps (loader_keeps env lim (ram (memory k))) (ram (memory k)) (hp.stable lim u {}) (ram u)"
    using frame u by (auto simp: keeps_def hp.stable_def outer_def loader_keeps_def)
  moreover have "trace_grows (con k) d" using c(5) e(4) trace_grows_trans by auto
  moreover have "\<exists>a. start_console (framebuffers_of (ram (memory k)) (framebuffer_req env)) (con k) = Some (Inr a) \<and>
      tells (gdt_messages @ memory_messages) a d" using say e(5) tells_trans unfolding fb by fastforce
  ultimately show thesis
    using c d u e by (intro that [of "?k\<lparr>idt_table := initInts (vector_0_handler env) (idt_table ?k), memory := u, con := d\<rparr>"]) simp_all
qed

section \<open>The self-test and ACPI\<close>

text \<open>The literals, the descriptor and the tables lie in memory on which the caller relies.\<close>

definition services_in :: "kernel_env \<Rightarrow> (u64 \<Rightarrow> bool) \<Rightarrow> mem \<Rightarrow> bool" where
  "services_in env S m \<longleftrightarrow> (let lits = log_lits env; al = acpi_lits env; bl = boot_lits env; lg = Logger_new (lit_ACPI bl) (lit_Kernel bl);
       rsdp = loader_rsdp env m in
     text_in S m (lit_copyable env) (chars ''Hello World!'') \<and>
     (\<forall>str\<in>{lit_enabling bl, lit_rsdp bl, lit_calling bl, lit_looking al, lit_found al, lit_enabled al}. info_words S m lits lg str) \<and>
     (\<exists>ss. log_words S m lits lg (lit_wrn lits) ''] $cY[WRN]$cF '' (lit_acpi2 bl) ss) \<and>
     relied_in S (rsdp_req env + 40) 8 \<and> relied_in S (request_response m (rsdp_req env) + 8) 8 \<and>
     relied_in S rsdp 20 \<and> relied_in S (lit_rsdptr bl) 8 \<and> acpi_tables_in S m (lit_FACP al) (ucast (load32 m (rsdp + 16))))"

lemma loader_rsdp_eq:
  "loader_rsdp env m = load64 m (request_response m (rsdp_req env) + 8)" "request_response m r = load64 m (r + 40)"
  by (simp_all add: loader_rsdp_def request_response_def field64_def limine_offsets)

lemma services_keeps:
  assumes k: "keeps S m S' m'" and s: "services_in env S m"
  shows "loader_rsdp env m' = loader_rsdp env m" and "load32 m' (loader_rsdp env m + 16) = load32 m (loader_rsdp env m + 16)"
    and "services_in env S' m'" and "signature_ok m' (loader_rsdp env m) (lit_rsdptr (boot_lits env)) = signature_ok m (loader_rsdp env m) (lit_rsdptr (boot_lits env))"
proof -
  let ?r = "loader_rsdp env m"
  have r: "relied_in S (rsdp_req env + 40) 8" "relied_in S (request_response m (rsdp_req env) + 8) 8" "relied_in S ?r 20"
    "relied_in S (lit_rsdptr (boot_lits env)) 8" using s by (simp_all add: services_in_def Let_def)
  have q: "request_response m' (rsdp_req env) = request_response m (rsdp_req env)"
    using relied_in_keeps(4) [OF k r(1)] by (simp add: loader_rsdp_eq)
  show e: "loader_rsdp env m' = ?r" using relied_in_keeps(4) [OF k r(2)] q by (simp add: loader_rsdp_eq(1))
  have "relied_in S ?r 8" "relied_in S (?r + 16) 4" using relied_sub [OF r(3), of 0 8] relied_sub [OF r(3), of 16 4] by simp_all
  then show l: "load32 m' (?r + 16) = load32 m (?r + 16)"
    and "signature_ok m' ?r (lit_rsdptr (boot_lits env)) = signature_ok m ?r (lit_rsdptr (boot_lits env))"
    using relied_in_keeps(2,3) [OF k] r(4) by (simp_all add: signature_ok_def)
  show "services_in env S' m'"
    using s text_in_keeps [OF k] log_words_keeps [OF k] relied_in_keeps(1) [OF k] acpi_tables_keeps(1) [OF k]
    unfolding services_in_def Let_def e l q info_words_def by blast
qed

lemma print_calls_run:
  fixes c :: "'c console_scheme"
  shows "run_ok True no_argument (trace_grows c) (print_calls ks c)"
proof (induction ks arbitrary: c)
  case (Cons k ks)
  have "run_ok True no_argument (trace_grows c) (print_call k c)"
    by (cases "chan k") (simp_all add: print_call_def kprintf_run)
  moreover have "run_ok True no_argument (trace_grows c) (print_calls ks d)" if "trace_grows c d" for d
    by (rule run_ok_mono [OF Cons.IH]) (simp_all add: trace_grows_trans [OF that])
  ultimately show ?case unfolding print_calls.simps by (rule run_ok_bind)
qed (simp add: trace_grows_refl)

abbreviation machine :: "kernel \<Rightarrow> boot \<times> console" where
  "machine k \<equiv> (memory k, con k)"

lemma heap_test_run:
  assumes h: "heap_holds lim (memory k) B" and room: "unat (heapEnd (memory k)) + 8192 \<le> lim"
    and lit: "text_at lim (memory k) B copyable (chars ''Hello World!'')"
  shows "run_ok True log_error (\<lambda>k'. log_kept lim B 8192 (machine k) (machine k') \<and> cpu k' = cpu k \<and> idt_table k' = idt_table k)
    (in_stage (heap_test copyable) k)"
proof -
  let ?s = "(memory k)\<lparr>klog := []\<rparr>"
  have "heap_room lim 16 ?s" using room by (simp add: heap_room_def align16_def round_page_def)
  then consider "heap_test copyable ?s = Some (Inl (Panic ''Out of memory''))"
    | t where "heap_test copyable ?s = Some (Inr t)" "heap_holds lim t B" "unat (heapEnd t) \<le> unat (heapEnd (memory k)) + 8192"
      "\<forall>x. hp.stable lim (memory k) B x \<longrightarrow> ram t x = ram (memory k) x \<and> hp.stable lim t B x"
    using heap_test_effect [of lim ?s B copyable] h lit by auto
  then show ?thesis
  proof cases
    case 1
    then show ?thesis by (simp add: in_stage_def log_error_def)
  next
    case (2 t)
    have "run_ok True log_error (trace_grows (con k)) (print_calls (klog t) (con k))"
      by (rule run_ok_mono [OF print_calls_run]) (simp_all add: log_error_def)
    then have "run_ok True log_error (\<lambda>k'. log_kept lim B 8192 (machine k) (machine k') \<and> cpu k' = cpu k \<and> idt_table k' = idt_table k)
        (bind_ro (print_calls (klog t) (con k)) (\<lambda>c. Some (Inr (k\<lparr>memory := t, con := c\<rparr>))))"
      by (rule run_ok_bind) (use 2 in \<open>simp add: log_kept_def\<close>)
    then show ?thesis using 2(1) by (simp add: in_stage_def)
  qed
qed

lemma acpi_enabled_from:
  assumes "log_kept lim B n s t" and "acpi_tables lim B lit rsdt (fst s)" and "acpi_enabled lim B l rsdt t r"
  shows "acpi_enabled lim B (n + l) rsdt s r"
  using assms(1,3) log_kept_trans [of lim B n s t l "snd r"] acpi_tables_kept(2,3) [OF assms(1,2)]
  by (auto simp: acpi_enabled_def log_kept_def trace_grows_def) (metis append.assoc)

text \<open>What holds when the last stage returns.\<close>

definition services_up :: "kernel_env \<Rightarrow> nat \<Rightarrow> kernel \<Rightarrow> u64 \<times> kernel \<Rightarrow> bool" where
  "services_up env lim k r \<longleftrightarrow> (let m = ram (memory k); rsdp = loader_rsdp env m; k' = snd r in
     signature_ok m rsdp (lit_rsdptr (boot_lits env)) \<and> cpu k' = cpu k \<and> idt_table k' = idt_table k \<and>
     acpi_enabled lim {} (8192 + 7 * 24576) (ucast (load32 m (rsdp + 16))) (machine k) (fst r, machine k'))"

lemma start_services_run:
  assumes h: "heap_holds lim (memory k) {}" and room: "unat (heapEnd (memory k)) + 8192 + 7 * 24576 \<le> lim"
    and s: "services_in env (hp.stable lim (memory k) {}) (ram (memory k))"
  shows "run_ok True (acpi_error (ram (memory k)) (loader_rsdp env (ram (memory k))) (lit_rsdptr (boot_lits env)))
    (services_up env lim k) (start_services env k)"
proof -
  let ?m = "ram (memory k)" and ?bl = "boot_lits env"
  let ?r = "loader_rsdp env ?m" and ?E = "acpi_error ?m (loader_rsdp env ?m) (lit_rsdptr ?bl)"
  have t: "run_ok True ?E (\<lambda>k'. log_kept lim {} 8192 (machine k) (machine k') \<and> cpu k' = cpu k \<and> idt_table k' = idt_table k)
      (in_stage (heap_test (lit_copyable env)) k)"
    by (rule run_ok_mono [OF heap_test_run [OF h]]) (use room s in \<open>auto simp: services_in_def Let_def acpi_error_def\<close>)
  show ?thesis
    unfolding start_services_def Let_def
  proof (rule run_ok_bind [OF t], elim conjE)
    fix k1 assume k1: "log_kept lim {} 8192 (machine k) (machine k1)" and same: "cpu k1 = cpu k" "idt_table k1 = idt_table k"
    note s1 = services_keeps [OF log_kept_keeps [OF k1, unfolded fst_conv] s]
    define m1 where "m1 = ram (memory k1)"
    have h1: "heap_holds lim (memory k1) {}" "unat (heapEnd (memory k1)) + 7 * 24576 \<le> lim" using k1 room by (simp_all add: log_kept_def)
    have a: "acpi_tables lim {} (lit_FACP (acpi_lits env)) (ucast (load32 ?m (?r + 16))) (memory k)"
      using s by (simp add: services_in_def Let_def)
    obtain ss where "log_text lim {} (log_lits env) (Logger_new (lit_ACPI ?bl) (lit_Kernel ?bl)) (lit_wrn (log_lits env)) ''] $cY[WRN]$cF ''
        (lit_acpi2 ?bl) ss (memory k1)" using s1(3) unfolding services_in_def Let_def by blast
    note run = init_acpi_run [OF h1 refl _ this, of "acpi_lits env" ?r, OF _ _ _ refl, of "con k1"]
    have "run_ok True (acpi_error m1 ?r (lit_rsdptr ?bl)) (\<lambda>q. signature_ok m1 ?r (lit_rsdptr ?bl) \<and>
        acpi_enabled lim {} (7 * 24576) (ucast (load32 m1 (?r + 16))) (machine k1) q)
        (init_acpi (log_lits env) (acpi_lits env) ?bl ?r (machine k1))"
      unfolding m1_def by (rule run) (use s1(3) in \<open>simp_all add: services_in_def Let_def s1(1)\<close>)
    moreover have "acpi_error m1 ?r (lit_rsdptr ?bl) = ?E"
      using acpi_tables_kept(2) [OF k1, unfolded fst_conv, OF a] s1(2,4) by (simp add: fun_eq_iff acpi_error_def no_FACP_def m1_def)
    ultimately have "run_ok True ?E (\<lambda>q. signature_ok ?m ?r (lit_rsdptr ?bl) \<and>
        acpi_enabled lim {} (8192 + 7 * 24576) (ucast (load32 ?m (?r + 16))) (machine k) q)
        (init_acpi (log_lits env) (acpi_lits env) ?bl ?r (machine k1))"
      using acpi_enabled_from [OF k1, unfolded fst_conv, OF a, where l = "7 * 24576"] s1(2,4) by (auto simp: m1_def elim!: run_ok_mono)
    then show "run_ok True ?E (services_up env lim k) (bind_ro (init_acpi (log_lits env) (acpi_lits env) ?bl
        (field64 (ram (memory k1)) limine_rsdp_response (request_response (ram (memory k1)) (rsdp_req env)) ''address'') (machine k1))
        (\<lambda>(facp, s, c). Some (Inr (facp, k1\<lparr>memory := s, con := c\<rparr>))))"
      unfolding loader_rsdp_def [symmetric] s1(1)
      by (rule run_ok_bind) (auto simp: services_up_def Let_def same)
  qed
qed

section \<open>A machine\<close>

text \<open>The requests at 0xB00000, the responses behind them, and the page with the literals and the ACPI tables.\<close>

definition loader_words :: "(u64 \<times> u64) list" where
  "loader_words = [(0xB00028, 0xB00100), (0xB00058, 0xB00140), (0xB00088, 0xB00160), (0xB000b8, 0xB00180), (0xB000e8, 0xB001a0),
     (0xB00108, 1), (0xB00110, 0xB00120), (0xB00120, 0xB00300), (0xB00148, 5), (0xB00150, 0xB001c0), (0xB001c0, 0xB00200),
     (0xB00168, limine_hhdm), (0xB00188, 0x800000), (0xB00190, limine_kernel), (0xB001a8, 0xA00050),
     (0xB00200, 0x1000), (0xB00208, 0x9e000), (0xB00210, 0), (0xB00218, 0x9fc00), (0xB00220, 0x400), (0xB00228, 1),
     (0xB00230, 0x100000), (0xB00238, 0x700000), (0xB00240, 0), (0xB00248, 0x800000), (0xB00250, 0x20000), (0xB00258, 6),
     (0xB00260, 0x820000), (0xB00268, 0x7e0000), (0xB00270, 1)]"

definition loader_mem :: mem where
  "loader_mem x = (if on_page x then acpi_page_mem x else foldr (\<lambda>(a, v) m. store64 m a v) loader_words (\<lambda>_. 0) x)"

lemma load_words:
  assumes "(a, v) \<in> set ws" and "distinct (map fst ws)" and "\<forall>w\<in>set ws. unat (fst w) mod 8 = 0"
  shows "load64 (foldr (\<lambda>(a, v) m. store64 m a v) ws m) a = v"
  using assms
proof (induction ws)
  case (Cons w ws)
  obtain b u where w: "w = (b, u)" by (cases w)
  show ?case
  proof (cases "b = a")
    case True
    then have "u = v" using Cons.prems w by (force simp: image_iff)
    with True show ?thesis by (simp add: w c64.load_store)
  next
    case False
    then have m: "(a, v) \<in> set ws" using Cons.prems(1) w by auto
    have al: "unat a mod 8 = 0" "unat b mod 8 = 0" using Cons.prems(1,3) w by force+
    have "8 dvd unat a" "8 dvd unat b" using al by (simp_all add: mod_eq_0_iff_dvd)
    then obtain i j where ij: "unat a = 8 * i" "unat b = 8 * j" by (metis dvdE)
    have "i \<noteq> j" using False ij by (auto simp: word_unat_eq_iff)
    moreover have "8 * i < 2 ^ 64" "8 * j < 2 ^ 64" using ij unat_lt_64 [of a] unat_lt_64 [of b] by simp_all
    ultimately have "region_disjoint b 8 a 8" using ij by (intro region_disjoint_no_wrap) auto
    then have "load64 (store64 (foldr (\<lambda>(a, v) m. store64 m a v) ws m) b u) a = load64 (foldr (\<lambda>(a, v) m. store64 m a v) ws m) a"
      by (rule c64.load_store_other)
    with Cons.IH [OF m] Cons.prems show ?thesis by (simp add: w)
  qed
qed simp

lemma loader_mem_load:
  assumes "(a, v) \<in> set loader_words"
  shows "load64 loader_mem a = v"
proof -
  have w: "\<forall>w\<in>set loader_words. unat (fst w) mod 8 = 0" "\<forall>w\<in>set loader_words. 0xB00000 \<le> unat (fst w) \<and> unat (fst w) < 0xB00280"
    "distinct (map fst loader_words)" by (simp_all add: loader_words_def)
  from w(2) assms have "0xB00000 \<le> unat a" "unat a < 0xB00280" by force+
  then have "load64 loader_mem a = load64 (foldr (\<lambda>(a, v) m. store64 m a v) loader_words (\<lambda>_. 0)) a"
    by (intro c64.load_cong) (simp add: loader_mem_def on_page_def in_region_no_wrap)
  then show ?thesis using load_words [OF assms w(3,1)] by simp
qed

lemma loader_mem_loads:
  "load64 loader_mem 0xB00028 = 0xB00100" "load64 loader_mem 0xB00058 = 0xB00140" "load64 loader_mem 0xB00088 = 0xB00160"
  "load64 loader_mem 0xB000b8 = 0xB00180" "load64 loader_mem 0xB000e8 = 0xB001a0" "load64 loader_mem 0xB00108 = 1"
  "load64 loader_mem 0xB00148 = 5" "load64 loader_mem 0xB00150 = 0xB001c0" "load64 loader_mem 0xB001c0 = 0xB00200"
  "load64 loader_mem 0xB00168 = limine_hhdm" "load64 loader_mem 0xB00190 = limine_kernel" "load64 loader_mem 0xB001a8 = 0xA00050"
  "load64 loader_mem 0xB00200 = 0x1000" "load64 loader_mem 0xB00208 = 0x9e000" "load64 loader_mem 0xB00210 = 0"
  "load64 loader_mem 0xB00218 = 0x9fc00" "load64 loader_mem 0xB00220 = 0x400" "load64 loader_mem 0xB00228 = 1"
  "load64 loader_mem 0xB00230 = 0x100000" "load64 loader_mem 0xB00238 = 0x700000" "load64 loader_mem 0xB00240 = 0"
  "load64 loader_mem 0xB00248 = 0x800000" "load64 loader_mem 0xB00250 = 0x20000" "load64 loader_mem 0xB00258 = 6"
  "load64 loader_mem 0xB00260 = 0x820000" "load64 loader_mem 0xB00268 = 0x7e0000" "load64 loader_mem 0xB00270 = 1"
  by (rule loader_mem_load, simp add: loader_words_def)+

definition env_example :: kernel_env where
  "env_example = \<lparr>framebuffer_req = 0xB00000, memmap_req = 0xB00030, hhdm_req = 0xB00060, kaddr_req = 0xB00090, rsdp_req = 0xB000c0,
     tss_at = 0xffffffff80003000, gdt_at = 0xffffffff80004000, gdtDescriptor_at = 0xffffffff80005000, vector_0_handler = 0xffffffff80006000,
     lit_copyable = 0xA00135, log_lits = log_example, acpi_lits = acpi_example, boot_lits = boot_example\<rparr>"

definition kernel_example :: kernel where
  "kernel_example = \<lparr>cpu = \<lparr>gdt = defaultGDT, gdtDescriptor = \<lparr>gdt_Size = 0, gdt_Offset = 0\<rparr>, gdtr = \<lparr>gdt_Size = 0, gdt_Offset = 0\<rparr>,
       task_register = 0\<rparr>,
     idt_table = (\<lambda>_. \<lparr>addressLow = 0, selector = 0, ist = 0, flags = 0, addressMid = 0, addressHigh = 0, reserved = 0\<rparr>),
     memory = boot_state\<lparr>ram := loader_mem\<rparr>, con = console_example\<rparr>"

lemma kernel_example_memory: "ram (memory kernel_example) = loader_mem" "memEnd (memory kernel_example) = memEnd boot_state"
  by (simp_all add: kernel_example_def)

lemma example_responses:
  "loader_memmap env_example loader_mem = window_map" "loader_hhdm env_example loader_mem = limine_hhdm"
  "loader_base env_example loader_mem = limine_kernel" "loader_rsdp env_example loader_mem = 0xA00050"
  "request_response loader_mem (memmap_req env_example) = 0xB00140" "request_response loader_mem (rsdp_req env_example) = 0xB001a0"
  "\<exists>fb. framebuffers_of loader_mem (framebuffer_req env_example) = Some [fb]"
proof -
  have r: "request_response m a = load64 m (a + 40)" for m a by (simp add: loader_rsdp_eq)
  have "count_upto 5 = [0, 1, 2, 3, 4 :: u64]" "count_upto 1 = [0 :: u64]" by (simp_all add: count_upto_def upt_rec)
  then show "loader_memmap env_example loader_mem = window_map" "\<exists>fb. framebuffers_of loader_mem (framebuffer_req env_example) = Some [fb]"
    by (simp_all add: loader_memmap_def read_memmap_eq read_entry_eq r env_example_def loader_mem_loads framebuffers_of_def field64_def limine_offsets
        window_map_def kernel_map_def boot_map_def)
  show "loader_hhdm env_example loader_mem = limine_hhdm" "loader_base env_example loader_mem = limine_kernel"
    "loader_rsdp env_example loader_mem = 0xA00050" "request_response loader_mem (memmap_req env_example) = 0xB00140"
    "request_response loader_mem (rsdp_req env_example) = 0xB001a0"
    by (simp_all add: loader_hhdm_def loader_base_def loader_rsdp_def r env_example_def field64_def limine_offsets loader_mem_loads)
qed

lemma window_map_ok:
  "limine_map_ok window_map" "boot_layout limine_hhdm limine_kernel window_map"
  "largest_segment window_map = Some boot_segment"
  "(1024 + boot_frames window_map + unat (bitmap_pages window_map) + 3) * 4096 \<le> unat (0x700000 :: u64)"
  "\<forall>x\<in>set window_map. is_usable x \<longrightarrow> 4096 \<le> unat (entry_base x) \<and> unat (entry_base x) + unat (entry_length x) \<le> 0x800000"
  "unat (map_pages window_map) * 4096 = 0x1000000" "unat (bitmap_bytes window_map * 8) \<le> 4104"
  by (simp_all add: window_map_def kernel_map_def boot_map_def limine_map_ok_def is_usable_def boot_layout_def largest_segment_def entry_end_def
      boot_frames_def size_in_pages_def getMemoryArealSize_def)

lemma example_ready: "console_ready (con kernel_example)" "loader_ok env_example 0xA00000 kernel_example"
proof -
  show "console_ready (con kernel_example)" by (simp add: kernel_example_def console_ready_def quiet_def)
  show "loader_ok env_example 0xA00000 kernel_example"
    using window_map_ok example_responses by (auto simp: loader_ok_def outside_window_def Let_def kernel_example_memory)
qed

lemma example_keeps:
  assumes "0xA00000 \<le> unat x" and "unat x < 0x1000000"
  shows "loader_keeps env_example 0xA00000 loader_mem x"
proof -
  have "\<not> boot_area limine_hhdm window_map x"
  proof
    assume "boot_area limine_hhdm window_map x"
    then consider j where "j \<in> usable_pages window_map" "unat j * 4096 \<le> unat x" "unat x < unat j * 4096 + 4096"
      | j where "map_pages window_map \<le> j" "unat j * 4096 \<le> unat x"
      using assms unfolding boot_area_def by auto
    then show False
    proof cases
      case (1 j)
      then obtain e where e: "e \<in> set window_map" "is_usable e" "j \<in> entry_pages e" by (auto simp: usable_pages_def)
      then have "unat j * 4096 + 4096 \<le> 0x800000" using entry_page_bounds [OF window_map_ok(1) e] window_map_ok(5) by force
      then show False using 1 assms by simp
    next
      case (2 j)
      then have "unat (map_pages window_map) * 4096 \<le> unat x" by (simp add: word_le_nat_alt)
      then show False using window_map_ok(6) assms by simp
    qed
  qed
  moreover have "\<not> in_region 20 8 x" using assms by (simp add: in_region_no_wrap)
  ultimately show ?thesis using assms by (simp add: loader_keeps_def example_responses)
qed

lemma example_services: "services_in env_example (loader_keeps env_example 0xA00000 loader_mem) loader_mem"
  and example_page: "keeps on_page acpi_page_mem (loader_keeps env_example 0xA00000 loader_mem) loader_mem"
proof -
  let ?S = "loader_keeps env_example 0xA00000 loader_mem"
  show k: "keeps on_page acpi_page_mem ?S loader_mem"
    unfolding keeps_def using example_keeps by (auto simp: loader_mem_def on_page_def)
  have e: "log_lits env_example = log_example" "acpi_lits env_example = acpi_example" "boot_lits env_example = boot_example"
    "lit_copyable env_example = 0xA00135" "rsdp_req env_example = 0xB000c0" by (simp_all add: env_example_def)
  have l: "lit_ACPI boot_example = 0xA0002e" "lit_Kernel boot_example = 0xA00027" "lit_enabling boot_example = 0xA00033" "lit_rsdp boot_example = 0xA00033" "lit_calling boot_example = 0xA00033"
    "lit_acpi2 boot_example = 0xA00033" "lit_rsdptr boot_example = 0xA0003b" "lit_looking acpi_example = 0xA00033"
    "lit_found acpi_example = 0xA00033" "lit_enabled acpi_example = 0xA00033" "lit_FACP acpi_example = 0xA00037"
    by (simp_all add: acpi_example_def boot_example_def)
  note rel = relied_in_keeps [OF k on_page_region]
  have hello: "text_in ?S loader_mem 0xA00135 (chars ''Hello World!'')"
    by (rule text_in_keeps [OF k], rule on_page_text [OF acpi_page_values(10)]) (simp_all add: chars_def)
  have rsdt: "load32 loader_mem 0xA00060 = 0xA00080" by (simp add: rel(3) [of _ 4] acpi_page_values)
  have req: "relied_in ?S 0xB000e8 8" "relied_in ?S 0xB001a8 8" by (simp_all add: relied_in_def in_region_no_wrap example_keeps)
  have "\<exists>ss. log_words ?S loader_mem log_example (Logger_new 0xA0002e 0xA00027) (lit_wrn log_example)
      ''] $cY[WRN]$cF '' 0xA00033 ss" using on_page_words(2) log_words_keeps [OF k] by blast
  moreover have "info_words ?S loader_mem log_example (Logger_new 0xA0002e 0xA00027) 0xA00033"
    using on_page_words(1) log_words_keeps [OF k] unfolding info_words_def by blast
  ultimately show "services_in env_example ?S loader_mem"
    using hello req acpi_tables_keeps(1) [OF k on_page_tables(1)] unfolding services_in_def Let_def e l example_responses
    by (simp add: rel(1) rsdt example_responses(6) [unfolded e])
qed


section \<open>Properties\<close>





end
