(* ===== verification/Selftest.thy ===== *)
theory Selftest
  imports Kernel Klist
begin

text \<open>
  The self-tests of \<open>_start\<close>, \<^verbatim>\<open>kernel/kernel.cpp\<close>, that the macros \<^verbatim>\<open>DBG_DUMPMEMMAP\<close>, \<^verbatim>\<open>DBG_TESTLOGGERMEMLEAK\<close>, \<^verbatim>\<open>DBG_TESTPIT\<close> and
  \<^verbatim>\<open>DBG_TESTLISTS\<close> compile in. None of the macros is defined in the source as it stands, so \<open>kernel_start\<close> does not contain them.
\<close>

section \<open>The memory map\<close>

definition dump_entry :: "u64 \<Rightarrow> u64 \<Rightarrow> limine_memmap_entry \<Rightarrow> kcall list \<Rightarrow> kcall list" where
  "dump_entry hhdm virtual_base x = log_serial ''0x%x | + hhdm 0x%x | + kvirtoff 0x%x [size = 0x%x, type = %d (%s)]\<newline>''
     [Num (entry_base x), Num (hhdm + entry_base x), Num (virtual_base + entry_base x), Num (entry_length x),
      Num (entry_type x), Str (getMemoryMappingName (entry_type x))]"

definition dump_memmap :: "u64 \<Rightarrow> u64 \<Rightarrow> memmap \<Rightarrow> 'z pfa_scheme \<Rightarrow> 'z pfa_scheme" where
  "dump_memmap hhdm virtual_base mm s =
     s\<lparr>klog := fold (dump_entry hhdm virtual_base) mm (log_serial ''[dbg] Dumping memory map\<newline>'' [] (klog s))\<rparr>"

section \<open>Memory leaks of the logger\<close>

record leak_literals =
  lit_Test :: u64
  lit_TestKernel :: u64
  lit_checking :: u64
  lit_info_from :: u64
  lit_warn_from :: u64
  lit_error_from :: u64
  lit_before :: u64
  lit_how_much :: u64

text \<open>Up to the first report: the memory in use before and after four log lines.\<close>

definition leak_check :: "log_literals \<Rightarrow> leak_literals \<Rightarrow> Logger \<Rightarrow> 'h heap_scheme \<times> 'c console_scheme \<Rightarrow>
    (u64 \<times> u64 \<times> 'h heap_scheme \<times> 'c console_scheme) res option" where
  "leak_check lits ts testLogger = (\<lambda>(h, c).
     Option.bind (getUsedMem h) (\<lambda>used.
     bind_ro (Logger_info lits testLogger (lit_checking ts) [] (h, c)) (\<lambda>(h, c).
     bind_ro (Logger_info lits testLogger (lit_info_from ts) [] (h, c)) (\<lambda>(h, c).
     bind_ro (Logger_warn lits testLogger (lit_warn_from ts) [] (h, c)) (\<lambda>(h, c).
     bind_ro (Logger_error lits testLogger (lit_error_from ts) [] (h, c)) (\<lambda>(h, c).
     Option.bind (getUsedMem h) (\<lambda>after. Some (Inr (used, after, h, c)))))))))"

definition leak_test :: "log_literals \<Rightarrow> leak_literals \<Rightarrow> 'h heap_scheme \<times> 'c console_scheme \<Rightarrow>
    ('h heap_scheme \<times> 'c console_scheme) res option" where
  "leak_test lits ts s =
     (let testLogger = Logger_new (lit_Test ts) (lit_TestKernel ts) in
     bind_ro (leak_check lits ts testLogger s) (\<lambda>(used, after, h, c).
     bind_ro (Logger_info lits testLogger (lit_before ts) [VNum used, VNum after] (h, c)) (\<lambda>(h, c).
     bind_ro (Logger_info lits testLogger (lit_how_much ts) [] (h, c)) (\<lambda>(h, c).
     bind_ro (malloc 4 h) (\<lambda>(testBlockOfMemory, h).
     Option.bind (getUsedMem h) (\<lambda>after.
     bind_ro (Logger_info lits testLogger (lit_before ts) [VNum used, VNum after] (h, c)) (\<lambda>(h, c).
     Some (Inr (sfree testBlockOfMemory 4 h, c)))))))))"

section \<open>The interval timer\<close>

record pit_literals =
  lit_PIT :: u64
  lit_PITKernel :: u64
  lit_count :: u64
  lit_check :: u64

definition pit_test :: "log_literals \<Rightarrow> pit_literals \<Rightarrow> ('p pit_scheme \<Rightarrow> 'p pit_scheme) \<Rightarrow>
    'p pit_scheme \<times> 'h heap_scheme \<times> 'c console_scheme \<Rightarrow> ('p pit_scheme \<times> 'h heap_scheme \<times> 'c console_scheme) res option" where
  "pit_test lits ts hlt = (\<lambda>(p, h, c).
     let pitLogger = Logger_new (lit_PIT ts) (lit_PITKernel ts);
         timer = Timer_new p in
     bind_ro (Logger_info lits pitLogger (lit_count ts) [] (h, c)) (\<lambda>(h, c).
     let timer = Timer_start p timer in
     Option.bind (sleepSeconds hlt 5 p) (\<lambda>p.
     let timer = Timer_stop p timer in
     bind_ro (Logger_info lits pitLogger (lit_check ts) [VNum (getElapsedMillis timer)] (h, c)) (\<lambda>(h, c).
     Some (Inr (p, h, c))))))"

section \<open>Lists\<close>

record list_literals =
  lit_ListTest :: u64
  lit_ListKernel :: u64
  lit_shows :: "u64 list"
  lit_sorting :: u64

text \<open>
  \<open>new List<u16>()\<close>: the object is a block of 24 bytes whose fields are a record. Each line shows an element and says in its text
  which value is expected; the expected value is an argument of \<open>look\<close>, the function by which the element is read. The literal of a line
  that occurs twice is one string.
\<close>

definition show_item :: "(u16 \<Rightarrow> u64 \<Rightarrow> klist \<Rightarrow> mem \<Rightarrow> u16) \<Rightarrow> log_literals \<Rightarrow> Logger \<Rightarrow> u16 \<times> u64 \<times> u64 \<Rightarrow>
    klist \<times> 'h heap_scheme \<times> 'c console_scheme \<Rightarrow> (klist \<times> 'h heap_scheme \<times> 'c console_scheme) res option" where
  "show_item look lits lg = (\<lambda>(expected, index, str) (l, h, c).
     bind_ro (Logger_info lits lg str [VNum (ucast (look expected index l (ram h)))] (h, c)) (\<lambda>(h, c). Some (Inr (l, h, c))))"

primrec all_steps :: "('x \<Rightarrow> 's \<Rightarrow> 's res option) \<Rightarrow> 'x list \<Rightarrow> 's \<Rightarrow> 's res option" where
  "all_steps f [] s = Some (Inr s)"
| "all_steps f (x # xs) s = bind_ro (f x s) (all_steps f xs)"

definition add_item :: "u16 \<Rightarrow> klist \<times> 'h heap_scheme \<times> 'c console_scheme \<Rightarrow> (klist \<times> 'h heap_scheme \<times> 'c console_scheme) res option" where
  "add_item item = (\<lambda>(l, h, c). bind_ro (list_add u16_elem item l h) (\<lambda>(l, h). Some (Inr (l, h, c))))"

definition remove_test :: "(u16 \<Rightarrow> u64 \<Rightarrow> klist \<Rightarrow> mem \<Rightarrow> u16) \<Rightarrow> log_literals \<Rightarrow> list_literals \<Rightarrow> Logger \<Rightarrow>
    klist \<times> 'h heap_scheme \<times> 'c console_scheme \<Rightarrow> (klist \<times> 'h heap_scheme \<times> 'c console_scheme) res option" where
  "remove_test look lits ts lg s =
     (let str = (\<lambda>i. lit_shows ts ! i) in
     bind_ro (all_steps (show_item look lits lg) [(30, 0, str 0), (60, 1, str 1), (90, 2, str 2)] s) (\<lambda>(l, h, c).
     let (l, m) = remove_at u16_elem 1 (l, ram h) in
     all_steps (show_item look lits lg) [(30, 0, str 0), (90, 1, str 2), (0, 2, str 3)] (l, h\<lparr>ram := m\<rparr>, c)))"

definition sort_test :: "(u16 \<Rightarrow> u64 \<Rightarrow> klist \<Rightarrow> mem \<Rightarrow> u16) \<Rightarrow> log_literals \<Rightarrow> list_literals \<Rightarrow> Logger \<Rightarrow>
    klist \<times> 'h heap_scheme \<times> 'c console_scheme \<Rightarrow> (klist \<times> 'h heap_scheme \<times> 'c console_scheme) res option" where
  "sort_test look lits ts lg = (\<lambda>(l, h, c).
     let str = (\<lambda>i. lit_shows ts ! i);
         l = list_clear l in
     bind_ro (Logger_info lits lg (lit_sorting ts) [] (h, c)) (\<lambda>(h, c).
     bind_ro (all_steps add_item [34, 12, 56, 90, 78] (l, h, c)) (\<lambda>(l, h, c).
     let h = h\<lparr>ram := list_sort u16_elem l (ram h)\<rparr> in
     all_steps (show_item look lits lg) [(12, 0, str 4), (34, 1, str 5), (56, 2, str 6), (78, 3, str 7), (90, 4, str 2)] (l, h, c))))"

definition list_test_via :: "(u16 \<Rightarrow> u64 \<Rightarrow> klist \<Rightarrow> mem \<Rightarrow> u16) \<Rightarrow> log_literals \<Rightarrow> list_literals \<Rightarrow> 'h heap_scheme \<times> 'c console_scheme \<Rightarrow>
    (klist \<times> 'h heap_scheme \<times> 'c console_scheme) res option" where
  "list_test_via look lits ts = (\<lambda>(h, c).
     bind_ro (malloc 24 h) (\<lambda>(this, h).
     if this = 0 then Some (Inl (Undefined ''null list''))
     else bind_ro (List_new_default u16_elem h) (\<lambda>(l, h).
     bind_ro (all_steps add_item [30, 60, 90] (l, h, c)) (\<lambda>s.
     let lg = Logger_new (lit_ListTest ts) (lit_ListKernel ts) in
     bind_ro (remove_test look lits ts lg s) (sort_test look lits ts lg)))))"

definition list_test :: "log_literals \<Rightarrow> list_literals \<Rightarrow> 'h heap_scheme \<times> 'c console_scheme \<Rightarrow>
    (klist \<times> 'h heap_scheme \<times> 'c console_scheme) res option" where
  "list_test = list_test_via (\<lambda>_. list_get u16_elem)"

end
