(* ===== verification/Selftest_Props.thy ===== *)
theory Selftest_Props
  imports Selftest Kernel_Props Klist_Props
begin

text \<open>The self-tests of the kernel succeed: the logger leaks nothing, the stop watch agrees with the sleep, lists behave as their test expects.\<close>

section \<open>The memory map\<close>

lemma mapping_name_no_dollar: "of_char CHR ''$'' \<notin> set (chars (getMemoryMappingName t))"
  by (simp add: getMemoryMappingName_def chars_def)

text \<open>The dump can be printed to its end, whatever the memory map is.\<close>

lemma said_dump_memmap:
  assumes "can_print_all (klog s)"
  shows "can_print_all (klog (dump_memmap hhdm virtual_base mm s))"
proof -
  have e: "can_print_all (dump_entry hhdm virtual_base x l)" if "can_print_all l" for x l
    unfolding dump_entry_def can_print_all_log
    using that itoa_no_dollar hex16_no_dollar mapping_name_no_dollar [of "entry_type x"]
    by (simp add: can_print_def chars_def convert_def num_arg_def)
  have "can_print ''[dbg] Dumping memory map\<newline>'' []" by (simp add: can_print_def chars_def)
  then have "can_print_all (log_serial ''[dbg] Dumping memory map\<newline>'' [] (klog s))" using assms by (simp add: can_print_all_log)
  then have "can_print_all (fold (dump_entry hhdm virtual_base) mm (log_serial ''[dbg] Dumping memory map\<newline>'' [] (klog s)))"
    by (rule fold_inv) (rule e)
  then show ?thesis by (simp add: dump_memmap_def)
qed

section \<open>Memory in use\<close>

text \<open>\<open>getUsedMem\<close> is a function of the blocks: their lengths, with a header of 29 bytes for each.\<close>

lemma getUsedMem_blocks:
  assumes "heap_holds lim h B"
  shows "getUsedMem h = Some (\<Sum>(p, l)\<in>B. l + 29)"
proof -
  obtain ss where inv: "heap_inv h ss" and B: "blocks ss = B" using assms by (auto simp: heap_holds_def heap_sys_def)
  have "heap_ok h ss" using inv by (simp add: heap_inv_def)
  then have "distinct (map sg_addr ss)" by (auto simp: heap_ok_def intro: tiles_distinct)
  then have "(\<Sum>s\<leftarrow>filter (\<lambda>s. \<not> sg_free s) ss. sg_len s + 29) = (\<Sum>(p, l)\<in>blocks ss. l + 29)"
  proof (induction ss)
    case (Cons s ss)
    have "finite (blocks ss)" by (induction ss) simp_all
    moreover have "(sg_addr s + 29, sg_len s) \<notin> blocks ss" using Cons.prems by (auto simp: blocks_def)
    ultimately show ?case using Cons by simp
  qed simp
  then show ?thesis using getUsedMem_sum [OF inv] B by simp
qed

lemma used_after_malloc:
  assumes "heap_holds lim h B" and "heap_holds lim t (insert (p, len) B)" and "p \<notin> fst ` B" and "getUsedMem h = Some n"
  shows "getUsedMem t = Some (n + (len + 29))"
proof -
  have "finite (insert (p, len) B)"
  proof -
    obtain ss where "blocks ss = insert (p, len) B" using assms(2) by (auto simp: heap_holds_def)
    moreover have "finite (blocks ss)" by (induction ss) simp_all
    ultimately show ?thesis by simp
  qed
  moreover have "(p, len) \<notin> B" using assms(3) by force
  ultimately show ?thesis using getUsedMem_blocks [OF assms(1)] getUsedMem_blocks [OF assms(2)] assms(4) by (simp add: add.commute)
qed

section \<open>The logger\<close>

text \<open>The texts of the leak test.\<close>

definition leak_texts :: "(u64 \<Rightarrow> bool) \<Rightarrow> mem \<Rightarrow> log_literals \<Rightarrow> leak_literals \<Rightarrow> bool" where
  "leak_texts S m lits ts \<longleftrightarrow> (let lg = Logger_new (lit_Test ts) (lit_TestKernel ts) in
     (\<forall>str\<in>{lit_checking ts, lit_info_from ts, lit_before ts, lit_how_much ts}. info_words S m lits lg str) \<and>
     (\<exists>ss. log_words S m lits lg (lit_wrn lits) ''] $cY[WRN]$cF '' (lit_warn_from ts) ss) \<and>
     (\<exists>ss. log_words S m lits lg (lit_err lits) ''] $cR[ERR]$cF '' (lit_error_from ts) ss))"

lemma log_kept_used:
  assumes "heap_holds lim (fst s) B" and "log_kept lim B n s t"
  shows "getUsedMem (fst t) = getUsedMem (fst s)"
  using getUsedMem_blocks [OF assms(1)] getUsedMem_blocks [of lim "fst t" B] assms(2) by (simp add: log_kept_def)

lemma run_ok_option: "x = Some y \<Longrightarrow> run_ok N E Q (k y) \<Longrightarrow> run_ok N E Q (Option.bind x k)"
  by simp

lemma leak_check_run:
  fixes h :: "'h heap_scheme" and c :: "'c console_scheme"
  assumes h: "heap_holds lim h B" and room: "unat (heapEnd h) + 4 * 24576 \<le> lim"
    and texts: "leak_texts (hp.stable lim h B) (ram h) lits ts" and lg: "lg = Logger_new (lit_Test ts) (lit_TestKernel ts)"
  shows "run_ok True log_error (\<lambda>(used, after, t). getUsedMem h = Some used \<and> after = used \<and> log_kept lim B (4 * 24576) (h, c) t)
    (leak_check lits ts lg (h, c))"
proof -
  let ?s = "(h, c)"
  have tgt: "target lg \<noteq> NONE" by (simp add: lg Logger_new_def)
  have E: "\<forall>e. log_error e \<longrightarrow> log_error e" by simp
  note info = info_step [where ?s0.0 = ?s and lg = lg and lits = lits, OF _ tgt _ _ E]
  obtain ws es where w: "log_text lim B lits lg (lit_wrn lits) ''] $cY[WRN]$cF '' (lit_warn_from ts) ws (fst ?s)"
    "log_text lim B lits lg (lit_err lits) ''] $cR[ERR]$cF '' (lit_error_from ts) es (fst ?s)"
    and i: "info_text lim B lits lg (fst ?s) (lit_checking ts)" "info_text lim B lits lg (fst ?s) (lit_info_from ts)"
    using texts unfolding leak_texts_def Let_def lg fst_conv by blast
  note warn = log_step_from [where ?s0.0 = ?s, OF _ tgt insertI2 [OF insertI1] w(1) _ E]
    and err = log_step_from [where ?s0.0 = ?s, OF _ tgt insertI2 [OF insertI2 [OF insertI1]] w(2) _ E]
  obtain used where used: "getUsedMem h = Some used" using getUsedMem_blocks [OF h] by blast
  show ?thesis
    unfolding leak_check_def case_prod_unfold prod.collapse fst_conv used Option.bind.bind_lunit
  proof (rule run_ok_bind [OF info [OF log_kept_refl [OF h] i(1)]], goal_cases)
    case (2 s1)
    show ?case
    proof (rule run_ok_bind [OF info [OF 2 i(2)]], goal_cases)
      case (2 s2)
      show ?case
      proof (rule run_ok_bind [OF warn [OF 2]], goal_cases)
        case (2 s3)
        show ?case
        proof (rule run_ok_bind [OF err [OF 2]], goal_cases)
          case (2 s4)
          then show ?case using log_kept_used [OF _ 2] h used by simp
        qed (use room in simp)
      qed (use room in simp)
    qed (use room in simp)
  qed (use room in simp)
qed

text \<open>A log line while a further block is allocated.\<close>

lemma block_test_run:
  fixes s0 :: "'h heap_scheme \<times> 'c console_scheme"
  assumes k: "log_kept lim B n s0 (h, c)" and room: "unat (heapEnd (fst s0)) + n + 8192 + 24576 \<le> lim"
    and str: "info_text lim B lits lg (fst s0) str" and tgt: "target lg \<noteq> NONE"
  shows "run_ok True log_error (log_kept lim B (n + 8192 + 24576) s0) (bind_ro (malloc 4 h) (\<lambda>(p, h). Option.bind (getUsedMem h) (\<lambda>after.
     bind_ro (Logger_info lits lg str [VNum used, VNum after] (h, c)) (\<lambda>(h, c). Some (Inr (sfree p 4 h, c))))))"
proof -
  have h: "heap_holds lim h B" "unat (heapEnd h) + 8192 + 24576 \<le> lim" using k room by (simp_all add: log_kept_def)
  have "heap_room lim 4 h" using h(2) by (simp add: heap_room_def align16_def round_page_def)
  with h(1) show ?thesis
  proof (cases rule: malloc_cases)
    case 1
    then show ?thesis by (simp add: log_error_def)
  next
    case (2 p t len)
    let ?B = "insert (p, len) B"
    have kt: "log_kept lim ?B 0 (t, c) (t, c)" by (rule log_kept_refl [OF 2(5)])
    have keep: "keeps (hp.stable lim h B) (ram h) (hp.stable lim t ?B) (ram t)" using 2(6,7) stable_insert unfolding keeps_def by blast
    have "info_text lim B lits lg h str" using str log_text_kept [OF k] unfolding info_words_def fst_conv by blast
    then have str': "info_text lim ?B lits lg (fst (t, c)) str" using log_words_keeps [OF keep] unfolding info_words_def fst_conv by blast
    obtain after where after: "getUsedMem t = Some after" using getUsedMem_blocks [OF 2(5)] by blast
    have et: "unat (heapEnd t) \<le> unat (heapEnd h) + 8192" using 2(8) by (simp add: align16_def round_page_def)
    have run: "run_ok True log_error (log_kept lim ?B (0 + 24576) (t, c)) (Logger_info lits lg str [VNum used, VNum after] (t, c))"
      by (rule info_step [OF kt tgt str']) (use h(2) et in simp_all)
    have post: "log_kept lim B (8192 + 24576) (h, c) (sfree p 4 (fst u), snd u)" if u: "log_kept lim ?B (0 + 24576) (t, c) u" for u
    proof -
      have hu: "heap_holds lim (fst u) ?B" "unat (heapEnd (fst u)) \<le> unat (heapEnd t) + 24576" "trace_grows c (snd u)" using u by (simp_all add: log_kept_def)
      note f = sfree_stable [OF hu(1) 2(4), of 4]
      have "ram (sfree p 4 (fst u)) x = ram h x \<and> hp.stable lim (sfree p 4 (fst u)) B x" if "hp.stable lim h B x" for x
      proof -
        have t: "ram t x = ram h x" "hp.stable lim t B x" using that 2(6,7) by blast+
        have "hp.stable lim t ?B x" by (rule stable_insert [OF t(2)])
        then have "ram (fst u) x = ram t x" and su: "hp.stable lim (fst u) ?B x" using u by (simp_all add: log_kept_def)
        moreover have "\<not> in_region p (unat len) x" by (rule stable_apart [OF 2(5,4) t(2)])
        then have "hp.stable lim (fst u) B x" using su by (auto simp: hp.stable_def)
        ultimately show ?thesis using t f(2,3) 2(3) by simp
      qed
      then show ?thesis using f(1) 2(3) hu(2,3) et by (simp add: log_kept_def)
    qed
    have "run_ok True log_error (log_kept lim B (8192 + 24576) (h, c)) (bind_ro (Logger_info lits lg str [VNum used, VNum after] (t, c))
        (\<lambda>(h, c). Some (Inr (sfree p 4 h, c))))"
      by (rule run_ok_bind [OF run]) (use post in \<open>simp add: case_prod_unfold\<close>)
    then have "run_ok True log_error (log_kept lim B (n + (8192 + 24576)) s0) (bind_ro (Logger_info lits lg str [VNum used, VNum after] (t, c))
        (\<lambda>(h, c). Some (Inr (sfree p 4 h, c))))" using log_kept_trans [OF k] by (elim run_ok_mono) auto
    then show ?thesis using 2(1) after by (simp add: add.assoc)
  qed
qed

text \<open>C15: the test of the logger for memory leaks passes: the memory in use after four log lines is what it was before, so that the
  two numbers of its report are equal. The whole test, with a block of four bytes allocated and freed, leaves
  the blocks of the heap, the memory in use and all memory its caller relies on as they were. If it ends, its only errors are
  lack of frames and a conversion without an argument.\<close>

theorem leak_test_passes:
  fixes h :: "'h heap_scheme" and c :: "'c console_scheme"
  assumes "heap_holds lim h B" and "unat (heapEnd h) + 7 * 24576 + 8192 \<le> lim" and "leak_texts (hp.stable lim h B) (ram h) lits ts"
  shows "(case leak_check lits ts (Logger_new (lit_Test ts) (lit_TestKernel ts)) (h, c) of
      Some (Inr (used, after, t)) \<Rightarrow> getUsedMem h = Some used \<and> after = used | _ \<Rightarrow> True) \<and>
    (case leak_test lits ts (h, c) of
      None \<Rightarrow> True
    | Some (Inl e) \<Rightarrow> log_error e
    | Some (Inr (h', c')) \<Rightarrow> heap_holds lim h' B \<and> getUsedMem h' = getUsedMem h \<and> (\<forall>x. hp.stable lim h B x \<longrightarrow> ram h' x = ram h x))"
proof -
  let ?s = "(h, c)" and ?lg = "Logger_new (lit_Test ts) (lit_TestKernel ts)"
  have tgt: "target ?lg \<noteq> NONE" by (simp add: Logger_new_def)
  have E: "\<forall>e. log_error e \<longrightarrow> log_error e" by simp
  have i: "info_text lim B lits ?lg (fst ?s) (lit_before ts)" "info_text lim B lits ?lg (fst ?s) (lit_how_much ts)"
    using assms(3) by (simp_all add: leak_texts_def Let_def)
  have room4: "unat (heapEnd h) + 4 * 24576 \<le> lim" using assms(2) by simp
  note chk = leak_check_run [OF assms(1) room4 assms(3) refl, of c] and info = info_step [where ?s0.0 = ?s and lits = lits, OF _ tgt _ _ E]
  have test: "run_ok True log_error (log_kept lim B (4 * 24576 + 24576 + 24576 + 8192 + 24576) ?s) (leak_test lits ts ?s)"
    unfolding leak_test_def Let_def
  proof (rule run_ok_bind [OF chk], clarify)
    fix used h1 c1 assume k: "log_kept lim B (4 * 24576) ?s (h1, c1)"
    show "run_ok True log_error (log_kept lim B (4 * 24576 + 24576 + 24576 + 8192 + 24576) ?s)
        (bind_ro (Logger_info lits ?lg (lit_before ts) [VNum used, VNum used] (h1, c1)) (\<lambda>(h, c).
         bind_ro (Logger_info lits ?lg (lit_how_much ts) [] (h, c)) (\<lambda>(h, c). bind_ro (malloc 4 h) (\<lambda>(p, h). Option.bind (getUsedMem h) (\<lambda>after.
         bind_ro (Logger_info lits ?lg (lit_before ts) [VNum used, VNum after] (h, c)) (\<lambda>(h, c). Some (Inr (sfree p 4 h, c))))))))"
    proof (rule run_ok_bind [OF info [OF k i(1)]], goal_cases)
      case (2 s2)
      obtain h2 c2 where s2: "s2 = (h2, c2)" by (cases s2)
      show ?case
        unfolding s2 prod.case
      proof (rule run_ok_bind [OF info [OF 2 [unfolded s2] i(2)]], goal_cases)
        case (2 s3)
        obtain h3 c3 where s3: "s3 = (h3, c3)" by (cases s3)
        show ?case unfolding s3 prod.case by (rule block_test_run [OF 2 [unfolded s3] _ i(1) tgt]) (use assms(2) in simp)
      qed (use assms(2) in simp)
    qed (use assms(2) in simp)
  qed
  have "getUsedMem (fst t) = getUsedMem h" if "log_kept lim B n ?s t" for n t using log_kept_used [OF _ that] assms(1) by simp
  with chk test show ?thesis by (auto simp: run_ok_def log_kept_def split: option.splits sum.splits)
qed

definition leak_example :: leak_literals where
  "leak_example = \<lparr>lit_Test = 0xA0002e, lit_TestKernel = 0xA00027, lit_checking = 0xA00033, lit_info_from = 0xA00033,
     lit_warn_from = 0xA00033, lit_error_from = 0xA00033, lit_before = 0xA00033, lit_how_much = 0xA00033\<rparr>"

theorem leak_test_passes_witness:
  "case leak_test log_example leak_example (acpi_heap, console_example) of
      None \<Rightarrow> True
    | Some (Inl e) \<Rightarrow> log_error e
    | Some (Inr (h', c')) \<Rightarrow> heap_holds 0x900000 h' {} \<and> getUsedMem h' = Some 0"
proof -
  have "leak_texts (hp.stable 0x900000 acpi_heap {}) (ram acpi_heap) log_example leak_example"
    using on_page_words log_words_keeps [OF acpi_heap_page] unfolding leak_texts_def Let_def leak_example_def info_words_def leak_literals.simps by blast
  moreover have "unat (heapEnd acpi_heap) + 7 * 24576 + 8192 \<le> 0x900000" by (simp add: acpi_heap_def)
  ultimately show ?thesis
    using leak_test_passes [OF acpi_heap_holds, of log_example leak_example console_example, THEN conjunct2] getUsedMem_blocks [OF acpi_heap_holds]
    by (auto split: option.splits sum.splits)
qed

section \<open>The timer\<close>

lemma timer_measures_sleep:
  fixes p :: "'p pit_scheme"
  assumes hlt: "\<forall>s. timeSinceBootNs (hlt s) = timeSinceBootNs s + d" and d: "0 < unat d"
    and clock: "unat (timeSinceBootNs p) + 5000000000 + unat d < 2 ^ 64"
  obtains q where "sleepSeconds hlt 5 p = Some q"
    and "5000 \<le> unat (getElapsedMillis (Timer_stop q (Timer_start p t)))"
    and "unat (getElapsedMillis (Timer_stop q (Timer_start p t))) * 1000000 < 5000000000 + unat d"
proof -
  let ?a = "timeSinceBootNs p"
  have u: "unat (?a + 5000000000) = unat ?a + 5000000000" using clock unat_add_no_wrap [of ?a "5000000000"] by simp
  obtain q where q: "sleep_loop hlt (?a + 5000000000) p = Some q" "unat ?a + 5000000000 \<le> unat (timeSinceBootNs q)"
    "unat (timeSinceBootNs q) < unat ?a + 5000000000 + unat d"
    using sleep_loop_returns [of hlt d "?a + 5000000000" p] hlt d clock u by auto
  let ?x = "timeSinceBootNs q - ?a"
  have x: "unat ?x = unat (timeSinceBootNs q) - unat ?a" using q(2) by (intro unat_sub_le) simp
  have ms: "unat (getElapsedMillis (Timer_stop q (Timer_start p t))) = unat ?x div 1000000"
    by (simp add: getElapsedMillis_def getElapsedMicros_def getElapsedNs_def Timer_stop_def Timer_start_def unat_div div_mult2_eq [symmetric])
  show thesis
  proof (rule that)
    show "sleepSeconds hlt 5 p = Some q" using q(1) by (simp add: sleepSeconds_def sleepNs_def)
    show "5000 \<le> unat (getElapsedMillis (Timer_stop q (Timer_start p t)))"
      unfolding ms using div_le_mono [of "5000000000" "unat ?x" "1000000"] q(2) x by simp
    show "unat (getElapsedMillis (Timer_stop q (Timer_start p t))) * 1000000 < 5000000000 + unat d"
      unfolding ms using q(2,3) x div_times_less_eq_dividend [of "unat ?x" "1000000"] by simp
  qed
qed

text \<open>C16: the test of the timer. When every halt is ended by a tick of \<open>d\<close> nanoseconds, the test is its two log lines, and the time that
  the second one reports is at least 5000 milliseconds and less than one tick more. When no tick ends a halt, as in the
  kernel, whose interrupt handlers do not call \<open>tick\<close>, the test never returns.\<close>

theorem pit_test_reports:
  fixes p :: "'p pit_scheme" and h :: "'h heap_scheme" and c :: "'c console_scheme"
  assumes "unat (timeSinceBootNs p) + 5000000000 + unat d < 2 ^ 64" and "\<forall>s. timeSinceBootNs (hlt s) = timeSinceBootNs s + d"
    and "lg = Logger_new (lit_PIT ts) (lit_PITKernel ts)"
  shows "(0 < d \<longrightarrow> (\<exists>ms q. 5000 \<le> unat ms \<and> unat ms * 1000000 < 5000000000 + unat d \<and>
      pit_test lits ts hlt (p, h, c) = bind_ro (Logger_info lits lg (lit_count ts) [] (h, c)) (\<lambda>s.
        bind_ro (Logger_info lits lg (lit_check ts) [VNum ms] s) (\<lambda>s. Some (Inr (q, s)))))) \<and>
    (d = 0 \<longrightarrow> (\<forall>r. pit_test lits ts hlt (p, h, c) \<noteq> Some (Inr r)))"
proof (intro conjI impI allI)
  assume "0 < d"
  then have d: "0 < unat d" by (simp add: word_less_nat_alt)
  obtain q where q: "sleepSeconds hlt 5 p = Some q" "5000 \<le> unat (getElapsedMillis (Timer_stop q (Timer_start p (Timer_new p))))"
    "unat (getElapsedMillis (Timer_stop q (Timer_start p (Timer_new p)))) * 1000000 < 5000000000 + unat d"
    by (rule timer_measures_sleep [OF assms(2) d assms(1)])
  then show "\<exists>ms q. 5000 \<le> unat ms \<and> unat ms * 1000000 < 5000000000 + unat d \<and>
      pit_test lits ts hlt (p, h, c) = bind_ro (Logger_info lits lg (lit_count ts) [] (h, c)) (\<lambda>s.
        bind_ro (Logger_info lits lg (lit_check ts) [VNum ms] s) (\<lambda>s. Some (Inr (q, s))))"
    by (intro exI [of _ "getElapsedMillis (Timer_stop q (Timer_start p (Timer_new p)))"], intro exI [of _ q])
      (simp add: pit_test_def assms(3) case_prod_unfold Let_def)
next
  fix r assume "d = 0"
  then have "sleepSeconds hlt 5 p = None"
    unfolding sleepSeconds_def using assms(1,2) by (intro sleepNs_without_tick) simp_all
  then show "pit_test lits ts hlt (p, h, c) \<noteq> Some (Inr r)"
    by (auto simp: pit_test_def case_prod_unfold bind_ro_def Option.bind_eq_Some_conv split: sum.splits)
qed

theorem pit_test_reports_witness:
  "\<exists>ms q. 5000 \<le> unat ms \<and> unat ms * 1000000 < 5001000000 \<and>
     pit_test log_example \<lparr>lit_PIT = 1, lit_PITKernel = 2, lit_count = 3, lit_check = 4\<rparr> (\<lambda>s. s\<lparr>timeSinceBootNs := timeSinceBootNs s + 1000000\<rparr>)
       (pit_boot, acpi_heap, console_example) =
     bind_ro (Logger_info log_example (Logger_new 1 2) 3 [] (acpi_heap, console_example)) (\<lambda>s.
       bind_ro (Logger_info log_example (Logger_new 1 2) 4 [VNum ms] s) (\<lambda>s. Some (Inr (q, s))))"
  using pit_test_reports [of pit_boot "1000000" "\<lambda>s. s\<lparr>timeSinceBootNs := timeSinceBootNs s + 1000000\<rparr>" "Logger_new 1 2"
      "\<lparr>lit_PIT = 1, lit_PITKernel = 2, lit_count = 3, lit_check = 4\<rparr>" log_example acpi_heap console_example, THEN conjunct1]
  by (simp add: pit_boot_def)

end
