(* ===== verification/Klist_Stable.thy ===== *)
theory Klist_Stable
  imports Klist_Props Heap_Stable
begin

text \<open>A list among the blocks \<open>B\<close> of its client: its operations keep every byte the client relies on.\<close>

context element
begin

lemma grow_stable:
  fixes s :: "'z heap_scheme"
  assumes sys: "list_sys lim e l blk (insert (items l, blk) B) s" and new: "items l \<notin> fst ` B"
    and room: "heap_room lim (esize e * (capacity l * 2)) s" and small: "unat (esize e) * (unat (capacity l) * 2) < 2 ^ 64"
    and g: "grow e l s = Some (Inr (l', t))"
  shows "items l' \<notin> fst ` B" and "capacity l' = capacity l * 2"
    and "unat (heapEnd t) \<le> unat (heapEnd s) + 2 * round_page (unat (align16 (esize e * (capacity l * 2))))"
    and "hp.stable lim s B x \<Longrightarrow> ram t x = ram s x \<and> hp.stable lim t B x"
proof -
  let ?sz = "esize e * (capacity l * 2)" and ?B = "insert (items l, blk) B"
  have hB: "heap_holds lim s ?B" and c0: "0 < unat (capacity l)" "unat (llength l) \<le> unat (capacity l)"
    using sys by (simp_all add: list_sys_def)
  have "unat (capacity l) * 2 \<le> unat (esize e) * (unat (capacity l) * 2)" using size_pos by simp
  then have "unat (capacity l) * 2 < 2 ^ 64" using small by (rule le_less_trans)
  then have c2: "unat (capacity l * 2) = unat (capacity l) * 2" by (subst unat_mult_no_wrap) simp_all
  then have sz: "unat ?sz = unat (esize e) * (unat (capacity l) * 2)" using small by (subst unat_mult_no_wrap) simp_all
  obtain p u len where u: "malloc ?sz s = Some (Inr (p, u))" "unat ?sz \<le> unat len" "p \<notin> fst ` ?B" "heap_holds lim u (insert (p, len) ?B)"
    "\<forall>x. hp.stable lim s ?B x \<longrightarrow> ram u x = ram s x" "\<forall>C x. hp.stable lim s C x \<longrightarrow> hp.stable lim u C x"
    "unat (heapEnd u) \<le> unat (heapEnd s) + 2 * round_page (unat (align16 ?sz))"
    by (rule malloc_cases [OF hB room]) (use g in \<open>simp_all add: grow_def Let_def\<close>)
  define k where "k = l\<lparr>items := p, capacity := capacity l * 2\<rparr>"
  define v where "v = u\<lparr>ram := copy_items e k l (ram u)\<rparr>"
  have k: "items k = p" "llength k = llength l" "capacity k = capacity l * 2" by (simp_all add: k_def)
  have r: "l' = k" "t = free (items l) v" using g u(1) by (auto simp: grow_def Let_def v_def k_def)
  have sysk: "list_sys lim e k len (insert (p, len) ?B) u" using u(2,4) c0 sz c2 by (simp add: list_sys_def k)
  have "p \<noteq> items l" using u(3) by auto
  then have "\<not> in_buffer e k x" if "in_buffer e l x" for x
    using list_sys_apart [OF sysk _ _ in_buffer_block [OF sys that]] by (simp add: k)
  note cp = copy_items(2) [where m = "ram u", OF list_sys_buffer [OF sysk] list_sys_buffer [OF sys] k(2) this]
  have frame: "\<forall>x. \<not> in_region p (unat len) x \<longrightarrow> copy_items e k l (ram u) x = ram u x"
    using cp in_buffer_block [OF sysk] by (auto simp: k)
  note hv = payload_stable [OF u(4) insertI1 frame, folded v_def]
  have old: "(items l, blk) \<in> insert (p, len) ?B" by simp
  have B: "insert (p, len) ?B - {(items l, blk)} = insert (p, len) B" using \<open>p \<noteq> items l\<close> new by force
  note rel = hp.release_stable [OF hv(1) old, unfolded B] and ht = hp.release_removes [OF hv(1) old, unfolded B]
  have pB: "p \<notin> fst ` B" using u(3) by simp
  show "items l' \<notin> fst ` B" "capacity l' = capacity l * 2" using pB by (simp_all add: r k)
  show "unat (heapEnd t) \<le> unat (heapEnd s) + 2 * round_page (unat (align16 ?sz))" using u(7) by (simp add: r v_def)
  assume x: "hp.stable lim s B x"
  then have "ram u x = ram s x" "hp.stable lim u B x" using u(5,6) stable_insert by blast+
  moreover have "ram v x = ram u x" "hp.stable lim v B x"
    using frame stable_apart [OF u(4,3) stable_insert [OF \<open>hp.stable lim u B x\<close>]] \<open>hp.stable lim u B x\<close> hv(2) by (simp_all add: v_def)
  ultimately have "ram t x = ram s x" and st: "hp.stable lim t (insert (p, len) B) x"
    using rel [OF stable_insert] by (simp_all add: r(2))
  moreover have "\<not> in_region p (unat len) x"
    using stable_apart [OF hv(1) u(3) stable_insert [OF \<open>hp.stable lim v B x\<close>]] .
  ultimately show "ram t x = ram s x \<and> hp.stable lim t B x" by (auto simp: hp.stable_def)
qed

lemma push_stable:
  fixes s :: "'z heap_scheme" and item :: 'v
  assumes sys: "list_sys lim e l blk (insert (items l, blk) B) s" and new: "items l \<notin> fst ` B" and room: "unat (llength l) < unat (capacity l)"
  defines "t \<equiv> s\<lparr>ram := put_item e l (llength l) item (ram s)\<rparr>"
  assumes x: "hp.stable lim s B x"
  shows "ram t x = ram s x \<and> hp.stable lim t B x"
proof -
  have h: "heap_holds lim s (insert (items l, blk) B)" using sys by (simp add: list_sys_def)
  have "\<forall>x. \<not> in_region (items l) (unat blk) x \<longrightarrow> put_item e l (llength l) item (ram s) x = ram s x"
    using put_item_frame [OF list_sys_buffer [OF sys] room] in_buffer_block [OF sys] by fastforce
  with payload_stable(2) [OF h insertI1 this] stable_apart [OF h new x] x show ?thesis by (simp add: t_def)
qed

text \<open>\<open>add\<close>, with the frame of its client.\<close>

lemma list_add_stable:
  fixes s :: "'z heap_scheme"
  assumes sys: "list_sys lim e l blk (insert (items l, blk) B) s" and new: "items l \<notin> fst ` B"
    and room: "heap_room lim (esize e * (capacity l * 2)) s" and small: "unat (esize e) * (unat (capacity l) * 2) < 2 ^ 64"
  obtains "list_add e item l s = Some (Inl (Panic ''Out of memory''))"
  | l' t blk' where "list_add e item l s = Some (Inr (l', t))" and "list_sys lim e l' blk' (insert (items l', blk') B) t"
    and "items l' \<notin> fst ` B" and "elems e l' (ram t) = elems e l (ram s) @ [item]"
    and "capacity l' = (if llength l = capacity l then capacity l * 2 else capacity l)"
    and "unat (heapEnd t) \<le> unat (heapEnd s) + 2 * round_page (unat (align16 (esize e * (capacity l * 2))))"
    and "\<forall>x. hp.stable lim s B x \<longrightarrow> ram t x = ram s x \<and> hp.stable lim t B x"
proof -
  have B: "insert (items l, blk) B - {(items l, blk)} = B" using new by force
  consider "list_add e item l s = Some (Inl (Panic ''Out of memory''))"
    | l' t blk' where "list_add e item l s = Some (Inr (l', t))" "list_sys lim e l' blk' (insert (items l', blk') B) t"
      "elems e l' (ram t) = elems e l (ram s) @ [item]"
    using list_add_total [OF sys, of item] room small unfolding B by blast
  then show thesis
  proof cases
    case 1
    then show thesis by (rule that(1))
  next
    case (2 l' t blk')
    show thesis
    proof (cases "llength l = capacity l")
      case False
      then have lt: "unat (llength l) < unat (capacity l)" using sys by (simp add: list_sys_def word_unat_eq_iff)
      have r: "l' = l\<lparr>llength := llength l + 1\<rparr>" "t = s\<lparr>ram := put_item e l (llength l) item (ram s)\<rparr>"
        using 2(1) False by (auto simp: list_add_def)
      show thesis using 2 push_stable [OF sys new lt, of _ item] new False by (intro that(2) [OF 2(1,2) _ 2(3)]) (simp_all add: r)
    next
      case True
      then obtain k u where k: "grow e l s = Some (Inr (k, u))" "l' = k\<lparr>llength := llength k + 1\<rparr>"
        "t = u\<lparr>ram := put_item e k (llength k) item (ram u)\<rparr>"
        using 2(1) by (auto simp: list_add_def bind_r_eq_Inr split: option.splits)
      note g = grow_stable [OF sys new room small k(1)]
      obtain blk2 where sys2: "list_sys lim e k blk2 (insert (items k, blk2) B) u" and lt: "unat (llength k) < unat (capacity k)"
        using grow_total [OF sys room small] k(1) unfolding B by auto
      have "ram t x = ram s x \<and> hp.stable lim t B x" if "hp.stable lim s B x" for x
        using g(4) [OF that] push_stable [OF sys2 g(1) lt, of x item] by (simp add: k(3))
      then show thesis using 2 g(1-3) True by (intro that(2) [OF 2(1,2) _ 2(3)]) (simp_all add: k(2,3))
    qed
  qed
qed

end

end
