(* ===== verification/Selftest_Lists.thy ===== *)
theory Selftest_Lists
  imports Selftest_Props Klist_Stable
begin

text \<open>The test of lists shows the values that its messages expect.\<close>

section \<open>Two runs that agree\<close>

definition agree :: "('a \<Rightarrow> bool) \<Rightarrow> 'a res option \<Rightarrow> 'a res option \<Rightarrow> bool" where
  "agree Q r t \<longleftrightarrow> r = t \<and> run_ok True log_error Q r"

lemma agree_bind:
  assumes "agree Q r t" and "\<And>x. Q x \<Longrightarrow> agree R (f x) (g x)"
  shows "agree R (bind_ro r f) (bind_ro t g)"
proof -
  have "bind_ro r f = bind_ro r g"
    using assms by (auto simp: agree_def run_ok_def bind_ro_def split: option.splits sum.splits)
  moreover have "run_ok True log_error R (bind_ro r f)" using assms unfolding agree_def by (blast intro: run_ok_bind)
  ultimately show ?thesis using assms(1) by (simp add: agree_def)
qed

lemma agree_same: "run_ok True log_error Q r \<Longrightarrow> agree Q r r"
  by (simp add: agree_def)

lemma agree_all_steps:
  assumes "\<And>x s k. x \<in> set xs \<Longrightarrow> P k s \<Longrightarrow> k < length xs \<Longrightarrow> agree (P (Suc k)) (f x s) (g x s)" and "P 0 s"
  shows "agree (P (length xs)) (all_steps f xs s) (all_steps g xs s)"
proof -
  have "agree (P (i + length ys)) (all_steps f ys s) (all_steps g ys s)" if "set ys \<subseteq> set xs" "i + length ys \<le> length xs" "P i s" for ys i s
    using that
  proof (induction ys arbitrary: i s)
    case (Cons y ys)
    have "agree (P (Suc i + length ys)) (all_steps f ys t) (all_steps g ys t)" if "P (Suc i) t" for t
      using Cons that by (intro Cons.IH) simp_all
    moreover have "agree (P (Suc i)) (f y s) (g y s)" using Cons.prems by (intro assms(1)) simp_all
    ultimately show ?case unfolding all_steps.simps by (simp add: agree_bind)
  qed (simp add: agree_def)
  from this [of xs 0 s] assms(2) show ?thesis by simp
qed

section \<open>A list and the memory of its client\<close>

definition list_at :: "nat \<Rightarrow> (u64 \<times> u64) set \<Rightarrow> 'h heap_scheme \<times> 'c console_scheme \<Rightarrow> nat \<Rightarrow> u16 list \<Rightarrow>
    klist \<times> 'h heap_scheme \<times> 'c console_scheme \<Rightarrow> bool" where
  "list_at lim B s0 n xs = (\<lambda>(l, h, c). (\<exists>blk. list_sys lim u16_elem l blk (insert (items l, blk) B) h) \<and> items l \<notin> fst ` B \<and>
     elems u16_elem l (ram h) = xs \<and> capacity l \<in> {4, 8} \<and> unat (heapEnd h) \<le> unat (heapEnd (fst s0)) + n \<and>
     (\<forall>x. hp.stable lim (fst s0) B x \<longrightarrow> ram h x = ram (fst s0) x \<and> hp.stable lim h B x) \<and> trace_grows (snd s0) c)"

lemma list_at_keeps: "list_at lim B s0 n xs (l, h, c) \<Longrightarrow> keeps (hp.stable lim (fst s0) B) (ram (fst s0)) (hp.stable lim h B) (ram h)"
  by (simp add: list_at_def keeps_def)

lemma list_at_get:
  assumes "list_at lim B s0 n xs (l, h, c)"
  shows "list_get u16_elem i l (ram h) = (if unat i < length xs then xs ! unat i else 0)"
proof -
  have xs: "elems u16_elem l (ram h) = xs" using assms by (simp add: list_at_def)
  then have "length xs = unat (llength l)" by (metis length_elems)
  then show ?thesis using xs by (auto simp: list_get_def word_le_nat_alt u16_elem_def)
qed

text \<open>A step that keeps the blocks, the one of the list among them.\<close>

lemma list_at_logged:
  assumes l: "list_at lim B s0 n xs (l, h, c)" and blk: "list_sys lim u16_elem l blk (insert (items l, blk) B) h"
    and k: "log_kept lim (insert (items l, blk) B) j (h, c) (t, d)"
  shows "list_at lim B s0 (n + j) xs (l, t, d)"
proof -
  have new: "items l \<notin> fst ` B" and hh: "heap_holds lim h (insert (items l, blk) B)" using l blk by (simp_all add: list_at_def list_sys_def)
  have t: "heap_holds lim t (insert (items l, blk) B)" "\<And>x. hp.stable lim h (insert (items l, blk) B) x \<Longrightarrow> ram t x = ram h x \<and> hp.stable lim t (insert (items l, blk) B) x"
    using k by (simp_all add: log_kept_def)
  have "elems u16_elem l (ram t) = elems u16_elem l (ram h)"
    using t(2) in_buffer_block [OF blk] block_stable [OF insertI1] by (intro u16_list.elems_cong [OF list_sys_buffer [OF blk]]) blast
  moreover have "list_sys lim u16_elem l blk (insert (items l, blk) B) t" using blk t(1) by (simp add: list_sys_def)
  moreover have "ram t x = ram (fst s0) x \<and> hp.stable lim t B x" if "hp.stable lim (fst s0) B x" for x
  proof -
    have x: "ram h x = ram (fst s0) x" "hp.stable lim h B x" using l that by (simp_all add: list_at_def)
    have "\<not> in_region (items l) (unat blk) x" by (rule stable_apart [OF hh new x(2)])
    then show ?thesis using t(2) [OF stable_insert [OF x(2)]] x(1) by (auto simp: hp.stable_def)
  qed
  ultimately show ?thesis using l k trace_grows_trans [of "snd s0" c d] by (auto simp: list_at_def log_kept_def)
qed

lemma list_log_step:
  assumes l: "list_at lim B s0 n xs (l, h, c)" and str: "info_text lim B lits lg (fst s0) str" and tgt: "target lg \<noteq> NONE"
    and room: "unat (heapEnd (fst s0)) + n + 24576 \<le> lim"
  shows "run_ok True log_error (\<lambda>(h, c). list_at lim B s0 (n + 24576) xs (l, h, c)) (Logger_info lits lg str vargs (h, c))"
proof -
  obtain blk where blk: "list_sys lim u16_elem l blk (insert (items l, blk) B) h" using l by (auto simp: list_at_def)
  let ?B = "insert (items l, blk) B"
  have k: "log_kept lim ?B 0 (h, c) (h, c)" using blk by (intro log_kept_refl) (simp add: list_sys_def)
  have "keeps (hp.stable lim (fst s0) B) (ram (fst s0)) (hp.stable lim h ?B) (ram h)"
    using list_at_keeps [OF l] stable_insert unfolding keeps_def by blast
  then have "info_text lim ?B lits lg (fst (h, c)) str" using str log_words_keeps unfolding info_words_def fst_conv by blast
  then have "run_ok True log_error (log_kept lim ?B (0 + 24576) (h, c)) (Logger_info lits lg str vargs (h, c))"
    by (rule info_step [OF k tgt]) (use l room in \<open>simp_all add: list_at_def\<close>)
  then show ?thesis using list_at_logged [OF l blk] by (elim run_ok_mono) auto
qed

lemma show_agree:
  assumes l: "list_at lim B s0 n xs s" and x: "x = (if unat i < length xs then xs ! unat i else 0)"
    and str: "info_text lim B lits lg (fst s0) str" and tgt: "target lg \<noteq> NONE" and room: "unat (heapEnd (fst s0)) + n + 24576 \<le> lim"
  shows "agree (list_at lim B s0 (n + 24576) xs) (show_item (\<lambda>_. list_get u16_elem) lits lg (x, i, str) s) (show_item (\<lambda>x _ _ _. x) lits lg (x, i, str) s)"
proof -
  obtain l h c where s: "s = (l, h, c)" by (cases s)
  have "run_ok True log_error (list_at lim B s0 (n + 24576) xs) (show_item (\<lambda>x _ _ _. x) lits lg (x, i, str) s)"
    unfolding s show_item_def prod.case by (rule run_ok_bind [OF list_log_step [OF assms(1) [unfolded s] str tgt room]]) auto
  moreover have "show_item (\<lambda>_. list_get u16_elem) lits lg (x, i, str) s = show_item (\<lambda>x _ _ _. x) lits lg (x, i, str) s"
    by (simp add: s show_item_def list_at_get [OF l [unfolded s]] x)
  ultimately show ?thesis by (simp add: agree_def)
qed

lemma shows_agree:
  assumes "list_at lim B s0 n xs s" and "target lg \<noteq> NONE" and "unat (heapEnd (fst s0)) + n + length ys * 24576 \<le> lim"
    and "\<forall>(x, i, str)\<in>set ys. x = (if unat i < length xs then xs ! unat i else 0) \<and> info_text lim B lits lg (fst s0) str"
  shows "agree (list_at lim B s0 (n + length ys * 24576) xs) (all_steps (show_item (\<lambda>_. list_get u16_elem) lits lg) ys s)
    (all_steps (show_item (\<lambda>x _ _ _. x) lits lg) ys s)"
proof (rule agree_all_steps [where P = "\<lambda>k. list_at lim B s0 (n + k * 24576) xs"])
  fix y s k assume y: "y \<in> set ys" and k: "list_at lim B s0 (n + k * 24576) xs s" "k < length ys"
  obtain x i str where e: "y = (x, i, str)" by (cases y)
  have "Suc k * 24576 \<le> length ys * 24576" using k(2) by (intro mult_le_mono1) simp
  then have room: "unat (heapEnd (fst s0)) + (n + k * 24576) + 24576 \<le> lim" using assms(3) by simp
  show "agree (list_at lim B s0 (n + Suc k * 24576) xs) (show_item (\<lambda>_. list_get u16_elem) lits lg y s) (show_item (\<lambda>x _ _ _. x) lits lg y s)"
    using show_agree [OF k(1) _ _ assms(2) room, of x i lits str] assms(4) y e by (auto simp: algebra_simps)
qed (use assms(1) in simp)

section \<open>Changing the list\<close>

lemma add_run:
  assumes l: "list_at lim B s0 n xs s" and len: "length xs < 8" and room: "unat (heapEnd (fst s0)) + n + 8192 \<le> lim"
  shows "run_ok True log_error (list_at lim B s0 (n + 8192) (xs @ [x])) (add_item x s)"
proof -
  obtain l h c where s: "s = (l, h, c)" by (cases s)
  obtain blk where blk: "list_sys lim u16_elem l blk (insert (items l, blk) B) h" using l by (auto simp: s list_at_def)
  have f: "items l \<notin> fst ` B" "elems u16_elem l (ram h) = xs" "capacity l \<in> {4, 8}" "unat (heapEnd h) \<le> unat (heapEnd (fst s0)) + n"
    using l by (simp_all add: s list_at_def)
  have n: "unat (llength l) < 8" using len f(2) length_elems by metis
  have rp: "round_page (unat (align16 (esize u16_elem * (capacity l * 2)))) = 4096"
    using f(3) by (auto simp: u16_elem_def align16_def round_page_def)
  have hr: "heap_room lim (esize u16_elem * (capacity l * 2)) h" "unat (esize u16_elem) * (unat (capacity l) * 2) < 2 ^ 64"
    using f(3,4) room rp by (auto simp: heap_room_def u16_elem_def)
  show ?thesis
  proof (rule u16_list.list_add_stable [OF blk f(1) hr, of x], goal_cases)
    case 1
    then show ?case by (simp add: s add_item_def log_error_def)
  next
    case (2 l' t blk')
    have "capacity l' \<in> {4, 8}" using 2(5) f(3) n by auto
    then have "list_at lim B s0 (n + 8192) (xs @ [x]) (l', t, c)"
      using 2 rp l f by (auto simp: s list_at_def)
    then show ?case using 2(1) by (simp add: s add_item_def)
  qed
qed

lemma adds_run:
  assumes "list_at lim B s0 n xs s" and "length xs + length ys \<le> 8" and "unat (heapEnd (fst s0)) + n + length ys * 8192 \<le> lim"
  shows "run_ok True log_error (list_at lim B s0 (n + length ys * 8192) (xs @ ys)) (all_steps add_item ys s)"
  using assms
proof (induction ys arbitrary: s n xs)
  case (Cons y ys)
  have "run_ok True log_error (list_at lim B s0 (n + 8192) (xs @ [y])) (add_item y s)" using Cons.prems by (intro add_run) simp_all
  moreover have "run_ok True log_error (list_at lim B s0 (n + 8192 + length ys * 8192) ((xs @ [y]) @ ys)) (all_steps add_item ys t)"
    if "list_at lim B s0 (n + 8192) (xs @ [y]) t" for t
    using Cons.prems that by (intro Cons.IH) simp_all
  ultimately have "run_ok True log_error (list_at lim B s0 (n + 8192 + length ys * 8192) ((xs @ [y]) @ ys)) (all_steps add_item (y # ys) s)"
    unfolding all_steps.simps by (rule run_ok_bind)
  then show ?case by (simp add: add.assoc)
qed simp

text \<open>Writes inside of the buffer.\<close>

lemma list_at_write:
  assumes l: "list_at lim B s0 n xs (l, h, c)" and l': "items l' = items l" "capacity l' = capacity l" "unat (llength l') \<le> unat (capacity l)"
    and m: "\<forall>x. \<not> in_buffer u16_elem l x \<longrightarrow> m x = ram h x"
  shows "list_at lim B s0 n (elems u16_elem l' m) (l', h\<lparr>ram := m\<rparr>, c)"
proof -
  obtain blk where blk: "list_sys lim u16_elem l blk (insert (items l, blk) B) h" using l by (auto simp: list_at_def)
  have hh: "heap_holds lim h (insert (items l, blk) B)" and new: "items l \<notin> fst ` B" using l blk by (simp_all add: list_at_def list_sys_def)
  have m': "\<forall>x. \<not> in_region (items l) (unat blk) x \<longrightarrow> m x = ram h x" using m in_buffer_block [OF blk] by blast
  note p = payload_stable [OF hh insertI1 m']
  have "list_sys lim u16_elem l' blk (insert (items l', blk) B) (h\<lparr>ram := m\<rparr>)" using blk l' p(1) by (simp add: list_sys_def)
  moreover have "m x = ram h x" if "hp.stable lim h B x" for x using m' stable_apart [OF hh new that] by blast
  ultimately show ?thesis using l l' p(2) by (auto simp: list_at_def)
qed

lemma list_at_remove:
  assumes l: "list_at lim B s0 n xs (l, h, c)" and i: "unat i < length xs" and r: "remove_at u16_elem i (l, ram h) = (l', m)"
  shows "list_at lim B s0 n (take (unat i) xs @ drop (Suc (unat i)) xs) (l', h\<lparr>ram := m\<rparr>, c)"
proof -
  obtain blk where blk: "list_sys lim u16_elem l blk (insert (items l, blk) B) h" using l by (auto simp: list_at_def)
  note b = list_sys_buffer [OF blk]
  have xs: "elems u16_elem l (ram h) = xs" using l by (simp add: list_at_def)
  then have len: "length xs = unat (llength l)" by (metis length_elems)
  have e: "l' = l\<lparr>llength := llength l - 1\<rparr>" "elems u16_elem l' m = take (unat i) xs @ drop (Suc (unat i)) xs"
    using u16_list.remove_at_elems [OF b, of i "ram h"] i len r xs by auto
  have cap: "unat (llength l) \<le> unat (capacity l)" using b by (simp add: buffer_ok_def)
  have n: "unat (llength l - 1) = unat (llength l) - 1" using i len by (subst unat_sub_le) simp_all
  have m: "m = fold (\<lambda>i m. put_item u16_elem l i (item_at u16_elem l (i + 1) m) m) (count_from i (llength l - 1)) (ram h)"
    using r i len by (simp add: remove_at_def word_le_nat_alt split: if_splits)
  have "m x = ram h x" if "\<not> in_buffer u16_elem l x" for x
    unfolding m
  proof (rule u16_list.loop_frame)
    fix j m assume "j \<in> set (count_from i (llength l - 1))"
    then obtain k where "j = of_nat k" "k < unat (capacity l)" using cap by (auto simp: count_from_def n)
    then show "put_item u16_elem l j (item_at u16_elem l (j + 1) m) m x = m x" using u16_list.put_item_frame [OF b _ that] by simp
  qed
  then have "list_at lim B s0 n (elems u16_elem l' m) (l', h\<lparr>ram := m\<rparr>, c)"
    using cap by (intro list_at_write [OF l]) (auto simp: e(1) n)
  then show ?thesis by (simp add: e(2))
qed

lemma list_at_clear: "list_at lim B s0 n xs (l, h, c) \<Longrightarrow> list_at lim B s0 n [] (list_clear l, h, c)"
  using list_at_write [of lim B s0 n xs l h c "list_clear l" "ram h"] by (simp add: list_clear_def elems_def)

lemma list_at_sort:
  assumes l: "list_at lim B s0 n xs (l, h, c)"
  shows "list_at lim B s0 n (bubble (\<lambda>a b. b < a) (length xs) (length xs) xs) (l, h\<lparr>ram := list_sort u16_elem l (ram h)\<rparr>, c)"
proof -
  obtain blk where blk: "list_sys lim u16_elem l blk (insert (items l, blk) B) h" using l by (auto simp: list_at_def)
  note b = list_sys_buffer [OF blk]
  have xs: "elems u16_elem l (ram h) = xs" using l by (simp add: list_at_def)
  then have len: "unat (llength l) = length xs" by (metis length_elems)
  have "elems u16_elem l (list_sort u16_elem l (ram h)) = bubble (\<lambda>a b. b < a) (length xs) (length xs) xs"
    using u16_list.sort_elems [OF b, of "ram h"] by (simp add: xs len) (simp add: u16_elem_def)
  moreover have "list_at lim B s0 n (elems u16_elem l (list_sort u16_elem l (ram h))) (l, h\<lparr>ram := list_sort u16_elem l (ram h)\<rparr>, c)"
    using u16_list.sort_frame [OF b] b by (intro list_at_write [OF l]) (auto simp: buffer_ok_def)
  ultimately show ?thesis by simp
qed

section \<open>The test\<close>

definition list_texts :: "(u64 \<Rightarrow> bool) \<Rightarrow> mem \<Rightarrow> log_literals \<Rightarrow> list_literals \<Rightarrow> bool" where
  "list_texts S m lits ts \<longleftrightarrow> length (lit_shows ts) = 8 \<and>
     (\<forall>str\<in>insert (lit_sorting ts) (set (lit_shows ts)). info_words S m lits (Logger_new (lit_ListTest ts) (lit_ListKernel ts)) str)"

lemma list_texts_keeps: "keeps S m S' m' \<Longrightarrow> list_texts S m lits ts \<Longrightarrow> list_texts S' m' lits ts"
  unfolding list_texts_def info_words_def using log_words_keeps by blast

lemma new_list_run:
  assumes "heap_holds lim h B" and "unat (heapEnd h) + 8192 \<le> lim"
  shows "run_ok True log_error (\<lambda>(l, t). list_at lim B (h, c) 8192 [] (l, t, c)) (List_new_default u16_elem h)"
proof -
  have "heap_room lim 8 h" using assms(2) by (simp add: heap_room_def align16_def round_page_def)
  with assms(1) show ?thesis
  proof (cases rule: malloc_cases)
    case 1
    then show ?thesis by (simp add: List_new_default_def u16_elem_def log_error_def)
  next
    case (2 p t len)
    have "list_at lim B (h, c) 8192 [] (\<lparr>items = p, llength = 0, capacity = 4\<rparr>, t, c)"
      using 2(3-8) unfolding list_at_def
      by (auto simp: list_sys_def u16_elem_def elems_def align16_def round_page_def trace_grows_refl intro!: exI [of _ len])
    then show ?thesis using 2(1) by (simp add: List_new_default_def u16_elem_def)
  qed
qed

lemma test_sorted: "xs = [34, 12, 56, 90, 78 :: u16] \<Longrightarrow> bubble (\<lambda>a b. b < a) (length xs) (length xs) xs = [12, 34, 56, 78, 90]"
  by (simp, code_simp)

abbreviation look_get :: "u16 \<Rightarrow> u64 \<Rightarrow> klist \<Rightarrow> mem \<Rightarrow> u16" where
  "look_get \<equiv> \<lambda>_. list_get u16_elem"

abbreviation look_expected :: "u16 \<Rightarrow> u64 \<Rightarrow> klist \<Rightarrow> mem \<Rightarrow> u16" where
  "look_expected \<equiv> \<lambda>x _ _ _. x"

lemma remove_test_agree:
  fixes s0 :: "'h heap_scheme \<times> 'c console_scheme"
  assumes l: "list_at lim B s0 n [30, 60, 90] s" and room: "unat (heapEnd (fst s0)) + n + 6 * 24576 \<le> lim"
    and lg: "lg = Logger_new (lit_ListTest ts) (lit_ListKernel ts)" and texts: "list_texts (hp.stable lim (fst s0) B) (ram (fst s0)) lits ts"
  shows "agree (list_at lim B s0 (n + 6 * 24576) [30, 90]) (remove_test look_get lits ts lg s) (remove_test look_expected lits ts lg s)"
proof -
  have tgt: "target lg \<noteq> NONE" by (simp add: lg Logger_new_def)
  have str: "info_text lim B lits lg (fst s0) (lit_shows ts ! i)" if "i < 8" for i using texts that by (simp add: list_texts_def lg)
  show ?thesis
    unfolding remove_test_def Let_def
  proof (rule agree_bind [OF shows_agree [OF l tgt]], goal_cases)
    case (3 s1)
    obtain l1 h1 c1 where s1: "s1 = (l1, h1, c1)" by (cases s1)
    obtain l2 m where r: "remove_at u16_elem 1 (l1, ram h1) = (l2, m)" by (cases "remove_at u16_elem 1 (l1, ram h1)")
    have l2: "list_at lim B s0 (n + 3 * 24576) [30, 90] (l2, h1\<lparr>ram := m\<rparr>, c1)" using list_at_remove [OF 3 [unfolded s1] _ r] by (simp add: numeral_3_eq_3)
    have "agree (list_at lim B s0 (n + 3 * 24576 + length [(30 :: u16, 0 :: u64, lit_shows ts ! 0), (90, 1, lit_shows ts ! 2), (0, 2, lit_shows ts ! 3)] * 24576) [30, 90])
        (all_steps (show_item look_get lits lg) [(30, 0, lit_shows ts ! 0), (90, 1, lit_shows ts ! 2), (0, 2, lit_shows ts ! 3)] (l2, h1\<lparr>ram := m\<rparr>, c1))
        (all_steps (show_item look_expected lits lg) [(30, 0, lit_shows ts ! 0), (90, 1, lit_shows ts ! 2), (0, 2, lit_shows ts ! 3)] (l2, h1\<lparr>ram := m\<rparr>, c1))"
      by (rule shows_agree [OF l2 tgt]) (use room str in simp_all)
    then show ?case by (simp add: s1 r add.assoc)
  qed (use room str in simp_all)
qed

lemma sort_test_agree:
  fixes s0 :: "'h heap_scheme \<times> 'c console_scheme"
  assumes l: "list_at lim B s0 n xs s" and room: "unat (heapEnd (fst s0)) + n + 6 * 24576 + 5 * 8192 \<le> lim"
    and lg: "lg = Logger_new (lit_ListTest ts) (lit_ListKernel ts)" and texts: "list_texts (hp.stable lim (fst s0) B) (ram (fst s0)) lits ts"
  shows "agree (list_at lim B s0 (n + 6 * 24576 + 5 * 8192) [12, 34, 56, 78, 90]) (sort_test look_get lits ts lg s) (sort_test look_expected lits ts lg s)"
proof -
  have tgt: "target lg \<noteq> NONE" by (simp add: lg Logger_new_def)
  have str: "info_text lim B lits lg (fst s0) (lit_shows ts ! i)" "info_text lim B lits lg (fst s0) (lit_sorting ts)" if "i < 8" for i
    using texts that by (simp_all add: list_texts_def lg)
  obtain l1 h1 c1 where s: "s = (l1, h1, c1)" by (cases s)
  have l1: "list_at lim B s0 n [] (list_clear l1, h1, c1)" by (rule list_at_clear [OF l [unfolded s]])
  show ?thesis
    unfolding sort_test_def Let_def s prod.case
  proof (rule agree_bind [OF agree_same [OF list_log_step [OF l1 str(2) [of 0] tgt]]], goal_cases)
    case (3 s2)
    obtain h2 c2 where s2: "s2 = (h2, c2)" by (cases s2)
    have l2: "list_at lim B s0 (n + 24576) [] (list_clear l1, h2, c2)" using 3 by (simp add: s2)
    show ?case
      unfolding s2 prod.case
    proof (rule agree_bind [OF agree_same [OF adds_run [OF l2]]], goal_cases)
      case (3 s3)
      obtain l3 h3 c3 where s3: "s3 = (l3, h3, c3)" by (cases s3)
      let ?ys = "[(12 :: u16, 0 :: u64, lit_shows ts ! 4), (34, 1, lit_shows ts ! 5), (56, 2, lit_shows ts ! 6), (78, 3, lit_shows ts ! 7), (90, 4, lit_shows ts ! 2)]"
        and ?s = "(l3, h3\<lparr>ram := list_sort u16_elem l3 (ram h3)\<rparr>, c3)"
      have l3: "list_at lim B s0 (n + 24576 + 5 * 8192) [12, 34, 56, 78, 90] ?s"
        using list_at_sort [OF 3 [unfolded s3 append_Nil], unfolded test_sorted [OF refl]] by simp
      have "agree (list_at lim B s0 (n + 24576 + 5 * 8192 + length ?ys * 24576) [12, 34, 56, 78, 90])
          (all_steps (show_item look_get lits lg) ?ys ?s) (all_steps (show_item look_expected lits lg) ?ys ?s)"
        by (rule shows_agree [OF l3 tgt]) (use room str in simp_all)
      then show ?case by (simp add: s3 add.assoc)
    qed (use room in simp_all)
  qed (use room in simp_all)
qed

lemma list_test_agree:
  fixes h :: "'h heap_scheme" and c :: "'c console_scheme"
  assumes h: "heap_holds lim h B" and room: "unat (heapEnd h) + 12 * 24576 + 10 * 8192 \<le> lim"
    and texts: "list_texts (hp.stable lim h B) (ram h) lits ts"
  shows "agree (\<lambda>(l, h', c'). elems u16_elem l (ram h') = [12, 34, 56, 78, 90] \<and> (\<exists>C. heap_holds lim h' C \<and> B \<subseteq> C) \<and>
      (\<forall>x. hp.stable lim h B x \<longrightarrow> ram h' x = ram h x)) (list_test_via look_get lits ts (h, c)) (list_test_via look_expected lits ts (h, c))"
proof -
  have "heap_room lim 24 h" using room by (simp add: heap_room_def align16_def round_page_def)
  with h show ?thesis
  proof (cases rule: malloc_cases)
    case 1
    then show ?thesis by (simp add: list_test_via_def agree_def log_error_def)
  next
    case (2 this t len)
    let ?B = "insert (this, len) B" and ?s = "(t, c)" and ?lg = "Logger_new (lit_ListTest ts) (lit_ListKernel ts)"
    have et: "unat (heapEnd t) \<le> unat (heapEnd h) + 8192" using 2(8) by (simp add: align16_def round_page_def)
    have keep: "keeps (hp.stable lim h B) (ram h) (hp.stable lim t ?B) (ram t)" using 2(6,7) stable_insert unfolding keeps_def by blast
    have texts': "list_texts (hp.stable lim (fst ?s) ?B) (ram (fst ?s)) lits ts" using list_texts_keeps [OF keep texts] by simp
    have run: "agree (list_at lim ?B ?s (8192 + 3 * 8192 + 6 * 24576 + 6 * 24576 + 5 * 8192) [12, 34, 56, 78, 90])
       (bind_ro (List_new_default u16_elem t) (\<lambda>(l, h). bind_ro (all_steps add_item [30, 60, 90] (l, h, c)) (\<lambda>s.
          bind_ro (remove_test look_get lits ts ?lg s) (sort_test look_get lits ts ?lg))))
       (bind_ro (List_new_default u16_elem t) (\<lambda>(l, h). bind_ro (all_steps add_item [30, 60, 90] (l, h, c)) (\<lambda>s.
          bind_ro (remove_test look_expected lits ts ?lg s) (sort_test look_expected lits ts ?lg))))"
    proof (rule agree_bind [OF agree_same [OF new_list_run [OF 2(5), of c]]], goal_cases)
      case (2 r)
      obtain l u where r: "r = (l, u)" by (cases r)
      have l: "list_at lim ?B ?s 8192 [] (l, u, c)" using 2 by (simp add: r)
      show ?case
        unfolding r prod.case
      proof (rule agree_bind [OF agree_same [OF adds_run [OF l]]], goal_cases)
        case (3 s)
        then have s: "list_at lim ?B ?s (8192 + 3 * 8192) [30, 60, 90] s" by simp
        show ?case
        proof (rule agree_bind [OF remove_test_agree [OF s _ refl texts']], goal_cases)
          case (2 s')
          then show ?case by (rule sort_test_agree [OF _ _ refl texts']) (use room et in simp)
        qed (use room et in simp)
      qed (use room et in simp_all)
    qed (use room et in simp)
    have post: "elems u16_elem l (ram h') = [12, 34, 56, 78, 90] \<and> (\<exists>C. heap_holds lim h' C \<and> B \<subseteq> C) \<and>
        (\<forall>x. hp.stable lim h B x \<longrightarrow> ram h' x = ram h x)" if l: "list_at lim ?B ?s n [12, 34, 56, 78, 90] (l, h', c')" for n l h' c'
    proof -
      obtain blk where "heap_holds lim h' (insert (items l, blk) ?B)" using l by (auto simp: list_at_def list_sys_def)
      moreover have "ram h' x = ram h x" if "hp.stable lim h B x" for x using l keep that by (simp add: list_at_def keeps_def)
      ultimately show ?thesis using l by (auto simp: list_at_def)
    qed
    with run show ?thesis
      using 2(1,2) by (auto simp: list_test_via_def agree_def Let_def elim!: run_ok_mono)
  qed
qed

text \<open>C14: the test of lists passes. Each of its eleven lines shows the element that the line's text expects: the run of the test is the run in
  which the expected values are printed and the list is not read at all. If the test ends, its list is sorted, the blocks allocated before
  it are still allocated and the memory their owners rely on is unchanged; its only errors are lack of frames
  and a conversion without an argument.\<close>

theorem list_test_expected:
  fixes h :: "'h heap_scheme" and c :: "'c console_scheme"
  assumes "heap_holds lim h B" and "unat (heapEnd h) + 12 * 24576 + 10 * 8192 \<le> lim" and "list_texts (hp.stable lim h B) (ram h) lits ts"
  shows "list_test lits ts (h, c) = list_test_via (\<lambda>expected _ _ _. expected) lits ts (h, c) \<and>
    (case list_test lits ts (h, c) of
      None \<Rightarrow> True
    | Some (Inl e) \<Rightarrow> log_error e
    | Some (Inr (l, h', c')) \<Rightarrow> elems u16_elem l (ram h') = [12, 34, 56, 78, 90] \<and> (\<exists>C. heap_holds lim h' C \<and> B \<subseteq> C) \<and>
        (\<forall>x. hp.stable lim h B x \<longrightarrow> ram h' x = ram h x))"
  using list_test_agree [OF assms, of c] unfolding list_test_def agree_def run_ok_def
  by (auto split: option.splits sum.splits)

definition list_example :: list_literals where
  "list_example = \<lparr>lit_ListTest = 0xA0002e, lit_ListKernel = 0xA00027, lit_shows = replicate 8 0xA00033, lit_sorting = 0xA00033\<rparr>"

theorem list_test_expected_witness:
  "list_test log_example list_example (acpi_heap, console_example) =
     list_test_via (\<lambda>expected _ _ _. expected) log_example list_example (acpi_heap, console_example)"
proof -
  have "list_texts (hp.stable 0x900000 acpi_heap {}) (ram acpi_heap) log_example list_example"
    using on_page_words log_words_keeps [OF acpi_heap_page] unfolding list_texts_def list_example_def info_words_def list_literals.simps
    by (simp, blast)
  moreover have "unat (heapEnd acpi_heap) + 12 * 24576 + 10 * 8192 \<le> 0x900000" by (simp add: acpi_heap_def)
  ultimately show ?thesis using list_test_expected [OF acpi_heap_holds, of log_example list_example console_example] by blast
qed

end
