(* ===== verification/Spec2Isabelle.thy ===== *)
theory Spec2Isabelle
  imports Pageframes_Boot Heap_Spec Klist_Props String_Builder_Props Tables_Props Framebuffer_Props Boot_Props Acpi_Init
    Kernel_Props Selftest_Props Selftest_Lists
begin

text \<open>
  \<^bold>\<open>A verification of okeOS.\<close>

  okeOS is a small x86-64 kernel in C++ under \<^verbatim>\<open>src/kernel\<close>. The boot loader hands it a framebuffer, a memory map and
  the address of the firmware tables. The entry point \<open>_start\<close> (\<^verbatim>\<open>kernel.cpp\<close>) brings up the terminal and the serial port,
  loads the segment table, starts the page frame allocator on the memory map, fills the interrupt table, builds an address
  space and loads it, starts the heap, and enables ACPI. After that the machine halts. Everything runs on one
  processor without interrupts, so a run is a sequence of calls. The parts call each other like this: paging takes frames
  from the allocator, the heap takes frames and maps them, lists and string builders live in heap blocks, the logger
  combines string builder, heap and formatted output, the output goes to the terminal (framebuffer) and to the serial port,
  and every part halts through \<open>panic\<close>.

  \<^bold>\<open>How the code is modelled.\<close>

  \<^item> \<^emph>\<open>Integers\<close> keep their width: \<open>u8\<close> to \<open>u64\<close> are words (\<open>Prelude\<close>, \<^verbatim>\<open>lib/num.h\<close>), so arithmetic wraps; signed values are
    read with \<open>sint\<close>. Where an \<open>int\<close> overflows, the outcome is \<open>Undefined\<close>.
  \<^item> \<^emph>\<open>Memory\<close> is one function from 64-bit addresses to bytes. Page tables, the bitmap, heap headers, strings, stack frames
    and firmware tables are bytes in it, and loads and stores are little-endian. An address is the address that the code
    dereferences. The video memory and the font belong to the console state and are separate from it, and so are the local
    buffers of \<open>_kprintf\<close>.
  \<^item> \<^emph>\<open>State\<close> is passed explicitly. The record \<open>pfa\<close> holds the globals of the allocator, with the memory; \<open>heap\<close> extends it by the
    globals of the heap and \<open>boot\<close> by the register \<open>cr3\<close>. The record \<open>ports\<close> is extended by \<open>screen\<close> and \<open>console\<close>. Operations are
    polymorphic in the rest of the record. The record \<open>kernel\<close> combines all of them with the descriptor tables; it is the state of \<open>_start\<close>.
  \<^item> \<^emph>\<open>Outcomes\<close>: \<open>Inl (Panic msg)\<close> is a call of \<open>panic\<close>, \<open>Inl (Undefined what)\<close> an operation without defined meaning, \<open>Inl CpuFault\<close>
    an exception of the processor. \<open>None\<close> means that a call never returns; polling loops, string loops and the first-fit loop
    are \<open>partial_function (option)\<close>, and that they return is proved. The other loops recurse over lists of counter values or
    carry a measure. There is no fuel.
  \<^item> \<^emph>\<open>Output\<close>: writes to ports are a trace, and what a port read returns is a parameter, \<open>device\<close>. The code below the console
    (memory map, allocator, paging, heap, boot) records its \<open>kprintf\<close> calls in \<open>klog\<close>, with format and arguments; \<open>kernel_start\<close> prints the recorded calls in their order after each stage,
    which is the order of the code since the stages between do not print otherwise.
  \<^item> \<^emph>\<open>Parameters\<close>: addresses of string literals and globals, what happens during \<open>hlt\<close>, and the element type of \<open>List\<close>. The responses of
    the boot loader are bytes of the memory, read at the offsets that the compiler gives the fields.

  \<^bold>\<open>Theories.\<close> A theory with definitions is followed by the theories with its properties.

  \<^item> \<open>Prelude\<close>: types, outcomes, loops over counters, byte regions, memory cells (the interface \<open>memory_cell\<close>, with the cells of 8, 32
    and 64 bits as instances), the log of \<open>kprintf\<close> calls.
  \<^item> \<open>Kmem\<close> (\<^verbatim>\<open>lib/mem.cpp\<close>, \<^verbatim>\<open>lib/math.cpp\<close>): the copy loops are equal to block moves; \<open>memmove\<close> is right for every overlap.
  \<^item> \<open>Kbitmap\<close> (\<^verbatim>\<open>lib/bitmap.cpp\<close>): \<open>get\<close> after \<open>set\<close> on every offset, as the interface \<open>bit_map\<close>.
  \<^item> \<open>Memutils\<close> (\<^verbatim>\<open>mem/memutils.cpp\<close>): the memory map and its sizes.
  \<^item> \<open>Pageframes\<close>, \<open>Pageframes_Boot\<close> (\<^verbatim>\<open>mem/pageframeallocator.cpp\<close>): the abstract allocator is a set of free pages (\<open>frame_allocator\<close>);
    requests take the lowest one, runs of calls keep the total, and from a memory map of the boot loader only usable pages are
    ever handed out. The largest usable entry is defined by its size (\<open>largest_segment\<close>), and the scan of \<open>init\<close> is proved to find it.
    Also: what \<open>init\<close> does above 2 GiB, and the limit by the largest segment.
  \<^item> \<open>Paging\<close>, \<open>Paging_Walk\<close>, \<open>Paging_Refine\<close>, \<open>Address_Space\<close> (\<^verbatim>\<open>mem/paging.cpp\<close>): four levels of tables as a partial map from pages to
    frames, read with the index fields of an address as the processor takes them (\<open>indices\<close>, proved equal to the ones of the code); \<open>PageTable_MapMemory\<close> refines one update of the map. The invariant \<open>paging_inv\<close> keeps tables, bitmap and free frames
    apart.
  \<^item> \<open>Heap\<close>, \<open>Heap_Segments\<close>, \<open>Heap_Ops\<close>, \<open>Heap_Alloc\<close>, \<open>Heap_Props\<close>, \<open>Heap_Init\<close>, \<open>Heap_Client\<close>, \<open>Heap_Spec\<close>, \<open>Heap_Stable\<close> (\<^verbatim>\<open>mem/heap.cpp\<close>): the
    doubly linked headers represent a list of segments that tile the heap window (\<open>header_field\<close> for their fields). \<open>malloc\<close> and \<open>free\<close> implement
    the interface \<open>block_heap\<close> of disjoint blocks, extended by \<open>framed_heap\<close> for memory outside of the heap; clients are proved
    against it.
  \<^item> \<open>Boot\<close>, \<open>Boot_Props\<close> (\<^verbatim>\<open>kernel.cpp\<close>, memory map to heap): the loaded address space is exactly the one that the sequence of mappings
    describes; which memory it reaches when it is loaded; the heap is ready.
  \<^item> \<open>Start\<close>, \<open>Start_Props\<close> (\<^verbatim>\<open>kernel.cpp\<close>, the other stages): the console comes up, with the exact output to the ports (\<open>console_output\<close>); the self-test
    leaves the heap as it was.
  \<^item> \<open>Limine\<close> (\<^verbatim>\<open>limine.h\<close>, the requests of \<^verbatim>\<open>kernel.cpp\<close>): the five requests, the layout of their responses and how the kernel reads them; when the
    memory map it reads is the one of the boot protocol.
  \<^item> \<open>Kernel\<close>, \<open>Kernel_Log\<close>, \<open>Kernel_Props\<close> (\<^verbatim>\<open>kernel.cpp\<close>): \<open>_start\<close> as one run \<open>kernel_start\<close> of its stages. All messages of the memory code can be
    printed; the run reaches the heap, and has printed the messages of \<open>_start\<close> up to there (\<open>tells\<close>). Of the stages behind it, partial correctness is
    proved: a run that ends has halted for one of the listed reasons or has enabled ACPI. The entries of the memory
    map are read once, where the response is copied, and not again in each loop of the code: \<open>_start\<close> does not touch memory that the map does
    not call usable, which is where the boot loader puts the entries, and reading them again from unchanged memory gives the same map.
  \<^item> \<open>Selftest\<close>, \<open>Selftest_Props\<close>, \<open>Selftest_Lists\<close> (\<^verbatim>\<open>kernel.cpp\<close>, the blocks under \<^verbatim>\<open>DBG_\<close> macros): the dump of the memory map, and the tests of logger, timer
    and lists. The source defines none of the macros, so the tests are not part of \<open>kernel_start\<close>; they are run on the state of the
    stage at which they stand. The tests pass, except that the one of the timer never returns without ticks.
  \<^item> \<open>Klist\<close>, \<open>Klist_Props\<close>, \<open>Klist_Stable\<close> (\<^verbatim>\<open>lib/list.h\<close>): the operations of \<open>List\<close> are functions on lists, for every element type that is a memory cell
    (\<open>element\<close>, with \<open>List<u16>\<close> as instance); \<open>sort\<close> sorts; \<open>add\<close> grows into a new heap block and keeps the memory of the list's client.
  \<^item> \<open>Kstring\<close>, \<open>Kstring_Props\<close>, \<open>String_Builder\<close>, \<open>String_Builder_Props\<close> (\<^verbatim>\<open>lib/string.cpp\<close>): conversions read back (\<open>digit_loop\<close> for both loops);
    \<open>strncmp\<close>; the builder concatenates.
  \<^item> \<open>Ports\<close>, \<open>Ports_Props\<close> (\<^verbatim>\<open>lib/io.cpp\<close>, \<^verbatim>\<open>idt/pic.cpp\<close>, \<^verbatim>\<open>lib/serial.cpp\<close>, \<^verbatim>\<open>sched/\<close>): ports, interrupt controller, serial port, interval timer and
    stop watch; sleeping is accurate to a tick, given the ticks.
  \<^item> \<open>Framebuffer\<close>, \<open>Framebuffer_Props\<close> (\<^verbatim>\<open>graphics/framebuffer.cpp\<close>): where the drawing routines write.
  \<^item> \<open>Console\<close>, \<open>Console_Props\<close>, \<open>Kprintf_Props\<close> (\<^verbatim>\<open>terminal/terminal.cpp\<close>, \<^verbatim>\<open>debug.cpp\<close>): which strings can be printed at all, the cursor stays on
    the screen, buffers suffice, and \<open>_kprintf\<close> prints what a reference definition of formats renders, on the channels that are asked for and with
    the cursor where the text puts it (\<open>sent\<close>, \<open>emits\<close>); \<open>Console_Trace\<close>: in every state, printing only adds
    to the trace of port writes.
  \<^item> \<open>Panic\<close>, \<open>Panic_Props\<close> (\<^verbatim>\<open>panic.cpp\<close>): the report reaches the serial port, with the stack trace.
  \<^item> \<open>Logger\<close>, \<open>Logger_Props\<close> (\<^verbatim>\<open>lib/logger.h\<close>): a log call prints its line and leaks nothing.
  \<^item> \<open>Structs\<close>, \<open>Acpi\<close>, \<open>Acpi_Props\<close>, \<open>Acpi_Init\<close> (\<^verbatim>\<open>acpi/\<close>, \<^verbatim>\<open>task/tss.h\<close>): the layout that the compiler gives the structures against the offsets of the ACPI
    specification (\<open>FADT_firmware\<close>, a table of its own); the search for the table;
    and the whole ACPI stage of \<open>_start\<close>, log calls included, as a sequence of steps that keep what their caller relies on.
  \<^item> \<open>Tables\<close>, \<open>Tables_Props\<close> (\<^verbatim>\<open>idt/ints.cpp\<close>, \<^verbatim>\<open>gdt/gdt.cpp\<close>, \<^verbatim>\<open>task/tss.cpp\<close>): the tables as the processor decodes them, for the segment table from its 4096
    bytes (\<open>gdt_bytes\<close>), the page fault message, and what \<open>loadIDT\<close> loads.

  \<^bold>\<open>What the theorems assume.\<close> The heap properties need a window up to \<open>lim\<close> that neither page tables nor free frames use;
  the boot properties establish such a window for memory maps that have no usable memory in it. The properties of the boot are about the memory maps that
  the code can handle, which is less than the boot protocol allows: every entry ends at or below 2 GiB, the largest usable entry does not
  start at 0 and has room for the tables, and usable memory lies outside of the heap window (\<open>boot_layout\<close>, \<open>outside_window\<close>, \<open>loader_ok\<close>). What happens on other
  maps is shown for those that end above 2 GiB: \<open>init\<close> overflows a signed integer. Requests are given room for at most two
  expansions of the heap, which is enough because \<open>malloc\<close> grows by whole pages and tries again. Properties of the output
  assume a serial port that becomes ready again and again (\<open>transmits\<close>). Strings that are read are in memory that
  the heap leaves alone (\<open>stable\<close>).

  \<^bold>\<open>Not modelled.\<close> The assembly of \<^verbatim>\<open>gdt/gdtasm.asm\<close> and \<^verbatim>\<open>idt/stubs.asm\<close> (register and stack manipulation; their effect on tables and
  registers is part of \<open>gdt_init\<close> and \<open>initInts\<close>), \<open>cpuid\<close> (inline assembly that nothing calls), translation caches and
  accesses through unmapped pages, the declarations of \<^verbatim>\<open>limine.h\<close> for requests that the kernel does not make (they have no code), and interrupts
  that arrive while the kernel runs (the interrupt table is never
  loaded). The bytes of a string builder or of the list object of the self-test inside of their heap blocks are not written;
  their fields are records.
\<close>

end
